(* ===== verification/Prelude.thy ===== *)
theory Prelude
  imports Complex_Main "HOL-Library.Word" "HOL-Library.Log_Nat"
begin

text \<open>
  What every component shares: names for the machine types, the result monad
  that stands for Rust's \<open>Result\<close> and the \<open>?\<close> operator, the string and slice
  functions of the standard library that the sources call, and binary search.

  Conventions. A \<open>u8\<close>, \<open>u16\<close>, \<open>i32\<close> or \<open>u64\<close> whose bits or wrap-around matter
  is a word of that width; an \<open>i32\<close> is read with \<open>sint\<close> and shifted with
  \<open>signed_drop_bit\<close>. A \<open>usize\<close>, and a \<open>u32\<close> that only holds an index, a count or
  a register number, is a \<open>nat\<close>; a narrowing cast to it is written \<open>as_u32\<close>.
  A Rust \<open>&str\<close> is the list of its Unicode scalar values, a byte slice is a
  list of \<open>u8\<close>, and a slice of UTF-16 units a list of \<open>u16\<close>.
\<close>

unbundle bit_operations_syntax

type_synonym u8 = "8 word"
type_synonym u16 = "16 word"
type_synonym i32 = "32 word"
type_synonym u32 = "32 word"
type_synonym u64 = "64 word"
type_synonym i64 = "64 word"
type_synonym str = "nat list"

named_theorems res_simps \<open>unfolding the result monad\<close>
named_theorems word_nat_simps \<open>reading words as numbers\<close>

subsection \<open>Results\<close>

text \<open>\<open>Result<'a, 'e>\<close> is \<open>'e + 'a\<close>; \<open>res_bind\<close> is the early return of \<open>?\<close>.\<close>

fun res_bind :: "'e + 'a \<Rightarrow> ('a \<Rightarrow> 'e + 'b) \<Rightarrow> 'e + 'b" where
  "res_bind (Inl e) f = Inl e"
| "res_bind (Inr x) f = f x"

fun opt_res :: "'e \<Rightarrow> 'a option \<Rightarrow> 'e + 'a" where
  "opt_res e None = Inl e"
| "opt_res e (Some x) = Inr x"

fun map_err :: "('e \<Rightarrow> 'f) \<Rightarrow> 'e + 'a \<Rightarrow> 'f + 'a" where
  "map_err f (Inl e) = Inl (f e)"
| "map_err f (Inr x) = Inr x"

lemma res_bind_Inr [res_simps]:
  "res_bind m f = Inr y \<longleftrightarrow> (\<exists>x. m = Inr x \<and> f x = Inr y)"
  by (cases m) auto

lemma res_bind_Inl [res_simps]:
  "res_bind m f = Inl e \<longleftrightarrow> m = Inl e \<or> (\<exists>x. m = Inr x \<and> f x = Inl e)"
  by (cases m) auto

lemma res_bind_assoc: "res_bind (res_bind m f) g = res_bind m (\<lambda>x. res_bind (f x) g)"
  by (cases m) auto

lemma opt_res_Inr [res_simps]: "opt_res e x = Inr y \<longleftrightarrow> x = Some y"
  by (cases x) auto

lemma opt_res_Inl [res_simps]: "opt_res e x = Inl e' \<longleftrightarrow> x = None \<and> e' = e"
  by (cases x) auto

lemma map_err_Inr [res_simps]: "map_err f x = Inr y \<longleftrightarrow> x = Inr y"
  by (cases x) auto

lemma res_bind_cong [fundef_cong]:
  "m = m' \<Longrightarrow> (\<And>x. m' = Inr x \<Longrightarrow> f x = f' x) \<Longrightarrow> res_bind m f = res_bind m' f'"
  by (cases m') auto

subsection \<open>Slices\<close>

text \<open>\<open>slice::get\<close>: \<open>None\<close> past the end.\<close>

definition get :: "'a list \<Rightarrow> nat \<Rightarrow> 'a option" where
  "get xs i = (if i < length xs then Some (xs ! i) else None)"

text \<open>\<open>slice.get(a..b)\<close>: \<open>None\<close> when the range is not inside the slice.\<close>

definition get_range :: "'a list \<Rightarrow> nat \<Rightarrow> nat \<Rightarrow> 'a list option" where
  "get_range xs a b = (if a \<le> b \<and> b \<le> length xs then Some (take (b - a) (drop a xs)) else None)"

lemma get_Some [simp]: "get xs i = Some x \<longleftrightarrow> i < length xs \<and> x = xs ! i"
  by (auto simp: get_def)

lemma get_None [simp]: "get xs i = None \<longleftrightarrow> length xs \<le> i"
  by (auto simp: get_def)

lemma get_nth [simp]: "i < length xs \<Longrightarrow> get xs i = Some (xs ! i)"
  by simp

text \<open>The position of the first element that satisfies a predicate.\<close>

fun position :: "('a \<Rightarrow> bool) \<Rightarrow> 'a list \<Rightarrow> nat option" where
  "position P [] = None"
| "position P (x # xs) = (if P x then Some 0 else map_option Suc (position P xs))"

lemma position_Some:
  "position P xs = Some i \<Longrightarrow> i < length xs \<and> P (xs ! i) \<and> (\<forall>j<i. \<not> P (xs ! j))"
proof (induction xs arbitrary: i)
  case (Cons x xs)
  then show ?case by (cases i) (auto split: if_splits simp: nth_Cons' less_Suc_eq_0_disj)
qed simp

lemma position_None: "position P xs = None \<longleftrightarrow> (\<forall>x \<in> set xs. \<not> P x)"
  by (induction xs) auto

text \<open>The words that lie at a position.\<close>

definition words_at :: "'a list \<Rightarrow> nat \<Rightarrow> 'a list \<Rightarrow> bool" where
  "words_at code pc ws \<longleftrightarrow> pc + length ws \<le> length code \<and> take (length ws) (drop pc code) = ws"

lemma words_at_Nil [simp]: "words_at code pc [] \<longleftrightarrow> pc \<le> length code"
  by (simp add: words_at_def)

lemma words_at_Cons [simp]:
  "words_at code pc (w # ws) \<longleftrightarrow> pc < length code \<and> code ! pc = w \<and> words_at code (pc + 1) ws"
  by (cases "pc < length code") (auto simp: words_at_def simp flip: Cons_nth_drop_Suc)

lemma words_at_append [simp]:
  "words_at code pc (ws @ vs) \<longleftrightarrow> words_at code pc ws \<and> words_at code (pc + length ws) vs"
proof (induction ws arbitrary: pc)
  case Nil
  then show ?case by (auto simp: words_at_def)
next
  case (Cons w ws)
  then show ?case by (simp add: conj_assoc)
qed

lemma words_at_mid: "words_at (pre @ ws @ post) (length pre) ws"
  by (simp add: words_at_def)

text \<open>A \<open>for (i, x) in xs.iter().enumerate()\<close> loop, and its invariant.\<close>

lemma foldl_enumerate_inv:
  assumes "P n s" "\<And>k s. k < length xs \<Longrightarrow> P (n + k) s \<Longrightarrow> P (n + k + 1) (f s (n + k, xs ! k))"
  shows "P (n + length xs) (foldl f s (enumerate n xs))"
  using assms
proof (induction xs arbitrary: n s)
  case (Cons x xs)
  have "P (Suc n + length xs) (foldl f (f s (n, x)) (enumerate (Suc n) xs))"
  proof (rule Cons.IH)
    show "P (Suc n) (f s (n, x))" using Cons.prems(2)[of 0 s] Cons.prems(1) by simp
    show "P (Suc n + k + 1) (f t (Suc n + k, xs ! k))" if "k < length xs" "P (Suc n + k) t" for k t
      using Cons.prems(2)[of "Suc k" t] that by simp
  qed
  then show ?case by simp
qed simp

subsection \<open>Words\<close>

lemma unat_bound: "unat (w :: 'a::len word) < 2 ^ LENGTH('a)"
  by (rule unsigned_less)

lemma unat_of_nat_small [word_nat_simps]:
  "n < 2 ^ LENGTH('a) \<Longrightarrow> unat (of_nat n :: 'a::len word) = n"
  by (simp add: unat_of_nat take_bit_nat_eq_self)

text \<open>\<open>to_le_bytes\<close> of an integer type.\<close>

definition to_le_bytes :: "'a::len word \<Rightarrow> u8 list" where
  "to_le_bytes w = map (\<lambda>i. ucast (drop_bit (8 * i) w)) [0..<LENGTH('a) div 8]"

text \<open>
  A hash map whose keys are inserted once and never removed: an association list, with
  \<open>entry(k).or_insert(v)\<close>, which returns the value the map holds afterwards.
\<close>

definition or_insert :: "'k \<Rightarrow> 'v \<Rightarrow> ('k \<times> 'v) list \<Rightarrow> 'v \<times> ('k \<times> 'v) list" where
  "or_insert k v m = (case map_of m k of Some x \<Rightarrow> (x, m) | None \<Rightarrow> (v, (k, v) # m))"

subsection \<open>Strings\<close>

text \<open>A literal \<open>b"..."\<close> as bytes, and a literal \<open>"..."\<close> as scalar values.\<close>

definition bytes :: "string \<Rightarrow> u8 list" where
  "bytes s = map of_char s"

definition chars :: "string \<Rightarrow> str" where
  "chars s = map of_char s"

text \<open>\<open>str::as_bytes\<close>: the UTF-8 encoding.\<close>

definition utf8_char :: "nat \<Rightarrow> u8 list" where
  "utf8_char c =
     (if c < 0x80 then [of_nat c]
      else if c < 0x800 then [of_nat (0xC0 + c div 64), of_nat (0x80 + c mod 64)]
      else if c < 0x10000 then
        [of_nat (0xE0 + c div 4096), of_nat (0x80 + c div 64 mod 64), of_nat (0x80 + c mod 64)]
      else [of_nat (0xF0 + c div 262144), of_nat (0x80 + c div 4096 mod 64),
            of_nat (0x80 + c div 64 mod 64), of_nat (0x80 + c mod 64)])"

definition as_bytes :: "str \<Rightarrow> u8 list" where
  "as_bytes s = concat (map utf8_char s)"

text \<open>\<open>str::encode_utf16\<close>, and \<open>String::from_utf16_lossy\<close> with its replacement character.\<close>

definition utf16_char :: "nat \<Rightarrow> u16 list" where
  "utf16_char c =
     (if c < 0x10000 then [of_nat c]
      else [of_nat (0xD800 + (c - 0x10000) div 1024), of_nat (0xDC00 + (c - 0x10000) mod 1024)])"

definition encode_utf16 :: "str \<Rightarrow> u16 list" where
  "encode_utf16 s = concat (map utf16_char s)"

fun from_utf16_lossy :: "u16 list \<Rightarrow> str" where
  "from_utf16_lossy [] = []"
| "from_utf16_lossy [u] =
     [if 0xD800 \<le> unat u \<and> unat u < 0xE000 then 0xFFFD else unat u]"
| "from_utf16_lossy (u # v # us) =
     (if unat u < 0xD800 \<or> 0xE000 \<le> unat u then unat u # from_utf16_lossy (v # us)
      else if unat u < 0xDC00 \<and> 0xDC00 \<le> unat v \<and> unat v < 0xE000
      then (0x10000 + (unat u - 0xD800) * 1024 + (unat v - 0xDC00)) # from_utf16_lossy us
      else 0xFFFD # from_utf16_lossy (v # us))"

text \<open>A Unicode scalar value: what a Rust \<open>char\<close> can hold.\<close>

definition scalar :: "nat \<Rightarrow> bool" where
  "scalar c \<longleftrightarrow> c < 0xD800 \<or> 0xE000 \<le> c \<and> c < 0x110000"

lemma from_utf16_lossy_bmp:
  "unat u < 0xD800 \<or> 0xE000 \<le> unat u \<Longrightarrow> from_utf16_lossy (u # us) = unat u # from_utf16_lossy us"
  by (cases us) auto

lemma from_utf16_lossy_pair:
  "unat u = 0xD800 + h \<Longrightarrow> h < 1024 \<Longrightarrow> unat v = 0xDC00 + l \<Longrightarrow> l < 1024
    \<Longrightarrow> from_utf16_lossy (u # v # us) = (0x10000 + h * 1024 + l) # from_utf16_lossy us"
  by simp

lemma from_utf16_lossy_encode: "list_all scalar s \<Longrightarrow> from_utf16_lossy (encode_utf16 s) = s"
proof (induction s)
  case Nil
  then show ?case by (simp add: encode_utf16_def)
next
  case (Cons c s)
  then have IH: "from_utf16_lossy (encode_utf16 s) = s" and c: "scalar c" by auto
  show ?case
  proof (cases "c < 0x10000")
    case True
    with c have *: "unat (of_nat c :: u16) = c" "c < 0xD800 \<or> 0xE000 \<le> c"
      by (auto simp: unat_of_nat scalar_def take_bit_eq_mod)
    have "encode_utf16 (c # s) = of_nat c # encode_utf16 s"
      using True by (simp add: encode_utf16_def utf16_char_def)
    then show ?thesis using IH * from_utf16_lossy_bmp[of "of_nat c"] by simp
  next
    case False
    define d where "d = c - 0x10000"
    have d: "c = d + 0x10000" "d < 0x100000" using False c by (auto simp: d_def scalar_def)
    then have bounds: "d div 1024 < 1024" "d mod 1024 < 1024" by auto
    then have hi: "unat (of_nat (0xD800 + d div 1024) :: u16) = 0xD800 + d div 1024"
      by (intro unat_of_nat_small) simp
    have lo: "unat (of_nat (0xDC00 + d mod 1024) :: u16) = 0xDC00 + d mod 1024"
      using bounds by (intro unat_of_nat_small) simp
    have e: "encode_utf16 (c # s) = of_nat (0xD800 + d div 1024) # of_nat (0xDC00 + d mod 1024) # encode_utf16 s"
      using False by (simp add: encode_utf16_def utf16_char_def d_def)
    have "from_utf16_lossy (encode_utf16 (c # s)) = (0x10000 + d div 1024 * 1024 + d mod 1024) # s"
      unfolding e from_utf16_lossy_pair[OF hi bounds(1) lo bounds(2)] IH ..
    also have "0x10000 + d div 1024 * 1024 + d mod 1024 = c" using d by simp
    finally show ?thesis .
  qed
qed

subsection \<open>Binary search\<close>

text \<open>
  \<open>slice::binary_search_by_key\<close> as the standard library runs it: the interval is
  halved without an early exit, and the last candidate is compared once more.
\<close>

function bsearch_loop :: "('a \<Rightarrow> 'k::linorder) \<Rightarrow> 'a list \<Rightarrow> 'k \<Rightarrow> nat \<Rightarrow> nat \<Rightarrow> nat" where
  "bsearch_loop key xs k base sz =
     (if sz \<le> 1 then base
      else let half = sz div 2; mid = base + half in
        bsearch_loop key xs k (if k < key (xs ! mid) then base else mid) (sz - half))"
  by pat_completeness auto
termination
  by (relation "measure (\<lambda>(_, _, _, _, sz). sz)") auto

declare bsearch_loop.simps [simp del]

definition bsearch :: "('a \<Rightarrow> 'k::linorder) \<Rightarrow> 'a list \<Rightarrow> 'k \<Rightarrow> nat option" where
  "bsearch key xs k =
     (if xs = [] then None
      else let base = bsearch_loop key xs k 0 (length xs) in
        if key (xs ! base) = k then Some base else None)"

definition ascending :: "('a \<Rightarrow> 'k::linorder) \<Rightarrow> 'a list \<Rightarrow> bool" where
  "ascending key xs \<longleftrightarrow> sorted_wrt (<) (map key xs)"

lemma ascending_nth:
  "ascending key xs \<Longrightarrow> i < j \<Longrightarrow> j < length xs \<Longrightarrow> key (xs ! i) < key (xs ! j)"
  by (simp add: ascending_def sorted_wrt_map sorted_wrt_iff_nth_less)

lemma ascending_inj:
  "ascending key xs \<Longrightarrow> i < length xs \<Longrightarrow> j < length xs \<Longrightarrow> key (xs ! i) = key (xs ! j) \<Longrightarrow> i = j"
  by (metis ascending_nth less_irrefl nat_neq_iff)

lemma bsearch_loop_bounds:
  "0 < sz \<Longrightarrow> base \<le> bsearch_loop key xs k base sz \<and> bsearch_loop key xs k base sz < base + sz"
proof (induction key xs k base sz rule: bsearch_loop.induct)
  case (1 key xs k base sz)
  show ?case
  proof (cases "sz \<le> 1")
    case True
    then show ?thesis using "1.prems" by (simp add: bsearch_loop.simps)
  next
    case False
    have "base \<le> bsearch_loop key xs k base sz
        \<and> bsearch_loop key xs k base sz < base + sz"
      using "1.IH"[OF False refl refl] False
      by (subst (1 2) bsearch_loop.simps) (auto simp: Let_def split: if_splits)
    then show ?thesis .
  qed
qed

lemma bsearch_loop_finds:
  assumes "ascending key xs" "base + sz \<le> length xs"
    and "base \<le> i" "i < base + sz" "key (xs ! i) = k"
  shows "bsearch_loop key xs k base sz = i"
  using assms
proof (induction key xs k base sz rule: bsearch_loop.induct)
  case (1 key xs k base sz)
  show ?case
  proof (cases "sz \<le> 1")
    case True
    then show ?thesis using "1.prems" by (simp add: bsearch_loop.simps)
  next
    case False
    define mid where "mid = base + sz div 2"
    have mid: "mid < length xs" "mid < base + sz" using "1.prems" False by (auto simp: mid_def)
    have below: "k < key (xs ! mid) \<longleftrightarrow> i < mid"
      using ascending_nth[OF "1.prems"(1), of i mid] ascending_nth[OF "1.prems"(1), of mid i]
        "1.prems" mid by (metis not_less_iff_gr_or_eq order_less_le_trans)
    have "bsearch_loop key xs k (if k < key (xs ! mid) then base else mid) (sz - sz div 2) = i"
      using "1.IH"[OF False refl refl] "1.prems" below by (auto simp: mid_def split: if_splits)
    then show ?thesis using False by (subst bsearch_loop.simps) (simp only: Let_def mid_def if_False)
  qed
qed

lemma bsearch_sound: "bsearch key xs k = Some i \<Longrightarrow> i < length xs \<and> key (xs ! i) = k"
  using bsearch_loop_bounds[of "length xs" 0 key xs k]
  by (auto simp: bsearch_def Let_def split: if_splits)

lemma bsearch_finds:
  "ascending key xs \<Longrightarrow> i < length xs \<Longrightarrow> bsearch key xs (key (xs ! i)) = Some i"
  using bsearch_loop_finds[of key xs 0 "length xs" i "key (xs ! i)"]
  by (auto simp: bsearch_def Let_def)

lemma bsearch_iff:
  "ascending key xs \<Longrightarrow> bsearch key xs k = Some i \<longleftrightarrow> i < length xs \<and> key (xs ! i) = k"
  using bsearch_finds[of key xs i] bsearch_sound[of key xs k i] by auto

lemma bsearch_None:
  "ascending key xs \<Longrightarrow> bsearch key xs k = None \<longleftrightarrow> k \<notin> key ` set xs"
  using bsearch_finds[of key xs] bsearch_sound[of key xs k]
  by (cases "bsearch key xs k") (fastforce simp: in_set_conv_nth)+

text \<open>
  Several components build a table once, sorted by a key, and look entries up by
  binary search. What the builder promises is that every table it returns ascends;
  the lookup is then exact.
\<close>

locale keyed_table =
  fixes key :: "'a \<Rightarrow> 'k::linorder"
    and table :: "'i \<Rightarrow> 'a list option"
  assumes ascends: "table i = Some xs \<Longrightarrow> ascending key xs"
begin

lemma lookup_iff:
  "table i = Some xs \<Longrightarrow> bsearch key xs k = Some j \<longleftrightarrow> j < length xs \<and> key (xs ! j) = k"
  using ascends bsearch_iff by blast

lemma lookup_missing: "table i = Some xs \<Longrightarrow> bsearch key xs k = None \<longleftrightarrow> k \<notin> key ` set xs"
  using ascends bsearch_None by blast

lemma lookup_unique:
  "table i = Some xs \<Longrightarrow> x \<in> set xs \<Longrightarrow> y \<in> set xs \<Longrightarrow> key x = key y \<Longrightarrow> x = y"
  by (metis ascends ascending_inj in_set_conv_nth)

end

subsection \<open>Integer casts\<close>

text \<open>\<open>x as u32\<close> from \<open>usize\<close>, and an \<open>i32\<close> known to be non-negative as an index.\<close>

definition as_u32 :: "nat \<Rightarrow> nat" where
  "as_u32 n = n mod 2 ^ 32"

definition idx :: "i32 \<Rightarrow> nat" where
  "idx w = nat (sint w)"

lemma as_u32_id [simp]: "n < 2 ^ 32 \<Longrightarrow> as_u32 n = n"
  by (simp add: as_u32_def)

lemma idx_bound: "idx w < 2 ^ 31"
  using sint_lt[of w] by (simp add: idx_def)

end
