(* ===== verification/F64.thy ===== *)
theory F64
  imports Prelude
begin

text \<open>
  Rust's \<open>f64\<close>: IEEE 754 binary64 with round to nearest, ties to even. A finite
  value is kept in the canonical form sign, mantissa, exponent, so that two
  finite values are the same datum exactly when their bit patterns are; the NaNs
  are one value, since no modelled code looks at a NaN's payload. Every operation
  computes, and every operation rounds once from the exact result (\<open>f64_round\<close>).
  The lemmas say when the arithmetic is exact, which is what the integer code
  that runs on \<open>f64\<close> relies on.
\<close>

datatype f64 = FNan | FInf bool | FFin bool nat int

definition f64_zero :: "bool \<Rightarrow> f64" where
  "f64_zero s = FFin s 0 (-1074)"

definition f64_pack :: "bool \<Rightarrow> nat \<Rightarrow> int \<Rightarrow> f64" where
  "f64_pack s m e = (if 971 < e then FInf s else FFin s m e)"

text \<open>The value nearest to \<open>m * 2 ^ e\<close>; \<open>floorlog 2 m\<close> is the number of bits of \<open>m\<close>.\<close>

definition f64_round :: "bool \<Rightarrow> nat \<Rightarrow> int \<Rightarrow> f64" where
  "f64_round s m e =
     (if m = 0 then f64_zero s
      else let t = max (e + int (floorlog 2 m) - 53) (-1074) in
        if t \<le> e then f64_pack s (m * 2 ^ nat (e - t)) t
        else let k = nat (t - e); q = m div 2 ^ k; r = m mod 2 ^ k; h = 2 ^ (k - 1);
                 q' = (if h < r \<or> (r = h \<and> odd q) then q + 1 else q)
          in if q' = 2 ^ 53 then f64_pack s (2 ^ 52) (t + 1) else f64_pack s q' t)"

definition f64_wf :: "f64 \<Rightarrow> bool" where
  "f64_wf x = (case x of FNan \<Rightarrow> True | FInf _ \<Rightarrow> True
     | FFin s m e \<Rightarrow> m < 2 ^ 53 \<and> -1074 \<le> e \<and> e \<le> 971 \<and> (m < 2 ^ 52 \<longrightarrow> e = -1074))"

text \<open>The value of a finite \<open>f64\<close>.\<close>

definition f64_real :: "f64 \<Rightarrow> real" where
  "f64_real x = (case x of FFin s m e \<Rightarrow> (if s then -1 else 1) * real m * 2 powi e | _ \<Rightarrow> 0)"

fun is_finite :: "f64 \<Rightarrow> bool" where
  "is_finite (FFin _ _ _) = True"
| "is_finite _ = False"

subsection \<open>Conversions\<close>

text \<open>\<open>i as f64\<close> for any integer type.\<close>

definition f64_of_int :: "int \<Rightarrow> f64" where
  "f64_of_int i = f64_round (i < 0) (nat \<bar>i\<bar>) 0"

text \<open>The integer part, towards zero, of a finite value.\<close>

fun f64_trunc :: "f64 \<Rightarrow> int" where
  "f64_trunc (FFin s m e) =
     (if s then -1 else 1) * int (if 0 \<le> e then m * 2 ^ nat e else m div 2 ^ nat (- e))"
| "f64_trunc _ = 0"

text \<open>\<open>x as iN\<close> and \<open>x as uN\<close>: truncated, saturated at the bounds, NaN to 0.\<close>

definition f64_sat :: "int \<Rightarrow> int \<Rightarrow> f64 \<Rightarrow> int" where
  "f64_sat lo hi x = (case x of FNan \<Rightarrow> 0 | FInf s \<Rightarrow> (if s then lo else hi)
     | FFin _ _ _ \<Rightarrow> max lo (min hi (f64_trunc x)))"

text \<open>\<open>x.fract() == 0.0\<close>: no fractional part (false for NaN and the infinities).\<close>

fun f64_integral :: "f64 \<Rightarrow> bool" where
  "f64_integral (FFin s m e) \<longleftrightarrow> 0 \<le> e \<or> m mod 2 ^ nat (- e) = 0"
| "f64_integral _ \<longleftrightarrow> False"

text \<open>\<open>f64::from_bits\<close> and \<open>f64::to_bits\<close> (the latter for the canonical NaN).\<close>

definition f64_from_bits :: "u64 \<Rightarrow> f64" where
  "f64_from_bits w =
     (let s = bit w 63; ex = unat (drop_bit 52 w AND 0x7FF); fr = unat (take_bit 52 w) in
      if ex = 2047 then (if fr = 0 then FInf s else FNan)
      else if ex = 0 then FFin s fr (-1074)
      else FFin s (fr + 2 ^ 52) (int ex - 1075))"

definition f64_to_bits :: "f64 \<Rightarrow> u64" where
  "f64_to_bits x = (case x of FNan \<Rightarrow> 0x7FF8000000000000
     | FInf s \<Rightarrow> (if s then 0xFFF0000000000000 else 0x7FF0000000000000)
     | FFin s m e \<Rightarrow> of_nat ((if s then 2 ^ 63 else 0) +
          (if m < 2 ^ 52 then m else nat (e + 1075) * 2 ^ 52 + (m - 2 ^ 52))))"

subsection \<open>Arithmetic\<close>

definition f64_signed :: "bool \<Rightarrow> nat \<Rightarrow> int" where
  "f64_signed s m = (if s then - int m else int m)"

fun f64_neg :: "f64 \<Rightarrow> f64" where
  "f64_neg FNan = FNan"
| "f64_neg (FInf s) = FInf (\<not> s)"
| "f64_neg (FFin s m e) = FFin (\<not> s) m e"

fun f64_abs :: "f64 \<Rightarrow> f64" where
  "f64_abs FNan = FNan"
| "f64_abs (FInf s) = FInf False"
| "f64_abs (FFin s m e) = FFin False m e"

fun f64_add :: "f64 \<Rightarrow> f64 \<Rightarrow> f64" where
  "f64_add FNan _ = FNan"
| "f64_add _ FNan = FNan"
| "f64_add (FInf s) (FInf t) = (if s = t then FInf s else FNan)"
| "f64_add (FInf s) (FFin _ _ _) = FInf s"
| "f64_add (FFin _ _ _) (FInf t) = FInf t"
| "f64_add (FFin s m e) (FFin t n f) =
     (let g = min e f;
          v = f64_signed s (m * 2 ^ nat (e - g)) + f64_signed t (n * 2 ^ nat (f - g))
      in if v = 0 then f64_zero (s \<and> t) else f64_round (v < 0) (nat \<bar>v\<bar>) g)"

definition f64_sub :: "f64 \<Rightarrow> f64 \<Rightarrow> f64" where
  "f64_sub x y = f64_add x (f64_neg y)"

fun f64_mul :: "f64 \<Rightarrow> f64 \<Rightarrow> f64" where
  "f64_mul FNan _ = FNan"
| "f64_mul _ FNan = FNan"
| "f64_mul (FInf s) (FInf t) = FInf (s \<noteq> t)"
| "f64_mul (FInf s) (FFin t n _) = (if n = 0 then FNan else FInf (s \<noteq> t))"
| "f64_mul (FFin s m _) (FInf t) = (if m = 0 then FNan else FInf (s \<noteq> t))"
| "f64_mul (FFin s m e) (FFin t n f) = f64_round (s \<noteq> t) (m * n) (e + f)"

text \<open>Division keeps 64 quotient bits and a sticky bit, more than rounding can see.\<close>

fun f64_div :: "f64 \<Rightarrow> f64 \<Rightarrow> f64" where
  "f64_div FNan _ = FNan"
| "f64_div _ FNan = FNan"
| "f64_div (FInf s) (FInf t) = FNan"
| "f64_div (FInf s) (FFin t _ _) = FInf (s \<noteq> t)"
| "f64_div (FFin s _ _) (FInf t) = f64_zero (s \<noteq> t)"
| "f64_div (FFin s m e) (FFin t n f) =
     (if n = 0 then (if m = 0 then FNan else FInf (s \<noteq> t))
      else let k = 64 + floorlog 2 n; q = m * 2 ^ k div n; r = m * 2 ^ k mod n
        in f64_round (s \<noteq> t) (2 * q + (if r = 0 then 0 else 1)) (e - f - int k - 1))"

text \<open>Rust's \<open>%\<close> on floats: the exact remainder of the truncated quotient.\<close>

fun f64_rem :: "f64 \<Rightarrow> f64 \<Rightarrow> f64" where
  "f64_rem FNan _ = FNan"
| "f64_rem _ FNan = FNan"
| "f64_rem (FInf _) _ = FNan"
| "f64_rem (FFin s m e) (FInf _) = FFin s m e"
| "f64_rem (FFin s m e) (FFin t n f) =
     (if n = 0 then FNan
      else let g = min e f
        in f64_round s (m * 2 ^ nat (e - g) mod (n * 2 ^ nat (f - g))) g)"

subsection \<open>Comparisons\<close>

text \<open>The sign of \<open>x - y\<close> for finite values; every comparison with NaN is false.\<close>

definition f64_diff :: "bool \<Rightarrow> nat \<Rightarrow> int \<Rightarrow> bool \<Rightarrow> nat \<Rightarrow> int \<Rightarrow> int" where
  "f64_diff s m e t n f =
     (let g = min e f in f64_signed s (m * 2 ^ nat (e - g)) - f64_signed t (n * 2 ^ nat (f - g)))"

fun f64_lt :: "f64 \<Rightarrow> f64 \<Rightarrow> bool" where
  "f64_lt FNan _ \<longleftrightarrow> False"
| "f64_lt _ FNan \<longleftrightarrow> False"
| "f64_lt (FInf s) (FInf t) \<longleftrightarrow> s \<and> \<not> t"
| "f64_lt (FInf s) (FFin _ _ _) \<longleftrightarrow> s"
| "f64_lt (FFin _ _ _) (FInf t) \<longleftrightarrow> \<not> t"
| "f64_lt (FFin s m e) (FFin t n f) \<longleftrightarrow> f64_diff s m e t n f < 0"

fun f64_eq :: "f64 \<Rightarrow> f64 \<Rightarrow> bool" where
  "f64_eq (FInf s) (FInf t) \<longleftrightarrow> s = t"
| "f64_eq (FFin s m e) (FFin t n f) \<longleftrightarrow> f64_diff s m e t n f = 0"
| "f64_eq _ _ \<longleftrightarrow> False"

definition f64_le :: "f64 \<Rightarrow> f64 \<Rightarrow> bool" where
  "f64_le x y \<longleftrightarrow> f64_lt x y \<or> f64_eq x y"

text \<open>\<open>f64::rem_euclid\<close>.\<close>

definition f64_rem_euclid :: "f64 \<Rightarrow> f64 \<Rightarrow> f64" where
  "f64_rem_euclid x y =
     (let r = f64_rem x y in if f64_lt r (f64_zero False) then f64_add r (f64_abs y) else r)"

text \<open>The bundle that evaluates closed floating-point terms.\<close>

lemmas f64_eval = f64_of_int_def f64_round_def f64_pack_def f64_zero_def compute_floorlog

subsection \<open>Rounding\<close>

text \<open>A dyadic number \<open>m * 2 ^ e\<close> rounds to the same value however it is written.\<close>

lemma floorlog2_less: "n < 2 ^ floorlog 2 n"
  using floorlog_bounds[of n 2] by (cases "n = 0") auto

lemma f64_round_scale: "f64_round s (m * 2 ^ k) e = f64_round s m (e + int k)"
proof (cases "m = 0")
  case True
  then show ?thesis by (simp add: f64_round_def)
next
  case False
  define t where "t = max (e + int k + int (floorlog 2 m) - 53) (-1074)"
  have fl: "floorlog 2 (m * 2 ^ k) = floorlog 2 m + k"
    using False by (simp add: floorlog_power)
  then have t: "max (e + int (floorlog 2 (m * 2 ^ k)) - 53) (-1074) = t"
    by (simp add: t_def algebra_simps)
  have m0: "m * 2 ^ k \<noteq> 0" using False by simp
  consider "t \<le> e" | "e < t" "t \<le> e + int k" | "e + int k < t" by linarith
  then show ?thesis
  proof cases
    case 1
    then have "nat (e + int k - t) = k + nat (e - t)" by linarith
    then show ?thesis
      using 1 m0 False t by (simp add: f64_round_def Let_def t_def power_add mult.assoc)
  next
    case 2
    define j where "j = nat (t - e)"
    have j: "j \<le> k" "0 < j" "nat (e + int k - t) = k - j" using 2 by (auto simp: j_def)
    have q: "m * 2 ^ k = m * 2 ^ (k - j) * 2 ^ j"
      using j by (simp add: mult.assoc flip: power_add)
    have "m * 2 ^ (k - j) < 2 ^ (floorlog 2 m + (k - j))"
      using floorlog2_less[of m] by (simp add: power_add)
    also have "\<dots> \<le> 2 ^ 53"
      using 2 j by (intro power_increasing) (auto simp: t_def j_def max_def split: if_splits)
    finally have "m * 2 ^ (k - j) \<noteq> 2 ^ 53" by simp
    moreover have "m * 2 ^ k div 2 ^ j = m * 2 ^ (k - j)" "m * 2 ^ k mod 2 ^ j = 0"
      by (simp_all add: q)
    ultimately show ?thesis
      using 2 m0 False t j
      by (simp add: f64_round_def Let_def flip: j_def t_def)
  next
    case 3
    define i where "i = nat (t - (e + int k))"
    have i: "nat (t - e) = i + k" "0 < i" using 3 by (auto simp: i_def)
    have "m * 2 ^ k div 2 ^ (i + k) = m div 2 ^ i" by (simp add: power_add)
    moreover have "m * 2 ^ k mod 2 ^ (i + k) = m mod 2 ^ i * 2 ^ k"
      by (simp add: power_add mod_mult_mult2)
    moreover have "(2::nat) ^ (i + k - 1) = 2 ^ (i - 1) * 2 ^ k"
      using i(2) by (simp flip: power_add)
    ultimately show ?thesis
      using 3 m0 False t i
      by (simp add: f64_round_def Let_def flip: i_def t_def)
  qed
qed

lemma f64_round_cong:
  assumes "real m * 2 powi e = real n * 2 powi f"
  shows "f64_round s m e = f64_round s n f"
proof -
  have main: "f64_round s m e = f64_round s n f"
    if "real m * 2 powi e = real n * 2 powi f" "e \<le> f" for m e n f
  proof -
    have "2 powi f = (2::real) powi e * 2 ^ nat (f - e)"
      using that(2) by (simp add: power_int_add[symmetric] flip: power_int_of_nat)
    with that(1) have "real m = real (n * 2 ^ nat (f - e))" by simp
    then have "m = n * 2 ^ nat (f - e)" by (simp only: of_nat_eq_iff)
    then show ?thesis using that(2) by (simp add: f64_round_scale)
  qed
  show ?thesis using main[of m e n f] main[of n f m e] assms by (cases "e \<le> f") auto
qed

lemma f64_round_zero [simp]: "f64_round s 0 e = f64_zero s"
  by (simp add: f64_round_def)

text \<open>A mantissa that fits is not changed by rounding.\<close>

lemma f64_round_exact:
  assumes "m < 2 ^ 53" "-1074 \<le> e" "e \<le> 918"
  shows "\<exists>n f. f64_round s m e = FFin s n f \<and> real n * 2 powi f = real m * 2 powi e"
proof (cases "m = 0")
  case True
  then show ?thesis by (simp add: f64_zero_def)
next
  case False
  define t where "t = max (e + int (floorlog 2 m) - 53) (-1074)"
  have "floorlog 2 m \<le> 53" using assms(1) by (simp add: floorlog_le_iff)
  then have t: "t \<le> e" "t \<le> 971" using assms by (auto simp: t_def)
  have "real (m * 2 ^ nat (e - t)) * 2 powi t = real m * 2 powi e"
    using t by (simp add: power_int_add[symmetric] flip: power_int_of_nat)
  moreover have "f64_round s m e = FFin s (m * 2 ^ nat (e - t)) t"
    using False t by (simp add: f64_round_def Let_def f64_pack_def flip: t_def)
  ultimately show ?thesis by blast
qed

subsection \<open>Integers in floating point\<close>

text \<open>The integers that a double holds exactly (53 significant bits, no overflow).\<close>

definition f64_exact :: "int \<Rightarrow> bool" where
  "f64_exact i \<longleftrightarrow> (\<exists>m k. nat \<bar>i\<bar> = m * 2 ^ k \<and> m < 2 ^ 53 \<and> k \<le> 918)"

lemma f64_exact_small: "\<bar>i\<bar> \<le> 2 ^ 53 \<Longrightarrow> f64_exact i"
proof (cases "\<bar>i\<bar> = 2 ^ 53")
  case True
  then have "nat \<bar>i\<bar> = 1 * 2 ^ 53" by simp
  then show ?thesis unfolding f64_exact_def by (intro exI[of _ 1] exI[of _ 53]) simp
next
  case False
  assume "\<bar>i\<bar> \<le> 2 ^ 53"
  with False have "nat \<bar>i\<bar> < 2 ^ 53" by simp
  then show ?thesis unfolding f64_exact_def by (intro exI[of _ "nat \<bar>i\<bar>"] exI[of _ 0]) simp
qed

lemma f64_exact_nat: "n \<le> 2 ^ 53 \<Longrightarrow> f64_exact (int n)"
proof (rule f64_exact_small)
  assume "n \<le> 2 ^ 53"
  then have "int n \<le> int (2 ^ 53)" by (simp only: of_nat_le_iff)
  then show "\<bar>int n\<bar> \<le> 2 ^ 53" by simp
qed

lemma f64_of_int_rep:
  assumes "f64_exact i"
  shows "\<exists>n f. f64_of_int i = FFin (i < 0) n f \<and> real n * 2 powi f = real_of_int \<bar>i\<bar>"
proof -
  obtain m k where i: "nat \<bar>i\<bar> = m * 2 ^ k" "m < 2 ^ 53" "k \<le> 918"
    using assms by (auto simp: f64_exact_def)
  obtain n f where f: "f64_round (i < 0) m (int k) = FFin (i < 0) n f"
      "real n * 2 powi f = real m * 2 powi int k"
    using f64_round_exact[of m "int k" "i < 0"] i by auto
  have "f64_of_int i = FFin (i < 0) n f"
    using f f64_round_scale[of "i < 0" m k 0] i by (simp add: f64_of_int_def)
  moreover have "real m * 2 powi int k = real (nat \<bar>i\<bar>)" using i by simp
  ultimately show ?thesis using f by auto
qed

lemma f64_signed_scale:
  assumes "g \<le> e"
  shows "real_of_int (f64_signed s (m * 2 ^ nat (e - g))) * 2 powi g
    = (if s then -1 else 1) * (real m * 2 powi e)"
  using assms by (simp add: f64_signed_def power_int_add[symmetric] flip: power_int_of_nat)

lemma f64_sum_real:
  assumes "real n * 2 powi f = real_of_int \<bar>a\<bar>" "real m * 2 powi h = real_of_int \<bar>b\<bar>"
  shows "real_of_int (f64_signed (a < 0) (n * 2 ^ nat (f - min f h))
      + f64_signed (b < 0) (m * 2 ^ nat (h - min f h))) * 2 powi (min f h) = real_of_int (a + b)"
  using assms f64_signed_scale[of "min f h" f "a < 0" n] f64_signed_scale[of "min f h" h "b < 0" m]
  by (simp add: distrib_right)

lemma f64_round_int:
  assumes "real_of_int v * 2 powi g = real_of_int c"
  shows "f64_round (v < 0) (nat \<bar>v\<bar>) g = f64_of_int c" "v = 0 \<longleftrightarrow> c = 0"
proof -
  have p: "(0::real) < 2 powi g" by simp
  have sg: "v < 0 \<longleftrightarrow> c < 0"
    using assms p by (metis mult_less_0_iff of_int_less_0_iff not_less_iff_gr_or_eq)
  have "real (nat \<bar>v\<bar>) * 2 powi g = real (nat \<bar>c\<bar>) * 2 powi 0"
    using arg_cong[OF assms, of abs] p by (simp add: abs_mult)
  from f64_round_cong[OF this] show "f64_round (v < 0) (nat \<bar>v\<bar>) g = f64_of_int c"
    by (simp add: f64_of_int_def sg)
  show "v = 0 \<longleftrightarrow> c = 0" using assms p by auto
qed

lemma f64_of_int_0 [simp]: "f64_of_int 0 = f64_zero False"
  by (simp add: f64_of_int_def)

lemma f64_add_of_int:
  assumes "f64_exact a" "f64_exact b"
  shows "f64_add (f64_of_int a) (f64_of_int b) = f64_of_int (a + b)"
proof -
  obtain n f where a: "f64_of_int a = FFin (a < 0) n f" "real n * 2 powi f = real_of_int \<bar>a\<bar>"
    using f64_of_int_rep[OF assms(1)] by blast
  obtain m h where b: "f64_of_int b = FFin (b < 0) m h" "real m * 2 powi h = real_of_int \<bar>b\<bar>"
    using f64_of_int_rep[OF assms(2)] by blast
  note sum = f64_round_int[OF f64_sum_real[OF a(2) b(2)]]
  show ?thesis
  proof (cases "a + b = 0")
    case True
    then have "\<not> (a < 0 \<and> b < 0)" by linarith
    then have neg: "(a < 0 \<and> b < 0) = False" by blast
    have "f64_add (f64_of_int a) (f64_of_int b) = f64_zero (a < 0 \<and> b < 0)"
      using True sum by (simp add: a b Let_def)
    also have "\<dots> = f64_of_int (a + b)" by (simp only: neg True f64_of_int_0)
    finally show ?thesis .
  next
    case False
    then show ?thesis using sum by (simp only: a b f64_add.simps Let_def if_False)
  qed
qed

lemma f64_mul_of_int:
  assumes "f64_exact a" "f64_exact b" "a * b = 0 \<longrightarrow> 0 \<le> a \<and> 0 \<le> b"
  shows "f64_mul (f64_of_int a) (f64_of_int b) = f64_of_int (a * b)"
proof -
  obtain n f where a: "f64_of_int a = FFin (a < 0) n f" "real n * 2 powi f = real_of_int \<bar>a\<bar>"
    using f64_of_int_rep[OF assms(1)] by blast
  obtain m h where b: "f64_of_int b = FFin (b < 0) m h" "real m * 2 powi h = real_of_int \<bar>b\<bar>"
    using f64_of_int_rep[OF assms(2)] by blast
  have "real (n * m) * 2 powi (f + h) = real (nat \<bar>a * b\<bar>) * 2 powi 0"
    using arg_cong2[OF a(2) b(2), of "(*)"] by (simp add: abs_mult power_int_add algebra_simps)
  from f64_round_cong[OF this]
  have "f64_round s (n * m) (f + h) = f64_round s (nat \<bar>a * b\<bar>) 0" for s .
  moreover have "((a < 0) \<noteq> (b < 0)) \<longleftrightarrow> a * b < 0"
    using assms(3) by (auto simp: mult_less_0_iff not_less zero_less_mult_iff)
  ultimately show ?thesis by (simp only: a(1) b(1) f64_mul.simps f64_of_int_def[of "a * b"])
qed

lemma f64_diff_of_int:
  assumes "real n * 2 powi f = real_of_int \<bar>a\<bar>" "real m * 2 powi h = real_of_int \<bar>b\<bar>"
  shows "sgn (f64_diff (a < 0) n f (b < 0) m h) = sgn (a - b)"
proof -
  have neg: "f64_signed t k = - f64_signed (\<not> t) k" for t k by (simp add: f64_signed_def)
  have "real_of_int (f64_diff (a < 0) n f (b < 0) m h) * 2 powi (min f h) = real_of_int (a - b)"
    using assms f64_signed_scale[of "min f h" f "a < 0" n] f64_signed_scale[of "min f h" h "b < 0" m]
    by (simp add: f64_diff_def Let_def left_diff_distrib)
  then have "sgn (real_of_int (f64_diff (a < 0) n f (b < 0) m h)) = sgn (real_of_int (a - b))"
    by (metis sgn_mult mult.right_neutral sgn_pos zero_less_power_int zero_less_numeral)
  then show ?thesis by (simp add: sgn_if split: if_splits)
qed

lemma f64_lt_of_int:
  assumes "f64_exact a" "f64_exact b"
  shows "f64_lt (f64_of_int a) (f64_of_int b) \<longleftrightarrow> a < b"
  using f64_of_int_rep[OF assms(1)] f64_of_int_rep[OF assms(2)] f64_diff_of_int[of _ _ a _ _ b]
  by (force simp: sgn_if split: if_splits)

lemma f64_eq_of_int:
  assumes "f64_exact a" "f64_exact b"
  shows "f64_eq (f64_of_int a) (f64_of_int b) \<longleftrightarrow> a = b"
  using f64_of_int_rep[OF assms(1)] f64_of_int_rep[OF assms(2)] f64_diff_of_int[of _ _ a _ _ b]
  by (force simp: sgn_if split: if_splits)

lemma f64_trunc_of_int:
  assumes "f64_exact a"
  shows "f64_trunc (f64_of_int a) = a" "f64_integral (f64_of_int a)"
proof -
  obtain n f where a: "f64_of_int a = FFin (a < 0) n f" "real n * 2 powi f = real_of_int \<bar>a\<bar>"
    using f64_of_int_rep[OF assms] by blast
  have "int (if 0 \<le> f then n * 2 ^ nat f else n div 2 ^ nat (- f)) = \<bar>a\<bar> \<and> f64_integral (f64_of_int a)"
  proof (cases "0 \<le> f")
    case True
    then have "2 powi f = (2::real) ^ nat f" by (simp flip: power_int_of_nat)
    with a(2) have "real (n * 2 ^ nat f) = real (nat \<bar>a\<bar>)" by simp
    then have "n * 2 ^ nat f = nat \<bar>a\<bar>" by (simp only: of_nat_eq_iff)
    with True a show ?thesis by simp
  next
    case False
    then have "2 powi f = inverse ((2::real) ^ nat (- f))"
      by (simp add: power_int_def power_inverse inverse_eq_divide power_one_over)
    with a(2) have "real n = real (nat \<bar>a\<bar> * 2 ^ nat (- f))" by (simp add: field_simps)
    then have "n = nat \<bar>a\<bar> * 2 ^ nat (- f)" by (simp only: of_nat_eq_iff)
    with False a show ?thesis by simp
  qed
  then show "f64_trunc (f64_of_int a) = a" "f64_integral (f64_of_int a)" by (auto simp: a)
qed

lemma f64_sat_of_int:
  "f64_exact a \<Longrightarrow> f64_sat lo hi (f64_of_int a) = max lo (min hi a)"
  using f64_of_int_rep[of a] f64_trunc_of_int(1)[of a] by (auto simp: f64_sat_def)

lemma f64_of_int_finite: "f64_exact a \<Longrightarrow> is_finite (f64_of_int a)"
  using f64_of_int_rep[of a] by auto

text \<open>Rounding always gives a canonical value.\<close>

lemma floorlog2_bounds:
  "m \<noteq> 0 \<Longrightarrow> 2 ^ (floorlog 2 m - 1) \<le> m \<and> m < 2 ^ floorlog 2 m"
  using floorlog_bounds[of m 2] by simp

lemma f64_wf_pack:
  "m < 2 ^ 53 \<Longrightarrow> -1074 \<le> e \<Longrightarrow> (m < 2 ^ 52 \<Longrightarrow> e = -1074) \<Longrightarrow> f64_wf (f64_pack s m e)"
  by (auto simp: f64_wf_def f64_pack_def)

lemma f64_round_wf: "f64_wf (f64_round s m e)"
proof (cases "m = 0")
  case True
  then show ?thesis by (simp add: f64_wf_def f64_zero_def)
next
  case False
  define L t where "L = floorlog 2 m" and "t = max (e + int L - 53) (-1074)"
  have L: "2 ^ (L - 1) \<le> m" "m < 2 ^ L" using floorlog2_bounds[OF False] by (auto simp: L_def)
  have L0: "L \<noteq> 0" using False unfolding L_def by (simp add: floorlog_eq_zero_iff)
  show ?thesis
  proof (cases "t \<le> e")
    case True
    define k where "k = nat (e - t)"
    have "m * 2 ^ k < 2 ^ (L + k)" using L by (simp add: power_add)
    also have "\<dots> \<le> 2 ^ 53" using True by (intro power_increasing) (auto simp: k_def t_def)
    finally have u: "m * 2 ^ k < 2 ^ 53" .
    have l: "2 ^ 52 \<le> m * 2 ^ k" if "t \<noteq> -1074"
    proof -
      have "L - 1 + k = 52" using that True L0 by (auto simp: t_def k_def)
      then have "2 ^ (L - 1) * 2 ^ k = (2::nat) ^ 52" by (simp flip: power_add)
      then show ?thesis using L(1) by (metis mult_le_mono1)
    qed
    have "f64_round s m e = f64_pack s (m * 2 ^ k) t"
      using False True by (simp add: f64_round_def Let_def k_def flip: L_def t_def)
    moreover have "f64_wf (f64_pack s (m * 2 ^ k) t)"
      using u l by (intro f64_wf_pack) (auto simp: t_def)
    ultimately show ?thesis by simp
  next
    case nt: False
    define k where "k = nat (t - e)"
    define q where "q = m div 2 ^ k"
    have "L \<le> 53 + k" using nt by (auto simp: t_def k_def)
    then have "m < 2 ^ (53 + k)" using L(2) power_increasing[of L "53 + k" "2::nat"] by linarith
    then have u: "q < 2 ^ 53" by (simp add: q_def div_less_iff_less_mult power_add)
    have l: "2 ^ 52 \<le> q" if "t \<noteq> -1074"
    proof -
      have "L - 1 = 52 + k" using that nt L0 by (auto simp: t_def k_def)
      then have "2 ^ 52 * 2 ^ k \<le> m" using L(1) by (simp add: power_add)
      then show ?thesis by (simp add: q_def less_eq_div_iff_mult_less_eq)
    qed
    define q' where "q' = (if 2 ^ (k - 1) < m mod 2 ^ k \<or> (m mod 2 ^ k = 2 ^ (k - 1) \<and> odd q) then q + 1 else q)"
    have "f64_round s m e = (if q' = 2 ^ 53 then f64_pack s (2 ^ 52) (t + 1) else f64_pack s q' t)"
      using False nt by (simp only: f64_round_def Let_def if_False flip: L_def t_def k_def q_def q'_def)
    moreover have "q' \<le> 2 ^ 53" "q \<le> q'" using u by (auto simp: q'_def)
    moreover have "f64_wf (f64_pack s (2 ^ 52) (t + 1))" by (intro f64_wf_pack) (auto simp: t_def)
    moreover have "f64_wf (f64_pack s q' t)" if "q' \<noteq> 2 ^ 53"
      using that calculation(2,3) l by (intro f64_wf_pack) (auto simp: t_def)
    ultimately show ?thesis by (auto split: if_splits)
  qed
qed

lemma f64_of_int_wf: "f64_wf (f64_of_int a)"
  by (simp add: f64_of_int_def f64_round_wf)

lemma f64_round_canonical:
  assumes "f64_wf (FFin s m e)"
  shows "f64_round s m e = FFin s m e"
proof (cases "m = 0")
  case True
  then show ?thesis using assms by (simp add: f64_wf_def f64_zero_def)
next
  case False
  have w: "m < 2 ^ 53" "-1074 \<le> e" "e \<le> 971" "m < 2 ^ 52 \<longrightarrow> e = -1074"
    using assms by (auto simp: f64_wf_def)
  have "max (e + int (floorlog 2 m) - 53) (-1074) = e"
  proof (cases "m < 2 ^ 52")
    case True
    then have "floorlog 2 m \<le> 52" by (simp add: floorlog_le_iff)
    then show ?thesis using w True by simp
  next
    case nm: False
    have "floorlog 2 m \<le> 53" using w by (simp add: floorlog_le_iff)
    moreover have "53 \<le> floorlog 2 m" using nm floorlog_geI[of 2 53 m] by simp
    ultimately show ?thesis using w by simp
  qed
  then show ?thesis using False w by (simp add: f64_round_def Let_def f64_pack_def)
qed

lemma f64_mul_dyadic:
  assumes "real m * 2 powi e * (real n * 2 powi f) = real k * 2 powi g"
  shows "f64_mul (FFin s m e) (FFin t n f) = f64_round (s \<noteq> t) k g"
  using f64_round_cong[of "m * n" "e + f" k g "s \<noteq> t"] assms
  by (simp add: power_int_add algebra_simps)

end
