(* ===== verification/Model.thy ===== *)
theory Model
  imports F64
begin

text \<open>
  \<open>src/worktime/model.rs\<close>: the data that the stages of the \<open>p.js\<close> pipeline hand to
  each other. The 86 operations of the virtual machine with their operand shapes
  and control flow, the tags and tables recovered from the script
  (\<open>build_model\<close>), the decoded words and string pool (\<open>decoded\<close>), the instructions
  of the disassembly, references into the pool and the extracted configuration.
\<close>

abbreviation HANDLER_COUNT :: nat where
  "HANDLER_COUNT \<equiv> 86"

abbreviation MAX_ARGS :: nat where
  "MAX_ARGS \<equiv> 4"

subsection \<open>Operations\<close>

datatype (plugins only: size) op =
    Op_GeRO | Op_LtRR | Op_Jmp | Op_Jt | Op_Call3 | Op_NeOR | Op_Closure | Op_SneRO | Op_AndRO
    | Op_New | Op_AddOR | Op_SetFinally | Op_XorOR | Op_SeqOR | Op_GtRO | Op_PushTry | Op_Halt
    | Op_Delete | Op_LeRO | Op_ModRR | Op_BitNot | Op_RetUndef | Op_AndRR | Op_NewArr
    | Op_SetProp | Op_EqOO | Op_SubOO | Op_Call1 | Op_GetExc | Op_DivRR | Op_RegExp | Op_AddRR
    | Op_MulRO | Op_Mov | Op_Ret | Op_ShlRO | Op_CallM | Op_GeRR | Op_LtRO | Op_GtRR
    | Op_SetCatch | Op_TypeOf | Op_SetVar | Op_SeqRO | Op_SubRR | Op_NewArrN | Op_NewObj
    | Op_AddRO | Op_InRR | Op_ToNum | Op_Call2 | Op_SetVarSelf | Op_Not | Op_EqOR | Op_ShlRR
    | Op_SeqRR | Op_SubRO | Op_AssignVar | Op_ModRO | Op_InstanceOfRR | Op_This | Op_PopTry
    | Op_Call0 | Op_UshrRO | Op_SneOR | Op_Global | Op_GetProp | Op_OrOO | Op_SneRR | Op_XorRR
    | Op_DivOR | Op_RegenRt | Op_SetVarExc | Op_GetVar | Op_PromiseCtor | Op_AddOO | Op_Jf
    | Op_DivRO | Op_MulRR | Op_OrRR | Op_OrOR | Op_InOR | Op_EndTry | Op_Throw | Op_ClearVar
    | Op_ClearExc

datatype slot = Slot_Operand | Slot_Register

record shape =
  sh_slots :: "slot list"
  sh_dest :: bool

datatype flow = Flow_Next | Flow_Jump | Flow_BranchIfTrue | Flow_BranchIfFalse | Flow_Exit

definition mk_shape :: "slot list \<Rightarrow> bool \<Rightarrow> shape" where
  "mk_shape slots dest = \<lparr>sh_slots = slots, sh_dest = dest\<rparr>"

abbreviation s_none :: "slot list" where "s_none \<equiv> []"
abbreviation s_o :: "slot list" where "s_o \<equiv> [Slot_Operand]"
abbreviation s_oo :: "slot list" where "s_oo \<equiv> [Slot_Operand, Slot_Operand]"
abbreviation s_ooo :: "slot list" where "s_ooo \<equiv> [Slot_Operand, Slot_Operand, Slot_Operand]"
abbreviation s_oooo :: "slot list" where
  "s_oooo \<equiv> [Slot_Operand, Slot_Operand, Slot_Operand, Slot_Operand]"
abbreviation s_ro :: "slot list" where "s_ro \<equiv> [Slot_Register, Slot_Operand]"
abbreviation s_or :: "slot list" where "s_or \<equiv> [Slot_Operand, Slot_Register]"
abbreviation s_rr :: "slot list" where "s_rr \<equiv> [Slot_Register, Slot_Register]"

text \<open>The discriminants of the enum, and the separately written table \<open>Op::ALL\<close>.\<close>

primrec op_index :: "op \<Rightarrow> nat" where
  "op_index Op_GeRO = 0"
| "op_index Op_LtRR = 1"
| "op_index Op_Jmp = 2"
| "op_index Op_Jt = 3"
| "op_index Op_Call3 = 4"
| "op_index Op_NeOR = 5"
| "op_index Op_Closure = 6"
| "op_index Op_SneRO = 7"
| "op_index Op_AndRO = 8"
| "op_index Op_New = 9"
| "op_index Op_AddOR = 10"
| "op_index Op_SetFinally = 11"
| "op_index Op_XorOR = 12"
| "op_index Op_SeqOR = 13"
| "op_index Op_GtRO = 14"
| "op_index Op_PushTry = 15"
| "op_index Op_Halt = 16"
| "op_index Op_Delete = 17"
| "op_index Op_LeRO = 18"
| "op_index Op_ModRR = 19"
| "op_index Op_BitNot = 20"
| "op_index Op_RetUndef = 21"
| "op_index Op_AndRR = 22"
| "op_index Op_NewArr = 23"
| "op_index Op_SetProp = 24"
| "op_index Op_EqOO = 25"
| "op_index Op_SubOO = 26"
| "op_index Op_Call1 = 27"
| "op_index Op_GetExc = 28"
| "op_index Op_DivRR = 29"
| "op_index Op_RegExp = 30"
| "op_index Op_AddRR = 31"
| "op_index Op_MulRO = 32"
| "op_index Op_Mov = 33"
| "op_index Op_Ret = 34"
| "op_index Op_ShlRO = 35"
| "op_index Op_CallM = 36"
| "op_index Op_GeRR = 37"
| "op_index Op_LtRO = 38"
| "op_index Op_GtRR = 39"
| "op_index Op_SetCatch = 40"
| "op_index Op_TypeOf = 41"
| "op_index Op_SetVar = 42"
| "op_index Op_SeqRO = 43"
| "op_index Op_SubRR = 44"
| "op_index Op_NewArrN = 45"
| "op_index Op_NewObj = 46"
| "op_index Op_AddRO = 47"
| "op_index Op_InRR = 48"
| "op_index Op_ToNum = 49"
| "op_index Op_Call2 = 50"
| "op_index Op_SetVarSelf = 51"
| "op_index Op_Not = 52"
| "op_index Op_EqOR = 53"
| "op_index Op_ShlRR = 54"
| "op_index Op_SeqRR = 55"
| "op_index Op_SubRO = 56"
| "op_index Op_AssignVar = 57"
| "op_index Op_ModRO = 58"
| "op_index Op_InstanceOfRR = 59"
| "op_index Op_This = 60"
| "op_index Op_PopTry = 61"
| "op_index Op_Call0 = 62"
| "op_index Op_UshrRO = 63"
| "op_index Op_SneOR = 64"
| "op_index Op_Global = 65"
| "op_index Op_GetProp = 66"
| "op_index Op_OrOO = 67"
| "op_index Op_SneRR = 68"
| "op_index Op_XorRR = 69"
| "op_index Op_DivOR = 70"
| "op_index Op_RegenRt = 71"
| "op_index Op_SetVarExc = 72"
| "op_index Op_GetVar = 73"
| "op_index Op_PromiseCtor = 74"
| "op_index Op_AddOO = 75"
| "op_index Op_Jf = 76"
| "op_index Op_DivRO = 77"
| "op_index Op_MulRR = 78"
| "op_index Op_OrRR = 79"
| "op_index Op_OrOR = 80"
| "op_index Op_InOR = 81"
| "op_index Op_EndTry = 82"
| "op_index Op_Throw = 83"
| "op_index Op_ClearVar = 84"
| "op_index Op_ClearExc = 85"

definition op_all :: "op list" where
  "op_all =
    [Op_GeRO, Op_LtRR, Op_Jmp, Op_Jt, Op_Call3, Op_NeOR, Op_Closure, Op_SneRO, Op_AndRO, Op_New
     , Op_AddOR, Op_SetFinally, Op_XorOR, Op_SeqOR, Op_GtRO, Op_PushTry, Op_Halt, Op_Delete
     , Op_LeRO, Op_ModRR, Op_BitNot, Op_RetUndef, Op_AndRR, Op_NewArr, Op_SetProp, Op_EqOO
     , Op_SubOO, Op_Call1, Op_GetExc, Op_DivRR, Op_RegExp, Op_AddRR, Op_MulRO, Op_Mov, Op_Ret
     , Op_ShlRO, Op_CallM, Op_GeRR, Op_LtRO, Op_GtRR, Op_SetCatch, Op_TypeOf, Op_SetVar
     , Op_SeqRO, Op_SubRR, Op_NewArrN, Op_NewObj, Op_AddRO, Op_InRR, Op_ToNum, Op_Call2
     , Op_SetVarSelf, Op_Not, Op_EqOR, Op_ShlRR, Op_SeqRR, Op_SubRO, Op_AssignVar, Op_ModRO
     , Op_InstanceOfRR, Op_This, Op_PopTry, Op_Call0, Op_UshrRO, Op_SneOR, Op_Global
     , Op_GetProp, Op_OrOO, Op_SneRR, Op_XorRR, Op_DivOR, Op_RegenRt, Op_SetVarExc, Op_GetVar
     , Op_PromiseCtor, Op_AddOO, Op_Jf, Op_DivRO, Op_MulRR, Op_OrRR, Op_OrOR, Op_InOR
     , Op_EndTry, Op_Throw, Op_ClearVar, Op_ClearExc]"

text \<open>\<open>Op::shape\<close>, one equation per operation of the match.\<close>

primrec op_shape :: "op \<Rightarrow> shape" where
  "op_shape Op_GeRO = mk_shape s_ro True"
| "op_shape Op_LtRR = mk_shape s_rr True"
| "op_shape Op_Jmp = mk_shape s_o False"
| "op_shape Op_Jt = mk_shape s_oo False"
| "op_shape Op_Call3 = mk_shape s_oooo True"
| "op_shape Op_NeOR = mk_shape s_or True"
| "op_shape Op_Closure = mk_shape s_ooo True"
| "op_shape Op_SneRO = mk_shape s_ro True"
| "op_shape Op_AndRO = mk_shape s_ro True"
| "op_shape Op_New = mk_shape s_oo True"
| "op_shape Op_AddOR = mk_shape s_or True"
| "op_shape Op_SetFinally = mk_shape s_o False"
| "op_shape Op_XorOR = mk_shape s_or True"
| "op_shape Op_SeqOR = mk_shape s_or True"
| "op_shape Op_GtRO = mk_shape s_ro True"
| "op_shape Op_PushTry = mk_shape s_o False"
| "op_shape Op_Halt = mk_shape s_none False"
| "op_shape Op_Delete = mk_shape s_oo True"
| "op_shape Op_LeRO = mk_shape s_ro True"
| "op_shape Op_ModRR = mk_shape s_rr True"
| "op_shape Op_BitNot = mk_shape s_o True"
| "op_shape Op_RetUndef = mk_shape s_none False"
| "op_shape Op_AndRR = mk_shape s_rr True"
| "op_shape Op_NewArr = mk_shape s_none True"
| "op_shape Op_SetProp = mk_shape s_ooo False"
| "op_shape Op_EqOO = mk_shape s_oo True"
| "op_shape Op_SubOO = mk_shape s_oo True"
| "op_shape Op_Call1 = mk_shape s_oo True"
| "op_shape Op_GetExc = mk_shape s_none True"
| "op_shape Op_DivRR = mk_shape s_rr True"
| "op_shape Op_RegExp = mk_shape s_oo True"
| "op_shape Op_AddRR = mk_shape s_rr True"
| "op_shape Op_MulRO = mk_shape s_ro True"
| "op_shape Op_Mov = mk_shape s_o True"
| "op_shape Op_Ret = mk_shape s_o False"
| "op_shape Op_ShlRO = mk_shape s_ro True"
| "op_shape Op_CallM = mk_shape s_ooo False"
| "op_shape Op_GeRR = mk_shape s_rr True"
| "op_shape Op_LtRO = mk_shape s_ro True"
| "op_shape Op_GtRR = mk_shape s_rr True"
| "op_shape Op_SetCatch = mk_shape s_o False"
| "op_shape Op_TypeOf = mk_shape s_o True"
| "op_shape Op_SetVar = mk_shape s_oo False"
| "op_shape Op_SeqRO = mk_shape s_ro True"
| "op_shape Op_SubRR = mk_shape s_rr True"
| "op_shape Op_NewArrN = mk_shape s_o True"
| "op_shape Op_NewObj = mk_shape s_none True"
| "op_shape Op_AddRO = mk_shape s_ro True"
| "op_shape Op_InRR = mk_shape s_rr True"
| "op_shape Op_ToNum = mk_shape s_o True"
| "op_shape Op_Call2 = mk_shape s_ooo True"
| "op_shape Op_SetVarSelf = mk_shape s_o False"
| "op_shape Op_Not = mk_shape s_o True"
| "op_shape Op_EqOR = mk_shape s_or True"
| "op_shape Op_ShlRR = mk_shape s_rr True"
| "op_shape Op_SeqRR = mk_shape s_rr True"
| "op_shape Op_SubRO = mk_shape s_ro True"
| "op_shape Op_AssignVar = mk_shape s_oo False"
| "op_shape Op_ModRO = mk_shape s_ro True"
| "op_shape Op_InstanceOfRR = mk_shape s_rr True"
| "op_shape Op_This = mk_shape s_none True"
| "op_shape Op_PopTry = mk_shape s_o False"
| "op_shape Op_Call0 = mk_shape s_o True"
| "op_shape Op_UshrRO = mk_shape s_ro True"
| "op_shape Op_SneOR = mk_shape s_or True"
| "op_shape Op_Global = mk_shape s_o True"
| "op_shape Op_GetProp = mk_shape s_oo True"
| "op_shape Op_OrOO = mk_shape s_oo True"
| "op_shape Op_SneRR = mk_shape s_rr True"
| "op_shape Op_XorRR = mk_shape s_rr True"
| "op_shape Op_DivOR = mk_shape s_or True"
| "op_shape Op_RegenRt = mk_shape s_none True"
| "op_shape Op_SetVarExc = mk_shape s_o False"
| "op_shape Op_GetVar = mk_shape s_o True"
| "op_shape Op_PromiseCtor = mk_shape s_none True"
| "op_shape Op_AddOO = mk_shape s_oo True"
| "op_shape Op_Jf = mk_shape s_oo False"
| "op_shape Op_DivRO = mk_shape s_ro True"
| "op_shape Op_MulRR = mk_shape s_rr True"
| "op_shape Op_OrRR = mk_shape s_rr True"
| "op_shape Op_OrOR = mk_shape s_or True"
| "op_shape Op_InOR = mk_shape s_or True"
| "op_shape Op_EndTry = mk_shape s_o False"
| "op_shape Op_Throw = mk_shape s_o False"
| "op_shape Op_ClearVar = mk_shape s_o False"
| "op_shape Op_ClearExc = mk_shape s_none False"

definition op_flow :: "op \<Rightarrow> flow" where
  "op_flow opn =
     (case opn of
        Op_Jmp \<Rightarrow> Flow_Jump
      | Op_Jt \<Rightarrow> Flow_BranchIfTrue
      | Op_Jf \<Rightarrow> Flow_BranchIfFalse
      | Op_Ret \<Rightarrow> Flow_Exit
      | Op_RetUndef \<Rightarrow> Flow_Exit
      | Op_Throw \<Rightarrow> Flow_Exit
      | Op_Halt \<Rightarrow> Flow_Exit
      | _ \<Rightarrow> Flow_Next)"

subsection \<open>The recovered script\<close>

record tags =
  tag_string :: i32
  tag_double :: i32
  tag_true :: i32
  tag_false :: i32
  tag_null :: i32
  tag_undefined :: i32

record build_model =
  bm_blob :: str
  bm_charset :: "u16 list"
  bm_radix :: nat
  bm_multiplier :: i32
  bm_tags :: tags
  bm_ops :: "op list"
  bm_entry_pc :: nat
  bm_reg_shift :: nat

record decoded =
  dc_code :: "i32 list"
  dc_pool :: "u16 list"

subsection \<open>Pool references and operands\<close>

record pool_ref =
  pr_off :: nat
  pr_len :: nat

definition units :: "u16 list \<Rightarrow> pool_ref \<Rightarrow> u16 list" where
  "units pool r =
     (case get_range pool (pr_off r) (pr_off r + pr_len r) of Some u \<Rightarrow> u | None \<Rightarrow> [])"

datatype operand =
    Opd_Int i32
  | Opd_Str pool_ref
  | Opd_Dbl f64
  | Opd_True
  | Opd_False
  | Opd_Null
  | Opd_Undef
  | Opd_Reg nat

subsection \<open>Instructions\<close>

record instr =
  in_pc :: nat
  in_op :: op
  in_argc :: nat
  in_args :: "operand list"
  in_dest :: "nat option"

text \<open>
  The field \<open>args\<close> is an array of four operands, filled with \<open>Undef\<close>; the sources
  read it at constant indices below four. \<open>operands_of\<close> is the method \<open>args()\<close>,
  the operands the instruction really has.
\<close>

definition in_arg :: "instr \<Rightarrow> nat \<Rightarrow> operand" where
  "in_arg i k = (if k < length (in_args i) then in_args i ! k else Opd_Undef)"

definition operands_of :: "instr \<Rightarrow> operand list" where
  "operands_of i = take (in_argc i) (in_args i)"

fun operand_pc :: "operand \<Rightarrow> nat option" where
  "operand_pc (Opd_Int t) = (if 0 \<le> sint t then Some (idx t) else None)"
| "operand_pc _ = None"

definition target :: "instr \<Rightarrow> nat option" where
  "target i =
     (case op_flow (in_op i) of
        Flow_Jump \<Rightarrow> operand_pc (in_arg i 0)
      | Flow_BranchIfTrue \<Rightarrow> operand_pc (in_arg i 1)
      | Flow_BranchIfFalse \<Rightarrow> operand_pc (in_arg i 1)
      | Flow_Next \<Rightarrow> None
      | Flow_Exit \<Rightarrow> None)"

definition instr_index :: "instr list \<Rightarrow> nat \<Rightarrow> nat option" where
  "instr_index instrs pc = bsearch in_pc instrs pc"

definition eq_ascii :: "u16 list \<Rightarrow> u8 list \<Rightarrow> bool" where
  "eq_ascii us ascii \<longleftrightarrow>
     length us = length ascii \<and> list_all (\<lambda>(u, b). u = ucast b) (zip us ascii)"

definition units_to_string :: "u16 list \<Rightarrow> str" where
  "units_to_string us = from_utf16_lossy us"

subsection \<open>The extracted configuration\<close>

record pow_keys =
  pk_difficulty :: pool_ref
  pk_sub_count :: pool_ref
  pk_seed_suffix :: pool_ref
  pk_seed_phrase :: pool_ref

record pow_config =
  pc_difficulty :: f64
  pc_sub_count :: nat
  pc_seed_suffix :: str
  pc_seed_phrase :: str
  pc_keys :: pow_keys

subsection \<open>Operations by number\<close>

text \<open>The table \<open>Op::ALL\<close> lists every operation at its discriminant.\<close>

lemma op_all_index: "op_all ! op_index x = x" "op_index x < length op_all"
  by (cases x; simp add: op_all_def)+

lemma op_index_all: "i < length op_all \<Longrightarrow> op_index (op_all ! i) = i"
proof -
  have "map op_index op_all = [0..<HANDLER_COUNT]" unfolding op_all_def list.map op_index.simps by code_simp
  then show "i < length op_all \<Longrightarrow> op_index (op_all ! i) = i"
    by (metis add_0 length_map length_upt minus_nat.diff_0 nth_map nth_upt)
qed

lemma op_index_inj: "op_index x = op_index y \<longleftrightarrow> x = y"
  by (metis op_all_index(1))

instantiation op :: equal
begin
definition equal_op :: "op \<Rightarrow> op \<Rightarrow> bool" where "equal_op x y \<longleftrightarrow> op_index x = op_index y"
instance by standard (simp add: equal_op_def op_index_inj)
end

instantiation op :: linorder
begin
definition less_eq_op :: "op \<Rightarrow> op \<Rightarrow> bool" where "less_eq_op x y \<longleftrightarrow> op_index x \<le> op_index y"
definition less_op :: "op \<Rightarrow> op \<Rightarrow> bool" where "less_op x y \<longleftrightarrow> op_index x < op_index y"
instance by standard (auto simp: less_eq_op_def less_op_def op_index_inj)
end

end
