(* ===== verification/Decoder.thy ===== *)
theory Decoder
  imports Model
begin

text \<open>
  \<open>src/worktime/decoder.rs\<close>: the script carries its program as one string of
  characters of a charset. Characters below the radix end a number, the others
  continue it; the arithmetic runs on doubles, as the script's does, and every
  number is reduced with \<open>to_int32\<close>. The words end in a key word that says where
  the string pool lies; \<open>lift_pool\<close> cuts it out and undoes the scrambling of the
  low six bits of each unit.
\<close>

datatype decode_error =
    DecodeRadix nat nat
  | DecodeTruncated nat nat
  | DecodeTooShort nat
  | DecodePoolOffset i32 i32 i32 nat
  | DecodeCountIndex nat nat nat nat
  | DecodePoolCount int nat nat nat
  | DecodePoolTag i32 i32 nat
  | DecodePoolLen i32 nat int

abbreviation ASCII_LEN :: nat where "ASCII_LEN \<equiv> 128"
abbreviation CONTINUE :: u32 where "CONTINUE \<equiv> 0x80000000"
abbreviation VALUE_MASK :: u32 where "VALUE_MASK \<equiv> NOT CONTINUE"
abbreviation HIGH_MASK :: i32 where "HIGH_MASK \<equiv> 0xFFFFFFC0"
abbreviation LOW_MASK :: i32 where "LOW_MASK \<equiv> 63"
abbreviation MIN_INTS :: nat where "MIN_INTS \<equiv> 3"

subsection \<open>ToInt32\<close>

definition TWO_32 :: f64 where "TWO_32 = f64_of_int (2 ^ 32)"
definition TWO_63 :: f64 where "TWO_63 = f64_of_int (2 ^ 63)"

definition to_int32 :: "f64 \<Rightarrow> i32" where
  "to_int32 x =
     (if f64_lt (f64_abs x) TWO_63
      then word_of_int (f64_sat (- (2 ^ 63)) (2 ^ 63 - 1) x)
      else if \<not> is_finite x then 0
      else word_of_int (f64_sat 0 (2 ^ 32 - 1) (f64_rem_euclid x TWO_32)))"

subsection \<open>The character tables\<close>

text \<open>
  The entry of the character at one index of the charset, the two tables that
  hold the entries (an array for ASCII, an association list for the rest, a later
  duplicate overwriting an earlier one), and the lookup of a unit.
\<close>

definition charset_entry :: "nat \<Rightarrow> nat \<Rightarrow> u32" where
  "charset_entry radix p = (if p < radix then of_nat p else CONTINUE OR of_nat (p mod radix + radix))"

fun set_wide :: "(u16 \<times> u32) list \<Rightarrow> u16 \<Rightarrow> u32 \<Rightarrow> (u16 \<times> u32) list" where
  "set_wide [] unit entry = [(unit, entry)]"
| "set_wide ((u, e) # ws) unit entry =
     (if u = unit then (u, entry) # ws else (u, e) # set_wide ws unit entry)"

definition table_step ::
    "nat \<Rightarrow> (u32 list \<times> (u16 \<times> u32) list) \<Rightarrow> nat \<times> u16 \<Rightarrow> u32 list \<times> (u16 \<times> u32) list" where
  "table_step radix t iu =
     (let (ascii, wide) = t; (index, unit) = iu; entry = charset_entry radix index in
      if unat unit < ASCII_LEN then (ascii[unat unit := entry], wide)
      else (ascii, set_wide wide unit entry))"

definition decode_tables :: "nat \<Rightarrow> u16 list \<Rightarrow> u32 list \<times> (u16 \<times> u32) list" where
  "decode_tables radix charset =
     foldl (table_step radix) (replicate ASCII_LEN 0, []) (enumerate 0 charset)"

fun wide_entry :: "(u16 \<times> u32) list \<Rightarrow> u16 \<Rightarrow> u32" where
  "wide_entry [] unit = 0"
| "wide_entry ((u, entry) # ws) unit = (if u = unit then entry else wide_entry ws unit)"

definition unit_entry :: "u32 list \<times> (u16 \<times> u32) list \<Rightarrow> u16 \<Rightarrow> u32" where
  "unit_entry t unit =
     (if unat unit < ASCII_LEN then fst t ! unat unit else wide_entry (snd t) unit)"

subsection \<open>The words of the blob\<close>

text \<open>The loop over the units: the open number \<open>n\<close>, its weight \<open>w\<close>, and whether it is open.\<close>

fun blob_loop ::
    "(u16 \<Rightarrow> u32) \<Rightarrow> f64 \<Rightarrow> u16 list \<Rightarrow> f64 \<Rightarrow> f64 \<Rightarrow> bool \<Rightarrow> i32 list \<Rightarrow> bool \<times> i32 list" where
  "blob_loop entry_of base [] n w opn out = (opn, out)"
| "blob_loop entry_of base (unit # us) n w opn out =
     (let entry = entry_of unit in
      if entry AND CONTINUE = 0 then
        blob_loop entry_of base us (f64_zero False) (f64_of_int 1) False
          (out @ [to_int32 (f64_add n (f64_mul w (f64_of_int (uint entry))))])
      else
        blob_loop entry_of base us (f64_add n (f64_mul w (f64_of_int (uint (entry AND VALUE_MASK)))))
          (f64_mul w base) True out)"

definition decode_blob :: "build_model \<Rightarrow> decode_error + i32 list" where
  "decode_blob model =
     (let charset_len = length (bm_charset model); radix = bm_radix model in
      if radix = 0 \<or> charset_len \<le> radix then Inl (DecodeRadix radix charset_len)
      else let base = f64_of_int (int (charset_len - radix));
               tables = decode_tables radix (bm_charset model);
               us = encode_utf16 (bm_blob model);
               (opn, out) = blob_loop (unit_entry tables) base us (f64_zero False) (f64_of_int 1) False []
        in if opn then Inl (DecodeTruncated (length us) (length out))
           else if length out < MIN_INTS then Inl (DecodeTooShort (length out))
           else Inr out)"

subsection \<open>The string pool\<close>

definition pool_unit :: "i32 \<Rightarrow> i32 \<Rightarrow> u16" where
  "pool_unit multiplier l =
     ucast ((l AND HIGH_MASK) OR
       (to_int32 (f64_mul (f64_of_int (sint l)) (f64_of_int (sint multiplier))) AND LOW_MASK))"

definition lift_pool :: "build_model \<Rightarrow> i32 list \<Rightarrow> decode_error + i32 list \<times> u16 list" where
  "lift_pool model t =
     (let len = length t; key = t ! (len - 1); salt = word_of_nat (len + 4); offset = key XOR salt in
      if sint offset < 1 \<or> len \<le> idx offset then Inl (DecodePoolOffset offset key salt len)
      else let m = idx offset; index = m + bm_entry_pc model in
      if len \<le> index then Inl (DecodeCountIndex index m (bm_entry_pc model) len)
      else let count = sint (t ! index) + 2; max_len = len - m in
      if count < 2 \<or> int max_len < count then Inl (DecodePoolCount count m max_len len)
      else let tag = t ! m in
      if tag \<noteq> tag_string (bm_tags model) then Inl (DecodePoolTag tag (tag_string (bm_tags model)) m)
      else let pool_len = t ! (m + 1) in
      if sint pool_len < 0 \<or> count < 2 + sint pool_len then Inl (DecodePoolLen pool_len m count)
      else let start = m + 2;
               pool = map (pool_unit (bm_multiplier model)) (take (idx pool_len) (drop start t))
        in Inr (take m t @ drop (m + nat count) t, pool))"

definition decode :: "build_model \<Rightarrow> decode_error + decoded" where
  "decode model =
     res_bind (decode_blob model) (\<lambda>words.
     res_bind (lift_pool model words) (\<lambda>(code, pool).
     Inr \<lparr>dc_code = code, dc_pool = pool\<rparr>))"

subsection \<open>ToInt32 is reduction modulo \<open>2 ^ 32\<close>\<close>

lemma TWO_63_eq: "TWO_63 = FFin False (2 ^ 52) 11"
  by (simp add: f64_eval TWO_63_def)

lemma TWO_32_eq: "TWO_32 = FFin False (2 ^ 52) (-20)"
  by (simp add: f64_eval TWO_32_def)

lemma f64_lt_2_63:
  "f64_lt (FFin False m e) TWO_63 \<longleftrightarrow>
    (if 11 \<le> e then m * 2 ^ nat (e - 11) < 2 ^ 52 else m < 2 ^ 52 * 2 ^ nat (11 - e))"
proof -
  have cmp: "int a - int b < 0 \<longleftrightarrow> a < b" for a b :: nat by linarith
  show ?thesis
    unfolding TWO_63_eq f64_lt.simps f64_diff_def f64_signed_def Let_def if_False cmp
    by (auto simp: min_def)
qed

lemma f64_trunc_below_2_63:
  assumes "f64_lt (FFin False m e) TWO_63"
  shows "\<bar>f64_trunc (FFin s m e)\<bar> < 2 ^ 63"
proof -
  define N where "N = (if 0 \<le> e then m * 2 ^ nat e else m div 2 ^ nat (- e))"
  have "N < 2 ^ 63"
  proof -
    consider "11 \<le> e" | "0 \<le> e" "e < 11" | "e < 0" by linarith
    then show ?thesis
    proof cases
      case 1
      then have "nat e = nat (e - 11) + 11" by simp
      then show ?thesis using assms 1 by (simp add: N_def f64_lt_2_63 power_add)
    next
      case 2
      have "m * 2 ^ nat e < 2 ^ 52 * 2 ^ nat (11 - e) * 2 ^ nat e"
        using assms 2 by (simp add: f64_lt_2_63)
      also have "\<dots> = 2 ^ (52 + nat (11 - e) + nat e)" by (simp only: power_add)
      also have "52 + nat (11 - e) + nat e = 63" using 2 by simp
      finally show ?thesis using 2 by (simp add: N_def)
    next
      case 3
      have "m < 2 ^ 52 * 2 ^ nat (11 - e)" using assms 3 by (simp add: f64_lt_2_63)
      also have "\<dots> = 2 ^ (52 + nat (11 - e))" by (simp only: power_add)
      also have "52 + nat (11 - e) = 63 + nat (- e)" using 3 by simp
      also have "(2::nat) ^ (63 + nat (- e)) = 2 ^ 63 * 2 ^ nat (- e)" by (simp only: power_add)
      finally show ?thesis using 3 by (simp add: N_def div_less_iff_less_mult)
    qed
  qed
  then have "int N < int (2 ^ 63)" by (simp only: of_nat_less_iff)
  then show ?thesis by (simp add: abs_mult flip: N_def)
qed

lemma f64_round_small:
  "R < 2 ^ 53 \<Longrightarrow> 0 < R \<Longrightarrow> f64_round s R 0 = f64_of_int (if s then - int R else int R)"
  by (simp add: f64_of_int_def)

lemma to_int32_large:
  assumes "m < 2 ^ 53" and ge: "\<not> f64_lt (FFin False m e) TWO_63"
  shows "to_int32 (FFin s m e) = word_of_int (f64_trunc (FFin s m e))"
proof -
  have e: "11 \<le> e"
  proof (rule ccontr)
    assume "\<not> 11 \<le> e"
    then have "(2::nat) * 2 ^ 52 \<le> 2 ^ 52 * 2 ^ nat (11 - e)" by (cases "nat (11 - e)") auto
    then show False using assms \<open>\<not> 11 \<le> e\<close> by (simp add: f64_lt_2_63)
  qed
  define N R where "N = m * 2 ^ nat e" and "R = N mod 2 ^ 32"
  have R: "R < 2 ^ 32" by (simp add: R_def)
  have "m * 2 ^ nat (e + 20) = N * 2 ^ 20"
    using e by (simp add: N_def nat_add_distrib power_add)
  then have "m * 2 ^ nat (e + 20) mod 2 ^ 52 = R * 2 ^ 20"
    using mod_mult_mult2[of N "2 ^ 20" "2 ^ 32"] by (simp add: R_def)
  then have r0: "f64_rem (FFin s m e) TWO_32 = f64_round s R 0"
    using e f64_round_scale[of s R 20 "-20"] unfolding TWO_32_eq by (simp add: Let_def min_def)
  have red: "f64_sat 0 (2 ^ 32 - 1) (f64_rem_euclid (FFin s m e) TWO_32)
    = (if s \<and> R \<noteq> 0 then 2 ^ 32 - int R else int R)"
  proof (cases "R = 0")
    case True
    then show ?thesis
      by (simp add: f64_rem_euclid_def r0 f64_zero_def f64_diff_def f64_signed_def f64_sat_def Let_def)
  next
    case False
    have ex: "f64_exact (int R)" "f64_exact (- int R)" "f64_exact (2 ^ 32)" "f64_exact (2 ^ 32 - int R)"
      "f64_exact 0"
      using R by (auto intro!: f64_exact_small)
    have lt: "f64_lt (f64_of_int v) (f64_zero False) \<longleftrightarrow> v < 0" if "f64_exact v" for v
      using f64_lt_of_int[OF that ex(5)] by simp
    have abs: "f64_abs TWO_32 = TWO_32" by (simp add: TWO_32_eq)
    show ?thesis
      using False R ex f64_round_small[of R s] f64_add_of_int[OF ex(2,3), folded TWO_32_def]
      by (simp add: f64_rem_euclid_def r0 lt ex abs f64_sat_of_int Let_def)
  qed
  have "f64_trunc (FFin s m e) = (if s then - int N else int N)" using e by (simp add: N_def)
  moreover have "(if s \<and> R \<noteq> 0 then 2 ^ 32 - int R else int R) mod 2 ^ 32
      = (if s then - int N else int N) mod 2 ^ 32"
    by (auto simp: R_def zmod_int zmod_zminus1_eq_if mod_simps split: if_splits)
  ultimately have "(word_of_int (if s \<and> R \<noteq> 0 then 2 ^ 32 - int R else int R) :: i32)
      = word_of_int (f64_trunc (FFin s m e))"
    by (simp only: word_of_int_eq_iff take_bit_eq_mod) simp
  moreover have "f64_abs (FFin s m e) = FFin False m e" "is_finite (FFin s m e)" by simp_all
  ultimately show ?thesis using ge unfolding to_int32_def by (simp only: red if_False not_True_eq_False)
qed

lemma to_int32_finite:
  assumes "f64_wf x" "is_finite x"
  shows "to_int32 x = word_of_int (f64_trunc x)"
proof -
  obtain s m e where x: "x = FFin s m e" "m < 2 ^ 53"
    using assms by (cases x) (auto simp: f64_wf_def)
  show ?thesis
  proof (cases "f64_lt (FFin False m e) TWO_63")
    case True
    then have "- (2 ^ 63) \<le> f64_trunc x" "f64_trunc x \<le> 2 ^ 63 - 1"
      using f64_trunc_below_2_63[of m e s] by (auto simp: x simp del: f64_trunc.simps)
    then have "f64_sat (- (2 ^ 63)) (2 ^ 63 - 1) x = f64_trunc x"
      by (simp add: f64_sat_def x del: f64_trunc.simps)
    with True show ?thesis by (simp add: to_int32_def x(1) del: f64_trunc.simps)
  next
    case False
    then show ?thesis using to_int32_large[OF x(2)] x(1) by (simp only:)
  qed
qed

lemma to_int32_of_int: "f64_exact i \<Longrightarrow> to_int32 (f64_of_int i) = word_of_int i"
  using to_int32_finite[of "f64_of_int i"] f64_of_int_wf[of i] f64_of_int_finite[of i]
    f64_trunc_of_int(1)[of i] by simp

lemma to_int32_of_nat: "n \<le> 2 ^ 53 \<Longrightarrow> to_int32 (f64_of_int (int n)) = word_of_nat n"
  using to_int32_of_int[OF f64_exact_nat] by simp

subsection \<open>What the tables hold\<close>

lemma length_table_fold:
  "length (fst (foldl (table_step radix) t xs)) = length (fst t)"
  by (induction xs arbitrary: t) (auto simp: table_step_def Let_def split: prod.splits)

lemma wide_entry_set: "wide_entry (set_wide ws u e) v = (if v = u then e else wide_entry ws v)"
  by (induction ws u e rule: set_wide.induct) auto

lemma unit_entry_step:
  "length (fst t) = ASCII_LEN \<Longrightarrow>
    unit_entry (table_step radix t (i, u)) v = (if v = u then charset_entry radix i else unit_entry t v)"
  by (auto simp: unit_entry_def table_step_def Let_def wide_entry_set nth_list_update word_unat_eq_iff
      split: prod.splits)

lemma decode_tables_snoc:
  "decode_tables radix (cs @ [u]) = table_step radix (decode_tables radix cs) (length cs, u)"
  by (simp add: decode_tables_def enumerate_append_eq)

lemma length_decode_tables: "length (fst (decode_tables radix cs)) = ASCII_LEN"
  by (simp add: decode_tables_def length_table_fold)

lemma unit_entry_decode_tables:
  "distinct cs \<Longrightarrow> p < length cs \<Longrightarrow>
    unit_entry (decode_tables radix cs) (cs ! p) = charset_entry radix p"
proof (induction cs rule: rev_induct)
  case (snoc u cs)
  then show ?case
    by (cases "p = length cs")
      (auto simp: decode_tables_snoc unit_entry_step length_decode_tables nth_append)
qed simp

lemma low_word:
  assumes "n < 2 ^ 31"
  shows "(of_nat n :: u32) AND CONTINUE = 0" "(CONTINUE OR of_nat n :: u32) AND CONTINUE \<noteq> 0"
    "(CONTINUE OR of_nat n) AND VALUE_MASK = (of_nat n :: u32)" "uint (of_nat n :: u32) = int n"
proof -
  have b: "\<not> bit (of_nat n :: u32) 31" using assms
    by (metis bit_of_nat_iff bit_iff_odd div_less even_zero)
  have c: "CONTINUE = 2 ^ 31" by simp
  show "(of_nat n :: u32) AND CONTINUE = 0" unfolding c and_exp_eq_0_iff_not_bit by (rule b)
  show "(CONTINUE OR of_nat n :: u32) AND CONTINUE \<noteq> 0"
    unfolding c and_exp_eq_0_iff_not_bit by (simp add: bit_simps)
  show "(CONTINUE OR of_nat n) AND VALUE_MASK = (of_nat n :: u32)"
    unfolding c by (rule bit_word_eqI) (use b in \<open>simp only: bit_simps, auto\<close>)
  show "uint (of_nat n :: u32) = int n" using assms by (simp add: uint_nat unat_of_nat_small)
qed

subsection \<open>Encoding a program and decoding it again\<close>

text \<open>
  The encoder that the script's generator must have used: a number below the radix
  is one closing character; a larger one starts with a continuing character whose
  value is congruent to it modulo the base \<open>charset length - radix\<close>. It is total as
  soon as the base does not exceed the radix.
\<close>

function encode_number :: "nat \<Rightarrow> nat \<Rightarrow> nat \<Rightarrow> nat list" where
  "encode_number base radix v =
     (if v < radix \<or> radix = 0 then [v]
      else (radix + (v - radix) mod base) # encode_number base radix ((v - radix) div base))"
  by pat_completeness auto
termination
  by (relation "measure (\<lambda>(_, _, v). v)") (auto intro: le_less_trans[OF div_le_dividend])

declare encode_number.simps [simp del]

definition encode_units :: "nat \<Rightarrow> u16 list \<Rightarrow> i32 list \<Rightarrow> u16 list" where
  "encode_units radix cs ws =
     concat (map (\<lambda>w. map ((!) cs) (encode_number (length cs - radix) radix (unat w))) ws)"

lemma f64_step:
  assumes "a + b * d \<le> 2 ^ 52" "b \<le> 2 ^ 52" "d \<le> 2 ^ 52"
  shows "f64_add (f64_of_int (int a)) (f64_mul (f64_of_int (int b)) (f64_of_int (int d)))
    = f64_of_int (int (a + b * d))"
proof -
  have "f64_exact (int a)" "f64_exact (int b)" "f64_exact (int d)" "f64_exact (int (b * d))"
    using assms by (intro f64_exact_nat; simp)+
  then show ?thesis using f64_mul_of_int[of "int b" "int d"] f64_add_of_int[of "int a" "int (b * d)"] by simp
qed

lemma blob_loop_number:
  assumes "\<And>p. p < radix + base \<Longrightarrow> entry_of (cs ! p) = charset_entry radix p"
    and "0 < base" "base \<le> radix" "radix < 2 ^ 30"
    and "0 < b" "b \<le> 2 ^ 52" "a + b * v \<le> 2 ^ 52"
  shows "blob_loop entry_of (f64_of_int (int base)) (map ((!) cs) (encode_number base radix v) @ us)
      (f64_of_int (int a)) (f64_of_int (int b)) opn out
    = blob_loop entry_of (f64_of_int (int base)) us (f64_zero False) (f64_of_int 1) False
      (out @ [word_of_nat (a + b * v)])"
  using assms
proof (induction base radix v arbitrary: a b opn rule: encode_number.induct)
  case (1 base radix v)
  have v: "v \<le> 2 ^ 52"
  proof -
    have "1 * v \<le> b * v" using "1.prems"(5) by (intro mult_le_mono1) simp
    then show ?thesis using "1.prems"(7) by linarith
  qed
  show ?case
  proof (cases "v < radix")
    case True
    then have e: "entry_of (cs ! v) = of_nat v" and v31: "v < 2 ^ 31"
      using "1.prems"(1)[of v] "1.prems"(4) by (auto simp: charset_entry_def)
    have "a + b * v \<le> 2 ^ 53" using "1.prems"(7) by simp
    note t = to_int32_of_nat[OF this]
    show ?thesis
      using True low_word[OF v31] f64_step[OF "1.prems"(7,6) v] t
      by (simp add: encode_number.simps[of base radix v] e Let_def)
  next
    case False
    define d rest where "d = radix + (v - radix) mod base" and "rest = (v - radix) div base"
    have vd: "v = d + base * rest"
      using False mult_div_mod_eq[of base "v - radix"] by (simp add: d_def rest_def)
    have d12: "radix \<le> d" "d < radix + base"
      using mod_less_divisor[OF "1.prems"(2), of "v - radix"] by (simp_all add: d_def)
    have d3: "d \<le> 2 ^ 52" using vd v by linarith
    have d4: "d < 2 ^ 31" using d12 "1.prems"(3,4) by simp
    note d = d12 d3 d4
    have "d - radix < radix" using d "1.prems"(3) by linarith
    then have "d mod radix + radix = d" using d(1) by (simp add: le_mod_geq)
    then have e: "entry_of (cs ! d) = CONTINUE OR of_nat d"
      using "1.prems"(1)[OF d(2)] d(1) by (simp add: charset_entry_def)
    have sum: "a + b * d + b * base * rest = a + b * v"
      by (simp add: vd algebra_simps)
    have "b * base \<le> b * v" using False "1.prems"(3) by (intro mult_le_mono2) simp
    then have b': "b * base \<le> 2 ^ 52" using "1.prems"(7) by linarith
    have step1: "f64_add (f64_of_int (int a)) (f64_mul (f64_of_int (int b)) (f64_of_int (int d)))
        = f64_of_int (int (a + b * d))"
      using "1.prems"(6,7) sum d(3) by (intro f64_step) linarith+
    have "f64_mul (f64_of_int (int b)) (f64_of_int (int base)) = f64_of_int (int b * int base)"
      using "1.prems"(2,3,4,6) by (intro f64_mul_of_int f64_exact_small) auto
    then have step2: "f64_mul (f64_of_int (int b)) (f64_of_int (int base)) = f64_of_int (int (b * base))"
      by simp
    have IH: "blob_loop entry_of (f64_of_int (int base))
        (map ((!) cs) (encode_number base radix rest) @ us)
        (f64_of_int (int (a + b * d))) (f64_of_int (int (b * base))) True out
      = blob_loop entry_of (f64_of_int (int base)) us (f64_zero False) (f64_of_int 1) False
        (out @ [word_of_nat (a + b * d + b * base * rest)])"
      unfolding rest_def using False "1.prems"(2,3,7)
      by (intro "1.IH" "1.prems"(1,2,3,4) b') (auto simp: sum[unfolded rest_def] "1.prems"(5,7))
    have enc: "encode_number base radix v = d # encode_number base radix rest"
      using False "1.prems"(2,3) by (subst encode_number.simps) (simp add: d_def rest_def)
    show ?thesis
      using low_word[OF d(4)] IH
      by (simp only: enc list.map append_Cons blob_loop.simps e Let_def if_False step1 step2 sum)
  qed
qed

lemma blob_loop_numbers:
  assumes "\<And>p. p < radix + base \<Longrightarrow> entry_of (cs ! p) = charset_entry radix p"
    and "0 < base" "base \<le> radix" "radix < 2 ^ 30"
  shows "blob_loop entry_of (f64_of_int (int base))
      (concat (map (\<lambda>w. map ((!) cs) (encode_number base radix (unat w))) ws))
      (f64_zero False) (f64_of_int 1) False out = (False, out @ ws)"
proof (induction ws arbitrary: out)
  case Nil
  then show ?case by simp
next
  case (Cons w ws)
  have "unat w \<le> 2 ^ 52" using unat_bound[of w] by simp
  then have "0 + 1 * unat w \<le> 2 ^ 52" by simp
  from blob_loop_number[where a = 0 and b = 1 and v = "unat w", OF assms _ _ this]
  show ?case by (simp add: Cons.IH)
qed

lemma to_int32_mul:
  assumes "f64_exact a" "f64_exact b" "f64_exact (a * b)"
  shows "to_int32 (f64_mul (f64_of_int a) (f64_of_int b)) = word_of_int (a * b)"
proof (cases "a * b = 0 \<longrightarrow> 0 \<le> a \<and> 0 \<le> b")
  case True
  then show ?thesis using f64_mul_of_int[OF assms(1,2)] to_int32_of_int[OF assms(3)] by simp
next
  case False
  obtain n f where a: "f64_of_int a = FFin (a < 0) n f" "real n * 2 powi f = real_of_int \<bar>a\<bar>"
    using f64_of_int_rep[OF assms(1)] by blast
  obtain m h where b: "f64_of_int b = FFin (b < 0) m h" "real m * 2 powi h = real_of_int \<bar>b\<bar>"
    using f64_of_int_rep[OF assms(2)] by blast
  have "n * m = 0" using False a(2) b(2) by auto
  then have "f64_mul (f64_of_int a) (f64_of_int b) = f64_zero ((a < 0) \<noteq> (b < 0))"
    using a(1) b(1) by (simp only: f64_mul.simps f64_round_zero)
  moreover have "to_int32 (f64_zero s) = 0" for s
    using to_int32_finite[of "f64_zero s"] by (simp add: f64_zero_def f64_wf_def)
  moreover have "a * b = 0" using False by blast
  ultimately show ?thesis by (simp only: word_of_int_0)
qed

text \<open>A unit of the pool, and the word that the generator stores for it.\<close>

definition encode_pool_unit :: "nat \<Rightarrow> u16 \<Rightarrow> i32" where
  "encode_pool_unit inv_mult u =
     word_of_nat (unat u div 64 * 64 + unat u mod 64 * inv_mult mod 64)"

lemma pool_unit_encode:
  assumes "(sint multiplier * int inv_mult) mod 64 = 1"
  shows "pool_unit multiplier (encode_pool_unit inv_mult u) = u"
proof -
  define lo L M where "lo = unat u mod 64 * inv_mult mod 64"
    and "L = unat u div 64 * 64 + lo" and "M = sint multiplier"
  have u: "unat u < 65536" using unat_bound[of u] by simp
  have lo: "lo < 64" by (simp add: lo_def)
  have "unat u div 64 < 1024" using u by simp
  then have L: "L < 65536" "L div 64 = unat u div 64" using lo by (simp_all add: L_def)
  have sL: "sint (word_of_nat L :: i32) = int L"
    using L by (simp add: sint_uint signed_take_bit_int_eq_self uint_nat unat_of_nat_small)
  have M: "- (2 ^ 31) \<le> M" "M < 2 ^ 31"
    using sint_range_size[of multiplier] by (auto simp: M_def word_size)
  have "\<bar>int L * M\<bar> \<le> 65536 * 2 ^ 31"
    unfolding abs_mult using L M by (intro mult_mono) auto
  then have ex: "f64_exact (int L)" "f64_exact M" "f64_exact (int L * M)"
    using L M by (auto intro!: f64_exact_small)
  have ilo: "int lo = int (unat u mod 64) * int inv_mult mod 64"
    by (simp only: lo_def of_nat_mod of_nat_mult of_nat_numeral)
  have "int L * M = int lo * M + 64 * (int (unat u div 64) * M)" by (simp add: L_def algebra_simps)
  then have "int L * M mod 64 = int lo * M mod 64" by (simp only: mod_mult_self2)
  also have "\<dots> = int (unat u mod 64) * (int inv_mult * M) mod 64"
    unfolding ilo mod_mult_left_eq by (simp only: mult.assoc)
  also have "\<dots> = int (unat u mod 64) * ((int inv_mult * M) mod 64) mod 64"
    by (simp only: mod_mult_right_eq)
  also have "(int inv_mult * M) mod 64 = 1" using assms by (simp add: M_def mult.commute)
  finally have low: "int L * M mod 64 = int (unat u mod 64)" by (simp add: zmod_int)
  have low6: "take_bit 6 (int L * M) = int (unat u mod 64)" using low by (simp add: take_bit_eq_mod)
  have tw: "take_bit 6 (word_of_int k :: i32) = word_of_int (take_bit 6 k)" for k
    by (rule bit_word_eqI) (auto simp: bit_take_bit_iff bit_word_of_int_iff)
  have tb: "take_bit 6 (word_of_int (int L * M) :: i32) = word_of_nat (unat u mod 64)"
    by (simp only: tw low6 of_int_of_nat_eq)
  have masks: "HIGH_MASK = NOT (mask 6)" by (simp add: mask_numeral)
  have masks': "LOW_MASK = mask 6" by (simp add: mask_numeral)
  have hi: "bit (word_of_nat L :: i32) n \<longleftrightarrow> bit u n" if n6: "6 \<le> n" and n16: "n < 16" for n
  proof -
    obtain k where k: "n = 6 + k" using le_Suc_ex[OF n6] by auto
    have "bit L n \<longleftrightarrow> bit (L div 64) k" "bit (unat u) n \<longleftrightarrow> bit (unat u div 64) k"
      by (simp_all add: k bit_iff_odd power_add div_mult2_eq)
    then show ?thesis using n16 L(2) by (simp add: bit_of_nat_iff bit_unsigned_iff)
  qed
  have lobits: "bit (word_of_nat (unat u mod 64) :: i32) n \<longleftrightarrow> n < 6 \<and> bit u n" if "n < 16" for n
  proof -
    have "unat u mod 64 = take_bit 6 (unat u)" by (simp add: take_bit_eq_mod)
    then have "bit (word_of_nat (unat u mod 64) :: i32) n \<longleftrightarrow> n < 32 \<and> bit (take_bit 6 (unat u)) n"
      by (simp only: bit_of_nat_iff possible_bit_word) auto
    then show ?thesis using that by (simp add: bit_take_bit_iff bit_unsigned_iff)
  qed
  have eq: "pool_unit multiplier (encode_pool_unit inv_mult u)
      = ucast ((word_of_nat L AND NOT (mask 6)) OR word_of_nat (unat u mod 64) :: i32)"
    unfolding pool_unit_def encode_pool_unit_def L_def[symmetric, unfolded lo_def] M_def[symmetric]
      sL to_int32_mul[OF ex] masks masks' take_bit_eq_mask[symmetric] tb ..
  show ?thesis
  proof (rule bit_word_eqI)
    fix n assume "n < LENGTH(16)"
    then have n: "n < 16" by simp
    then have "bit (pool_unit multiplier (encode_pool_unit inv_mult u)) n
        \<longleftrightarrow> (bit (word_of_nat L :: i32) n \<and> 6 \<le> n) \<or> (n < 6 \<and> bit u n)"
      unfolding eq by (simp add: bit_ucast_iff bit_or_iff bit_and_iff bit_not_iff bit_mask_iff lobits
          not_less)
    then show "bit (pool_unit multiplier (encode_pool_unit inv_mult u)) n \<longleftrightarrow> bit u n"
      using hi[of n] n by auto
  qed
qed

subsection \<open>Properties\<close>

lemma length_charset: "distinct (cs :: u16 list) \<Longrightarrow> length cs \<le> 65536"
  using card_mono[of UNIV "set cs"] by (simp add: distinct_card card_word)

text \<open>C1: decoding inverts the encoding of a program: for a charset of distinct units
  whose base does not exceed the radix, the blob of the words \<open>ws\<close> decodes to \<open>ws\<close>,
  every 32-bit word through the double arithmetic of the loop.\<close>

theorem decode_blob_roundtrip:
  assumes "distinct (bm_charset model)"
    and "bm_radix model < length (bm_charset model)"
    and "length (bm_charset model) \<le> 2 * bm_radix model"
    and "encode_utf16 (bm_blob model) = encode_units (bm_radix model) (bm_charset model) ws"
    and "MIN_INTS \<le> length ws"
  shows "decode_blob model = Inr ws"
proof -
  define cs radix base where "cs = bm_charset model" and "radix = bm_radix model"
    and "base = length cs - radix"
  have b: "0 < base" "base \<le> radix" "radix < 2 ^ 30" "radix + base = length cs"
    using assms(1-3) length_charset[of cs] by (auto simp: cs_def radix_def base_def)
  have "unit_entry (decode_tables radix cs) (cs ! p) = charset_entry radix p" if "p < radix + base" for p
    using assms(1) that b by (simp add: unit_entry_decode_tables cs_def)
  from blob_loop_numbers[OF this b(1-3)]
  have "blob_loop (unit_entry (decode_tables radix cs)) (f64_of_int (int base))
      (encode_utf16 (bm_blob model)) (f64_zero False) (f64_of_int 1) False [] = (False, ws)"
    by (simp add: assms(4) encode_units_def flip: cs_def radix_def base_def)
  then show ?thesis
    using b assms(5) by (simp add: decode_blob_def Let_def flip: cs_def radix_def base_def)
qed

theorem decode_blob_roundtrip_witness:
  "decode_blob \<lparr>bm_blob = chars ''fabgb'', bm_charset = map of_char ''abcdefg'', bm_radix = 4,
      bm_multiplier = 1, bm_tags = \<lparr>tag_string = 2, tag_double = 4, tag_true = 6, tag_false = 8,
      tag_null = 10, tag_undefined = 12\<rparr>, bm_ops = [], bm_entry_pc = 1, bm_reg_shift = 0\<rparr>
    = Inr [5, 1, 9]"
  by (rule decode_blob_roundtrip)
    (simp_all add: chars_def encode_utf16_def utf16_char_def encode_units_def encode_number.simps)

text \<open>C2: cutting out the pool inverts the layout of a program: when the pool of the units \<open>us\<close>,
  scrambled with a multiplier that is invertible modulo 64, stands at position \<open>m\<close> of the
  words and the last word is the key for \<open>m\<close>, then \<open>lift_pool\<close> gives back the code around
  the pool and the units, whatever they are.\<close>

definition layout_pool :: "build_model \<Rightarrow> nat \<Rightarrow> nat \<Rightarrow> i32 list \<Rightarrow> u16 list \<Rightarrow> i32 list" where
  "layout_pool model inv_mult m code us =
     take m code @ [tag_string (bm_tags model), word_of_nat (length us)]
       @ map (encode_pool_unit inv_mult) us @ drop m code"

theorem lift_pool_layout:
  assumes "bm_entry_pc model = 1"
    and "(sint (bm_multiplier model) * int inv_mult) mod 64 = 1"
    and "1 \<le> m" "m < length code" "length code + length us < 2 ^ 31 - 2"
    and "last code = word_of_nat m XOR word_of_nat (length code + length us + 6)"
  shows "lift_pool model (layout_pool model inv_mult m code us) = Inr (code, us)"
proof -
  define t where "t = layout_pool model inv_mult m code us"
  have len: "length t = length code + length us + 2"
    using assms(4) by (simp add: t_def layout_pool_def)
  have "t \<noteq> []" using len by auto
  moreover have "last t = last code" using assms(4) by (simp add: t_def layout_pool_def)
  ultimately have "t ! (length t - 1) = last code" by (simp add: last_conv_nth)
  moreover have "length t + 4 = length code + length us + 6" using len by simp
  ultimately have key: "t ! (length t - 1) XOR word_of_nat (length t + 4) = (word_of_nat m :: i32)"
    by (simp only: assms(6) xor.assoc xor_self_eq xor.right_neutral)
  have small: "sint (word_of_nat n :: i32) = int n" "idx (word_of_nat n) = n" if "n < 2 ^ 31" for n
    using that by (auto simp: idx_def sint_uint signed_take_bit_int_eq_self uint_nat unat_of_nat_small)
  have nth: "t ! m = tag_string (bm_tags model)" "t ! (m + 1) = word_of_nat (length us)"
    "take (length us) (drop (m + 2) t) = map (encode_pool_unit inv_mult) us"
    "take m t = take m code" "drop (m + (length us + 2)) t = drop m code"
    using assms(4) by (auto simp: t_def layout_pool_def nth_append)
  have "map (pool_unit (bm_multiplier model)) (map (encode_pool_unit inv_mult) us) = us"
    using pool_unit_encode[OF assms(2)] by (simp add: map_idI)
  moreover have "m < 2 ^ 31" "length us < 2 ^ 31" using assms(4,5) by auto
  ultimately show ?thesis
    unfolding lift_pool_def Let_def t_def[symmetric] key
    using assms(1,3,4,5) len nth small by (simp add: nat_add_distrib)
qed

theorem lift_pool_layout_witness:
  "lift_pool \<lparr>bm_blob = [], bm_charset = [], bm_radix = 2,
      bm_multiplier = 3, bm_tags = \<lparr>tag_string = 2, tag_double = 4, tag_true = 6, tag_false = 8,
      tag_null = 10, tag_undefined = 12\<rparr>, bm_ops = [], bm_entry_pc = 1, bm_reg_shift = 0\<rparr>
    [17, 2, 2, 65, 118, 1, 10] = Inr ([17, 1, 10], [67, 98])"
  using lift_pool_layout[of "\<lparr>bm_blob = [], bm_charset = [], bm_radix = 2,
      bm_multiplier = 3, bm_tags = \<lparr>tag_string = 2, tag_double = 4, tag_true = 6, tag_false = 8,
      tag_null = 10, tag_undefined = 12\<rparr>, bm_ops = [], bm_entry_pc = 1, bm_reg_shift = 0\<rparr>"
      43 1 "[17, 1, 10]" "[67, 98]"]
  by (simp add: layout_pool_def encode_pool_unit_def)

text \<open>C3: on every finite double \<open>to_int32\<close> is ECMAScript's ToInt32, the integer part modulo
  \<open>2 ^ 32\<close>, also beyond \<open>2 ^ 63\<close> where the code takes the Euclidean remainder; NaN and the
  infinities give 0.\<close>

theorem to_int32_spec:
  assumes "f64_wf x"
  shows "to_int32 x = (if is_finite x then word_of_int (f64_trunc x) else 0)"
proof (cases "is_finite x")
  case True
  then show ?thesis using to_int32_finite[OF assms] by simp
next
  case False
  then show ?thesis by (cases x) (auto simp: to_int32_def TWO_63_eq)
qed

theorem to_int32_spec_witness: "to_int32 (FFin True (2 ^ 52 + 1) 20) = - (1048576 :: 32 word)"
  using to_int32_spec[of "FFin True (2 ^ 52 + 1) 20"] by (simp add: f64_wf_def)

end
