(* ===== verification/Disassembler.thy ===== *)
theory Disassembler
  imports Decoder
begin

text \<open>
  \<open>src/worktime/disassembler.rs\<close>: a linear sweep over the decoded words. Each
  instruction is an opcode word, the operands its shape asks for, and perhaps a
  destination register; the sweep must end exactly at the key word. Every read
  past the end, unknown opcode, negative register and string outside the pool is
  an error value. The cursor is passed explicitly.
\<close>

datatype dis_error =
    DisCodeLength nat
  | DisRegShift nat
  | DisEntry nat nat
  | DisOpcode nat i32
  | DisTruncated nat nat nat
  | DisRegister nat nat i32
  | DisPoolRange nat nat i32 i32 nat
  | DisDesync nat nat

abbreviation SIGN_MASK :: i32 where "SIGN_MASK \<equiv> 0x80000000"
abbreviation EXP_MASK :: i32 where "EXP_MASK \<equiv> 2146435072"
abbreviation MANT_MASK :: i32 where "MANT_MASK \<equiv> 1048575"
abbreviation MAX_REG_SHIFT :: nat where "MAX_REG_SHIFT \<equiv> 32"

subsection \<open>Doubles from two words\<close>

definition pow2 :: "int \<Rightarrow> f64" where
  "pow2 e =
     (if -1022 \<le> e then f64_from_bits (push_bit 52 (word_of_int (e + 1023)))
      else f64_from_bits (push_bit (nat (e + 1074)) 1))"

definition double :: "i32 \<Rightarrow> i32 \<Rightarrow> f64" where
  "double hi lo =
     (let sign = f64_of_int (if hi AND SIGN_MASK \<noteq> 0 then -1 else 1);
          exp = sint (signed_drop_bit 20 (hi AND EXP_MASK));
          x = f64_add (f64_mul (f64_of_int (sint (hi AND MANT_MASK))) TWO_32) (f64_of_int (uint lo))
      in if exp = 2047
         then (if \<not> f64_eq x (f64_zero False) then FNan else f64_mul sign (FInf False))
         else let x' = (if exp \<noteq> 0 then f64_add x (f64_of_int (2 ^ 52)) else x);
                  exp' = (if exp \<noteq> 0 then exp else exp + 1)
           in f64_mul (f64_mul sign x') (pow2 (exp' - 1075)))"

subsection \<open>Reading words and operands\<close>

record sweep =
  sw_code :: "i32 list"
  sw_pool_len :: nat
  sw_tags :: tags
  sw_shift :: nat
  sw_at :: nat

definition sweep_word :: "sweep \<Rightarrow> nat \<Rightarrow> dis_error + i32" where
  "sweep_word sw pc =
     (case get (sw_code sw) pc of Some w \<Rightarrow> Inr w
      | None \<Rightarrow> Inl (DisTruncated (sw_at sw) pc (length (sw_code sw))))"

definition sweep_reg :: "sweep \<Rightarrow> nat \<Rightarrow> i32 \<Rightarrow> dis_error + nat" where
  "sweep_reg sw pc w =
     (if sint w < 0 then Inl (DisRegister (sw_at sw) pc w)
      else Inr (unat (signed_drop_bit (sw_shift sw) w)))"

definition sweep_register :: "sweep \<Rightarrow> nat \<Rightarrow> dis_error + nat \<times> nat" where
  "sweep_register sw pc =
     res_bind (sweep_word sw pc) (\<lambda>w. res_bind (sweep_reg sw pc w) (\<lambda>r. Inr (r, pc + 1)))"

definition sweep_operand :: "sweep \<Rightarrow> nat \<Rightarrow> dis_error + operand \<times> nat" where
  "sweep_operand sw pc =
     res_bind (sweep_word sw pc) (\<lambda>w.
     if w AND 1 \<noteq> 0 then Inr (Opd_Int (signed_drop_bit 1 w), pc + 1)
     else if w = tag_string (sw_tags sw) then
       res_bind (sweep_word sw (pc + 1)) (\<lambda>len. res_bind (sweep_word sw (pc + 2)) (\<lambda>off.
       if sint len < 0 \<or> sint off < 0 \<or> sw_pool_len sw < idx off + idx len
       then Inl (DisPoolRange (sw_at sw) pc len off (sw_pool_len sw))
       else Inr (Opd_Str \<lparr>pr_off = idx off, pr_len = idx len\<rparr>, pc + 3)))
     else if w = tag_true (sw_tags sw) then Inr (Opd_True, pc + 1)
     else if w = tag_null (sw_tags sw) then Inr (Opd_Null, pc + 1)
     else if w = tag_false (sw_tags sw) then Inr (Opd_False, pc + 1)
     else if w = tag_undefined (sw_tags sw) then Inr (Opd_Undef, pc + 1)
     else if w = tag_double (sw_tags sw) then
       res_bind (sweep_word sw (pc + 1)) (\<lambda>hi. res_bind (sweep_word sw (pc + 2)) (\<lambda>lo.
       Inr (Opd_Dbl (double hi lo), pc + 3)))
     else res_bind (sweep_reg sw pc w) (\<lambda>r. Inr (Opd_Reg r, pc + 1)))"

subsection \<open>Instructions\<close>

text \<open>The loop over the slots of a shape, and one instruction at \<open>pc\<close>.\<close>

fun sweep_slots :: "sweep \<Rightarrow> slot list \<Rightarrow> nat \<Rightarrow> dis_error + operand list \<times> nat" where
  "sweep_slots sw [] pc = Inr ([], pc)"
| "sweep_slots sw (Slot_Operand # ss) pc =
     res_bind (sweep_operand sw pc) (\<lambda>(x, pc'). res_bind (sweep_slots sw ss pc') (\<lambda>(xs, pc'').
     Inr (x # xs, pc'')))"
| "sweep_slots sw (Slot_Register # ss) pc =
     res_bind (sweep_register sw pc) (\<lambda>(r, pc'). res_bind (sweep_slots sw ss pc') (\<lambda>(xs, pc'').
     Inr (Opd_Reg r # xs, pc'')))"

definition sweep_dest :: "sweep \<Rightarrow> bool \<Rightarrow> nat \<Rightarrow> dis_error + nat option \<times> nat" where
  "sweep_dest sw has_dest pc =
     (if has_dest then res_bind (sweep_register sw pc) (\<lambda>(r, pc'). Inr (Some r, pc'))
      else Inr (None, pc))"

definition sweep_instr :: "sweep \<Rightarrow> op list \<Rightarrow> nat \<Rightarrow> dis_error + instr \<times> nat" where
  "sweep_instr sw0 ops pc =
     (let sw = sw0\<lparr>sw_at := pc\<rparr>; raw = sw_code sw ! pc in
      if HANDLER_COUNT \<le> unat raw then Inl (DisOpcode pc raw)
      else let opn = ops ! unat raw; shape = op_shape opn in
        res_bind (sweep_slots sw (sh_slots shape) (pc + 1)) (\<lambda>(xs, pc').
        res_bind (sweep_dest sw (sh_dest shape) pc') (\<lambda>(dest, pc'').
        Inr (\<lparr>in_pc = as_u32 pc, in_op = opn, in_argc = length (sh_slots shape),
              in_args = xs @ replicate (MAX_ARGS - length xs) Opd_Undef, in_dest = dest\<rparr>, pc''))))"

text \<open>Every read moves the cursor on, which is why the sweep ends.\<close>

lemma sweep_register_progress: "sweep_register sw pc = Inr (r, pc') \<Longrightarrow> pc' = pc + 1"
  by (auto simp: sweep_register_def res_simps)

lemma sweep_operand_progress: "sweep_operand sw pc = Inr (x, pc') \<Longrightarrow> pc < pc'"
  by (auto simp: sweep_operand_def res_simps split: if_splits)

lemma sweep_slots_progress: "sweep_slots sw ss pc = Inr (xs, pc') \<Longrightarrow> pc \<le> pc'"
  by (induction sw ss pc arbitrary: xs pc' rule: sweep_slots.induct)
    (force simp: res_simps dest: sweep_operand_progress sweep_register_progress)+

lemma sweep_dest_progress: "sweep_dest sw d pc = Inr (r, pc') \<Longrightarrow> pc \<le> pc'"
  by (auto simp: sweep_dest_def res_simps split: if_splits dest: sweep_register_progress)

lemma sweep_instr_progress: "sweep_instr sw ops pc = Inr (i, pc') \<Longrightarrow> pc < pc'"
  by (auto simp: sweep_instr_def Let_def res_simps split: if_splits
      dest!: sweep_slots_progress sweep_dest_progress)

function sweep_loop ::
    "sweep \<Rightarrow> op list \<Rightarrow> nat \<Rightarrow> nat \<Rightarrow> instr list \<Rightarrow> dis_error + nat \<times> instr list" where
  "sweep_loop sw ops key pc instrs =
     (if pc < key
      then case sweep_instr sw ops pc of Inl e \<Rightarrow> Inl e
        | Inr (i, pc') \<Rightarrow> sweep_loop sw ops key pc' (instrs @ [i])
      else Inr (pc, instrs))"
  by pat_completeness auto
termination
  by (relation "measure (\<lambda>(sw, ops, key, pc, instrs). key - pc)")
    (auto dest!: sweep_instr_progress)

declare sweep_loop.simps [simp del]

definition disassemble :: "build_model \<Rightarrow> decoded \<Rightarrow> dis_error + instr list" where
  "disassemble model dc =
     (let code = dc_code dc; len = length code in
      if len < 2 \<or> 2 ^ 32 - 1 < len then Inl (DisCodeLength len)
      else if MAX_REG_SHIFT \<le> bm_reg_shift model then Inl (DisRegShift (bm_reg_shift model))
      else let key = len - 1; pc = bm_entry_pc model in
      if key < pc then Inl (DisEntry (bm_entry_pc model) key)
      else let sw = \<lparr>sw_code = code, sw_pool_len = length (dc_pool dc), sw_tags = bm_tags model,
                     sw_shift = bm_reg_shift model, sw_at = pc\<rparr>
        in res_bind (sweep_loop sw (bm_ops model) key pc []) (\<lambda>(pc', instrs).
           if pc' \<noteq> key then Inl (DisDesync pc' key) else Inr instrs))"

subsection \<open>The bits of a double\<close>

lemma unat_push: "k * 2 ^ n < 2 ^ LENGTH('a) \<Longrightarrow> unat (push_bit n (word_of_nat k :: 'a::len word)) = k * 2 ^ n"
  unfolding push_bit_of_nat by (subst unat_of_nat_small) (simp_all add: push_bit_eq_mult)

text \<open>Reading the three fields of a bit pattern given as a number.\<close>

lemma f64_from_bits_number:
  fixes w :: u64
  assumes "unat w = s * 2 ^ 63 + ex * 2 ^ 52 + fr" "s < 2" "ex < 2048" "fr < 2 ^ 52"
  shows "f64_from_bits w =
    (if ex = 2047 then (if fr = 0 then FInf (s = 1) else FNan)
     else if ex = 0 then FFin (s = 1) fr (-1074) else FFin (s = 1) (fr + 2 ^ 52) (int ex - 1075))"
proof -
  have d: "unat w div 2 ^ 52 = s * 2048 + ex" using assms by simp
  have d63: "unat w div 2 ^ 63 = s"
  proof -
    have "ex * 2 ^ 52 + fr < 2 ^ 63" using assms(3,4) by simp
    then show ?thesis unfolding assms(1) by (simp add: add.assoc)
  qed
  have b: "bit w 63 \<longleftrightarrow> s = 1"
  proof -
    have "bit w 63 \<longleftrightarrow> bit (unat w) 63" by (simp add: bit_unsigned_iff)
    also have "\<dots> \<longleftrightarrow> odd s" by (simp only: bit_iff_odd d63)
    finally show ?thesis using assms(2) by (auto simp: less_2_cases_iff)
  qed
  have "drop_bit 52 w AND 0x7FF = take_bit 11 (drop_bit 52 w)"
    by (simp add: take_bit_eq_mask mask_numeral)
  then have e: "unat (drop_bit 52 w AND 0x7FF) = ex"
    using d assms(3) unat_bound[of w]
    by (simp only: unsigned_take_bit_eq unsigned_drop_bit_eq) (simp add: drop_bit_eq_div take_bit_eq_mod)
  have f: "unat (take_bit 52 w) = fr"
  proof -
    have "unat w = (s * 2048 + ex) * 2 ^ 52 + fr" using assms(1) by simp
    then have "unat w mod 2 ^ 52 = fr" using assms(4) by (simp only: mod_mult_self3 mod_less)
    then show ?thesis using unat_bound[of w] by (simp only: unsigned_take_bit_eq) (simp add: take_bit_eq_mod)
  qed
  show ?thesis unfolding f64_from_bits_def Let_def b e f ..
qed

lemma pow2_rep:
  assumes "-1074 \<le> e" "e \<le> 1023"
  shows "\<exists>n f. pow2 e = FFin False n f \<and> real n * 2 powi f = 2 powi e"
proof (cases "-1022 \<le> e")
  case True
  define k where "k = nat (e + 1023)"
  have k: "1 \<le> k" "k \<le> 2046" "e = int k - 1023" using True assms by (auto simp: k_def)
  have "(word_of_int (e + 1023) :: u64) = word_of_nat k" by (simp add: k)
  moreover have "unat (push_bit 52 (word_of_nat k :: u64)) = 0 * 2 ^ 63 + k * 2 ^ 52 + 0"
    using k by (subst unat_push) auto
  ultimately have "pow2 e = FFin False (2 ^ 52) (int k - 1075)"
    using True k f64_from_bits_number[of "push_bit 52 (word_of_nat k)" 0 k 0] by (simp add: pow2_def)
  moreover have "real (2 ^ 52) * 2 powi (int k - 1075) = 2 powi e"
    using power_int_add[of "2::real" 52 "int k - 1075"] by (simp add: k)
  ultimately show ?thesis by blast
next
  case False
  define k where "k = nat (e + 1074)"
  have k: "k < 52" "e = int k - 1074" using False assms by (auto simp: k_def)
  have "(2::nat) ^ k < 2 ^ 52" using k by (intro power_strict_increasing) auto
  then have "unat (push_bit k (1 :: u64)) = 0 * 2 ^ 63 + 0 * 2 ^ 52 + 2 ^ k"
    using unat_push[of 1 k, where 'a = 64] by simp
  then have "pow2 e = FFin False (2 ^ k) (-1074)"
    using False \<open>(2::nat) ^ k < 2 ^ 52\<close> f64_from_bits_number[of "push_bit k 1" 0 0 "2 ^ k"]
    by (simp add: pow2_def flip: k_def)
  moreover have "real (2 ^ k) * 2 powi (-1074) = 2 powi e"
    using power_int_add[of "2::real" "int k" "-1074"] by (simp add: k)
  ultimately show ?thesis by blast
qed

lemma unat_word_cat: "unat (word_cat (hi :: i32) (lo :: i32) :: u64) = unat hi * 2 ^ 32 + unat lo"
proof -
  have "(word_cat hi lo :: u64) = word_of_nat (unat hi * 2 ^ 32 + unat lo)"
    using uint_lt2p[of lo] by (simp add: word_cat_eq' concat_bit_eq push_bit_eq_mult take_bit_int_eq_self)
  moreover have "unat hi * 2 ^ 32 + unat lo < 2 ^ LENGTH(64)"
    using unat_bound[of hi] unat_bound[of lo] by simp
  ultimately show ?thesis by (simp only: unat_of_nat_small)
qed

lemma sint_small: "unat (w :: i32) < 2 ^ 31 \<Longrightarrow> sint w = int (unat w)"
proof -
  assume "unat w < 2 ^ 31"
  then have "int (unat w) < int (2 ^ 31)" by (simp only: of_nat_less_iff)
  moreover have "- (2 ^ 31) \<le> uint w" by (rule order_trans[OF _ uint_ge_0]) simp
  ultimately show "sint w = int (unat w)" by (simp add: sint_uint signed_take_bit_int_eq_self)
qed

lemma small_word:
  assumes "n < 2 ^ 31"
  shows "sint (word_of_nat n :: i32) = int n" "idx (word_of_nat n) = n"
proof -
  have "unat (word_of_nat n :: i32) = n" using assms by (intro unat_of_nat_small) simp
  then show "sint (word_of_nat n :: i32) = int n" using assms sint_small by metis
  then show "idx (word_of_nat n) = n" by (simp add: idx_def)
qed

lemma double_fields:
  fixes hi :: i32
  defines "H \<equiv> unat hi"
  shows "hi AND SIGN_MASK \<noteq> 0 \<longleftrightarrow> H div 2 ^ 31 = 1"
    and "sint (signed_drop_bit 20 (hi AND EXP_MASK)) = int (H div 2 ^ 20 mod 2 ^ 11)"
    and "sint (hi AND MANT_MASK) = int (H mod 2 ^ 20)"
proof -
  have H: "H div 2 ^ 31 < 2" using unat_bound[of hi] by (simp add: H_def)
  have "hi AND SIGN_MASK \<noteq> 0 \<longleftrightarrow> bit H 31"
    using and_exp_eq_0_iff_not_bit[of hi 31] by (simp add: H_def bit_unsigned_iff)
  also have "\<dots> \<longleftrightarrow> odd (H div 2 ^ 31)" by (rule bit_iff_odd)
  finally show "hi AND SIGN_MASK \<noteq> 0 \<longleftrightarrow> H div 2 ^ 31 = 1" using H by (auto simp: less_2_cases_iff)
  have u: "unat (hi AND EXP_MASK) = H AND 2146435072" by (simp add: H_def unsigned_and_eq)
  also have "\<dots> = take_bit 31 (H AND 2146435072)" by (simp add: take_bit_eq_mask and.assoc mask_numeral)
  also have "\<dots> < 2 ^ 31" by (rule take_bit_nat_less_exp)
  finally have s: "sint (hi AND EXP_MASK) = int (H AND 2146435072)" by (simp only: sint_small u)
  have "(H AND 2146435072) div 2 ^ 20 = drop_bit 20 H AND drop_bit 20 2146435072"
    by (simp only: drop_bit_and flip: drop_bit_eq_div)
  also have "\<dots> = take_bit 11 (H div 2 ^ 20)" by (simp add: drop_bit_eq_div take_bit_eq_mask mask_numeral)
  also have "\<dots> = H div 2 ^ 20 mod 2 ^ 11" by (rule take_bit_eq_mod)
  finally show "sint (signed_drop_bit 20 (hi AND EXP_MASK)) = int (H div 2 ^ 20 mod 2 ^ 11)"
    by (simp add: sint_signed_drop_bit_eq s drop_bit_eq_div flip: zdiv_int)
  have "hi AND MANT_MASK = take_bit 20 hi" by (simp add: take_bit_eq_mask mask_numeral)
  then have "unat (hi AND MANT_MASK) = H mod 2 ^ 20"
    using unat_bound[of hi] by (simp only: unsigned_take_bit_eq H_def) (simp add: take_bit_eq_mod)
  then show "sint (hi AND MANT_MASK) = int (H mod 2 ^ 20)" by (simp add: sint_small)
qed

lemma f64_mul_sign:
  assumes "v < 2 ^ 53"
  shows "\<exists>n f. f64_mul (f64_of_int (if sg then -1 else 1)) (f64_of_int (int v)) = FFin sg n f
    \<and> real n * 2 powi f = real v"
proof -
  have v: "f64_exact (int v)" using assms by (intro f64_exact_nat) simp
  obtain m g where m: "f64_of_int (int v) = FFin False m g" "real m * 2 powi g = real v"
    using f64_of_int_rep[OF v] by auto
  have "f64_exact (if sg then -1 else 1)" by (auto intro!: f64_exact_small)
  from f64_of_int_rep[OF this] obtain n f
    where n: "f64_of_int (if sg then -1 else 1) = FFin sg n f" "real n * 2 powi f = 1"
    by (auto split: if_splits)
  have "real n * 2 powi f * (real m * 2 powi g) = real v * 2 powi 0" by (simp add: m n)
  from f64_mul_dyadic[OF this, of sg False] show ?thesis
    using f64_round_exact[of v 0 sg] assms by (simp add: m(1) n(1))
qed

text \<open>A double put together from its two words in this way is the double with those bits.\<close>

lemma double_finite:
  assumes "v < 2 ^ 53" "0 < e" "e < 2047" "v < 2 ^ 52 \<Longrightarrow> e = 1"
  shows "f64_mul (f64_mul (f64_of_int (if sg then -1 else 1)) (f64_of_int (int v))) (pow2 (int e - 1075))
    = FFin sg v (int e - 1075)"
proof -
  obtain n f where n: "f64_mul (f64_of_int (if sg then -1 else 1)) (f64_of_int (int v)) = FFin sg n f"
      "real n * 2 powi f = real v"
    using f64_mul_sign[OF assms(1)] by blast
  obtain m g where m: "pow2 (int e - 1075) = FFin False m g" "real m * 2 powi g = 2 powi (int e - 1075)"
    using pow2_rep[of "int e - 1075"] assms by auto
  have "real n * 2 powi f * (real m * 2 powi g) = real v * 2 powi (int e - 1075)" by (simp add: m n)
  from f64_mul_dyadic[OF this, of sg False] show ?thesis
    using assms by (simp add: n m f64_round_canonical f64_wf_def)
qed

lemma double_x:
  assumes "M < 2 ^ 20" "L < 2 ^ 32"
  shows "f64_add (f64_mul (f64_of_int (int M)) TWO_32) (f64_of_int (int L)) = f64_of_int (int (M * 2 ^ 32 + L))"
    and "M * 2 ^ 32 + L < 2 ^ 52"
proof -
  show b: "M * 2 ^ 32 + L < 2 ^ 52" using assms by simp
  have "f64_exact (int M)" "f64_exact (int L)" "f64_exact (int (M * 2 ^ 32))" "f64_exact (2 ^ 32)"
    using assms by (intro f64_exact_nat f64_exact_small; simp)+
  then show "f64_add (f64_mul (f64_of_int (int M)) TWO_32) (f64_of_int (int L)) = f64_of_int (int (M * 2 ^ 32 + L))"
    by (simp add: TWO_32_def f64_mul_of_int f64_add_of_int)
qed

lemma double_word_bits: "double hi lo = f64_from_bits (word_cat hi lo)"
proof -
  define H L where "H = unat hi" and "L = unat lo"
  define s E M where "s = H div 2 ^ 31" and "E = H div 2 ^ 20 mod 2 ^ 11" and "M = H mod 2 ^ 20"
  define v where "v = M * 2 ^ 32 + L"
  have b: "H < 2 ^ 32" "L < 2 ^ 32" "s < 2" "E < 2048" "M < 2 ^ 20"
    using unat_bound[of hi] unat_bound[of lo] by (auto simp: H_def L_def s_def E_def M_def)
  have "s * 2 ^ 11 + E = H div 2 ^ 20"
    using div_mult_mod_eq[of "H div 2 ^ 20" "2 ^ 11"] by (simp add: s_def E_def flip: div_mult2_eq)
  then have "H = (s * 2 ^ 11 + E) * 2 ^ 20 + M"
    using div_mult_mod_eq[of H "2 ^ 20"] by (simp only: M_def)
  then have "H = s * 2 ^ 31 + E * 2 ^ 20 + M" by simp
  then have cat: "unat (word_cat hi lo :: u64) = s * 2 ^ 63 + E * 2 ^ 52 + v"
    by (simp add: unat_word_cat v_def flip: H_def L_def)
  have v: "v < 2 ^ 52" using double_x(2)[OF b(5,2)] by (simp add: v_def)
  have lo: "uint lo = int L" by (simp add: L_def)
  note d = double_def[of hi lo] Let_def double_fields[of hi, folded H_def, folded s_def E_def M_def] lo
    double_x(1)[OF b(5,2), folded v_def]
  note r = f64_from_bits_number[OF cat b(3,4) v]
  have add52: "f64_add (f64_of_int (int v)) (f64_of_int (2 ^ 52)) = f64_of_int (int (v + 2 ^ 52))"
    using v by (simp add: f64_add_of_int f64_exact_small)
  consider "E = 2047" | "E = 0" | "0 < E" "E < 2047" using b(4) by linarith
  then show ?thesis
  proof cases
    case 1
    have "f64_eq (f64_of_int (int v)) (f64_zero False) \<longleftrightarrow> v = 0"
      using f64_eq_of_int[of "int v" 0] v by (simp add: f64_exact_small)
    moreover have "f64_mul (f64_of_int (if s = 1 then -1 else 1)) (FInf False) = FInf (s = 1)"
      by (simp add: f64_eval)
    ultimately show ?thesis unfolding r unfolding d by (simp add: 1)
  next
    case 2
    show ?thesis using double_finite[of v 1 "s = 1"] v unfolding r unfolding d by (simp add: 2)
  next
    case 3
    have "int E \<noteq> 2047" "int E \<noteq> 0" using 3 by auto
    then show ?thesis
      using double_finite[of "v + 2 ^ 52" E "s = 1"] v 3 unfolding r unfolding d
      by (simp only: add52 if_False if_True) simp
  qed
qed

text \<open>C4: the arithmetic of \<open>double\<close> (an integer multiply and add, the hidden bit, two
  multiplications by a sign and by a power of two, a special case for the largest
  exponent) gives exactly the IEEE double whose high word is \<open>hi\<close> and whose low word
  is \<open>lo\<close>: normal and subnormal numbers, zeros of both signs, infinities and NaN.\<close>

theorem double_bits: "double hi lo = f64_from_bits (word_cat hi lo)"
  by (rule double_word_bits)

subsection \<open>What a disassembly looks like\<close>

definition operand_ok :: "nat \<Rightarrow> slot \<Rightarrow> operand \<Rightarrow> bool" where
  "operand_ok pool_len sl x =
     (case x of Opd_Str r \<Rightarrow> sl = Slot_Operand \<and> pr_off r + pr_len r \<le> pool_len
      | Opd_Reg _ \<Rightarrow> True | _ \<Rightarrow> sl = Slot_Operand)"

definition instr_ok :: "nat \<Rightarrow> instr \<Rightarrow> bool" where
  "instr_ok pool_len i \<longleftrightarrow>
     in_argc i = length (sh_slots (op_shape (in_op i))) \<and> length (in_args i) = MAX_ARGS
     \<and> list_all2 (operand_ok pool_len) (sh_slots (op_shape (in_op i))) (operands_of i)
     \<and> list_all (\<lambda>x. x = Opd_Undef) (drop (in_argc i) (in_args i))
     \<and> (in_dest i \<noteq> None \<longleftrightarrow> sh_dest (op_shape (in_op i)))"

lemma op_shape_slots: "length (sh_slots (op_shape x)) \<le> MAX_ARGS"
  by (cases x) (simp_all add: mk_shape_def)

lemma sweep_operand_ok:
  "sweep_operand sw pc = Inr (x, pc') \<Longrightarrow> operand_ok (sw_pool_len sw) Slot_Operand x"
  by (auto simp: sweep_operand_def operand_ok_def res_simps split: if_splits operand.splits)

lemma sweep_slots_ok:
  "sweep_slots sw ss pc = Inr (xs, pc') \<Longrightarrow> list_all2 (operand_ok (sw_pool_len sw)) ss xs"
  by (induction sw ss pc arbitrary: xs pc' rule: sweep_slots.induct)
    (auto simp: res_simps sweep_operand_ok, auto simp: operand_ok_def)

lemma sweep_instr_ok:
  assumes "sweep_instr sw ops pc = Inr (i, pc')" "pc < 2 ^ 32"
  shows "instr_ok (sw_pool_len sw) i" "in_pc i = pc"
proof -
  obtain xs where xs: "list_all2 (operand_ok (sw_pool_len sw)) (sh_slots (op_shape (in_op i))) xs"
    and i: "in_args i = xs @ replicate (MAX_ARGS - length xs) Opd_Undef"
      "in_argc i = length (sh_slots (op_shape (in_op i)))" "in_pc i = pc"
      "in_dest i \<noteq> None \<longleftrightarrow> sh_dest (op_shape (in_op i))"
    using assms by (auto simp: sweep_instr_def Let_def res_simps sweep_dest_def dest!: sweep_slots_ok
        split: if_splits)
  have "length xs = length (sh_slots (op_shape (in_op i)))" using list_all2_lengthD[OF xs] by simp
  then show "instr_ok (sw_pool_len sw) i"
    using xs i op_shape_slots[of "in_op i"] by (simp add: instr_ok_def operands_of_def list_all_iff)
  show "in_pc i = pc" by fact
qed

text \<open>The sweep appends the instructions of the words from \<open>pc\<close> on, at rising positions.\<close>

lemma sweep_loop_spec:
  assumes "sweep_loop sw ops key pc instrs = Inr (pc', out)" "key < 2 ^ 32"
  shows "\<exists>is. out = instrs @ is \<and> list_all (instr_ok (sw_pool_len sw)) is \<and> ascending in_pc is
    \<and> list_all (\<lambda>i. pc \<le> in_pc i \<and> in_pc i < key) is"
  using assms
proof (induction sw ops key pc instrs rule: sweep_loop.induct)
  case (1 sw ops key pc instrs)
  show ?case
  proof (cases "pc < key")
    case False
    then show ?thesis using "1.prems" by (subst (asm) sweep_loop.simps) (simp add: ascending_def)
  next
    case True
    then obtain i p where i: "sweep_instr sw ops pc = Inr (i, p)"
      and rest: "sweep_loop sw ops key p (instrs @ [i]) = Inr (pc', out)"
      using "1.prems" by (subst (asm) sweep_loop.simps) (auto split: sum.splits)
    obtain "is" where is': "out = (instrs @ [i]) @ is" "list_all (instr_ok (sw_pool_len sw)) is"
      "ascending in_pc is" "list_all (\<lambda>i. p \<le> in_pc i \<and> in_pc i < key) is"
      using "1.IH"[OF True i refl rest] "1.prems" by blast
    have "pc < p" using sweep_instr_progress[OF i] .
    moreover have "instr_ok (sw_pool_len sw) i" "in_pc i = pc"
      using sweep_instr_ok[OF i] True "1.prems" by auto
    ultimately show ?thesis
      using is' True by (intro exI[of _ "i # is"]) (fastforce simp: ascending_def list_all_iff)
  qed
qed

subsection \<open>Assembling a program\<close>

text \<open>
  The words that an instruction is written as. An operand slot can hold a register
  only when its word is no tag; a register word must be even so that it does not
  read as an integer.
\<close>

definition reg_word :: "nat \<Rightarrow> nat \<Rightarrow> i32" where
  "reg_word shift r = word_of_nat (r * 2 ^ shift)"

definition encode_operand :: "tags \<Rightarrow> nat \<Rightarrow> operand \<Rightarrow> i32 list" where
  "encode_operand tg shift x =
     (case x of
        Opd_Int i \<Rightarrow> [push_bit 1 i OR 1]
      | Opd_Str r \<Rightarrow> [tag_string tg, word_of_nat (pr_len r), word_of_nat (pr_off r)]
      | Opd_Dbl d \<Rightarrow> [tag_double tg, ucast (drop_bit 32 (f64_to_bits d)), ucast (f64_to_bits d)]
      | Opd_True \<Rightarrow> [tag_true tg]
      | Opd_False \<Rightarrow> [tag_false tg]
      | Opd_Null \<Rightarrow> [tag_null tg]
      | Opd_Undef \<Rightarrow> [tag_undefined tg]
      | Opd_Reg r \<Rightarrow> [reg_word shift r])"

definition op_word :: "op list \<Rightarrow> op \<Rightarrow> i32" where
  "op_word ops x = (case position (\<lambda>y. y = x) ops of Some k \<Rightarrow> word_of_nat k | None \<Rightarrow> 0)"

definition encode_dest :: "nat \<Rightarrow> nat option \<Rightarrow> i32 list" where
  "encode_dest shift d = (case d of None \<Rightarrow> [] | Some r \<Rightarrow> [reg_word shift r])"

definition encode_instr :: "build_model \<Rightarrow> instr \<Rightarrow> i32 list" where
  "encode_instr model i =
     op_word (bm_ops model) (in_op i)
       # concat (map (encode_operand (bm_tags model) (bm_reg_shift model)) (operands_of i))
       @ encode_dest (bm_reg_shift model) (in_dest i)"

definition tag_list :: "tags \<Rightarrow> i32 list" where
  "tag_list tg = [tag_string tg, tag_double tg, tag_true tg, tag_false tg, tag_null tg, tag_undefined tg]"

definition tags_ok :: "tags \<Rightarrow> bool" where
  "tags_ok tg \<longleftrightarrow> distinct (tag_list tg) \<and> list_all (\<lambda>w. w AND 1 = 0) (tag_list tg)"

definition encodable :: "tags \<Rightarrow> nat \<Rightarrow> slot \<Rightarrow> operand \<Rightarrow> bool" where
  "encodable tg shift sl x =
     (case x of
        Opd_Int i \<Rightarrow> sl = Slot_Operand \<and> - (2 ^ 30) \<le> sint i \<and> sint i < 2 ^ 30
      | Opd_Dbl d \<Rightarrow> sl = Slot_Operand \<and> f64_wf d
      | Opd_Reg r \<Rightarrow> r * 2 ^ shift < 2 ^ 31
          \<and> (sl = Slot_Operand \<longrightarrow> reg_word shift r \<notin> set (tag_list tg))
      | _ \<Rightarrow> sl = Slot_Operand)"

definition instr_encodable :: "build_model \<Rightarrow> instr \<Rightarrow> bool" where
  "instr_encodable model i \<longleftrightarrow>
     in_op i \<in> set (bm_ops model)
     \<and> list_all2 (encodable (bm_tags model) (bm_reg_shift model)) (sh_slots (op_shape (in_op i))) (operands_of i)
     \<and> (case in_dest i of None \<Rightarrow> True | Some r \<Rightarrow> r * 2 ^ bm_reg_shift model < 2 ^ 31)"

text \<open>Each instruction knows its position.\<close>

fun placed :: "build_model \<Rightarrow> nat \<Rightarrow> instr list \<Rightarrow> bool" where
  "placed model pc [] \<longleftrightarrow> True"
| "placed model pc (i # is) \<longleftrightarrow> in_pc i = pc \<and> placed model (pc + length (encode_instr model i)) is"

lemma f64_bits_roundtrip:
  assumes "f64_wf x"
  shows "f64_from_bits (f64_to_bits x) = x"
proof (cases x)
  case FNan
  have "unat (0x7FF8000000000000 :: u64) = 0 * 2 ^ 63 + 2047 * 2 ^ 52 + 2 ^ 51" by simp
  from f64_from_bits_number[OF this] FNan show ?thesis by (simp add: f64_to_bits_def)
next
  case (FInf s)
  have "unat (0xFFF0000000000000 :: u64) = 1 * 2 ^ 63 + 2047 * 2 ^ 52 + 0"
    "unat (0x7FF0000000000000 :: u64) = 0 * 2 ^ 63 + 2047 * 2 ^ 52 + 0" by simp_all
  from this[THEN f64_from_bits_number] FInf show ?thesis by (simp add: f64_to_bits_def)
next
  case (FFin s m e)
  define S :: nat where "S = (if s then 1 else 0)"
  define E :: nat where "E = (if m < 2 ^ 52 then 0 else nat (e + 1075))"
  define F :: nat where "F = (if m < 2 ^ 52 then m else m - 2 ^ 52)"
  have b: "S < 2" "E < 2047" "F < 2 ^ 52" using assms FFin by (auto simp: S_def E_def F_def f64_wf_def)
  then have "S * 2 ^ 63 + E * 2 ^ 52 + F < 2 ^ 64" by simp
  then have "unat (word_of_nat (S * 2 ^ 63 + E * 2 ^ 52 + F) :: u64) = S * 2 ^ 63 + E * 2 ^ 52 + F"
    by (intro unat_of_nat_small) simp
  moreover have "f64_to_bits x = word_of_nat (S * 2 ^ 63 + E * 2 ^ 52 + F)"
    unfolding f64_to_bits_def FFin f64.case by (rule arg_cong[of _ _ word_of_nat]) (simp add: S_def E_def F_def)
  ultimately have "unat (f64_to_bits x) = S * 2 ^ 63 + E * 2 ^ 52 + F" by simp
  from f64_from_bits_number[OF this] b show ?thesis
    using assms FFin by (auto simp: S_def E_def F_def f64_wf_def)
qed

lemma word_cat_halves: "word_cat (ucast (drop_bit 32 (w :: u64)) :: i32) (ucast w :: i32) = w"
  by (rule bit_word_eqI) (auto simp: bit_word_cat_iff bit_ucast_iff bit_drop_bit_eq)

lemma reg_word:
  assumes "r * 2 ^ shift < 2 ^ 31"
  shows "0 \<le> sint (reg_word shift r)" "unat (signed_drop_bit shift (reg_word shift r)) = r"
    and "shift \<noteq> 0 \<Longrightarrow> reg_word shift r AND 1 = 0"
proof -
  have r: "r < 2 ^ 31"
    using assms by (metis less_le_trans mult.right_neutral mult_le_mono2 one_le_numeral one_le_power not_less)
  have "unat (reg_word shift r) = r * 2 ^ shift"
    unfolding reg_word_def using assms by (intro unat_of_nat_small) simp
  then have s: "sint (reg_word shift r) = int (r * 2 ^ shift)" using assms by (simp only: sint_small)
  then show "0 \<le> sint (reg_word shift r)" by simp
  have "sint (signed_drop_bit shift (reg_word shift r)) = int r"
    by (simp add: sint_signed_drop_bit_eq s drop_bit_eq_div)
  then have "signed_drop_bit shift (reg_word shift r) = word_of_nat r"
    by (metis of_int_of_nat_eq of_int_sint scast_id)
  then show "unat (signed_drop_bit shift (reg_word shift r)) = r" using r by (simp add: unat_of_nat_small)
  show "reg_word shift r AND 1 = 0" if "shift \<noteq> 0"
    using that and_exp_eq_0_iff_not_bit[of "reg_word shift r" 0] by (simp add: reg_word_def bit_0)
qed

lemma int_word:
  assumes "- (2 ^ 30) \<le> sint i" "sint i < 2 ^ 30"
  shows "(push_bit 1 i OR 1) AND 1 \<noteq> (0 :: i32)" "signed_drop_bit 1 (push_bit 1 i OR 1) = (i :: i32)"
proof -
  show "(push_bit 1 i OR 1) AND 1 \<noteq> (0 :: i32)"
    using and_exp_eq_0_iff_not_bit[of "push_bit 1 i OR 1" 0] by (simp add: bit_or_iff)
  have sb: "bit i n \<longleftrightarrow> sint i < 0" if "30 \<le> n" "n < 32" for n
  proof -
    have "bit i n \<longleftrightarrow> bit (sint i) n" using that by (simp add: bit_sint_iff)
    also have "\<dots> \<longleftrightarrow> sint i < 0"
    proof (cases "sint i < 0")
      case True
      have "\<not> bit (- sint i - 1) n"
      proof -
        have "(2::int) ^ 30 \<le> 2 ^ n" using that by (intro power_increasing) auto
        then have "- sint i - 1 < 2 ^ n" using assms by linarith
        then show ?thesis using True by (simp add: bit_iff_odd)
      qed
      then show ?thesis using True bit_not_int_iff'[of "- sint i - 1" n] by (simp add: possible_bit_def)
    next
      case False
      have "(2::int) ^ 30 \<le> 2 ^ n" using that by (intro power_increasing) auto
      then have "sint i < 2 ^ n" using assms by linarith
      then show ?thesis using False by (simp add: bit_iff_odd)
    qed
    finally show ?thesis .
  qed
  show "signed_drop_bit 1 (push_bit 1 i OR 1) = (i :: i32)"
  proof (rule bit_word_eqI)
    fix n assume "n < LENGTH(32)"
    then have "bit (push_bit 1 i OR 1) (if n < 31 then n + 1 else 31) \<longleftrightarrow> bit i (if n < 31 then n else 30)"
      by (auto simp: bit_or_iff bit_1_iff mult.commute[of i 2] bit_double_iff)
    moreover have "bit i 31 = bit i 30" using sb by simp
    ultimately show "bit (signed_drop_bit 1 (push_bit 1 i OR 1)) n \<longleftrightarrow> bit i n"
      using \<open>n < LENGTH(32)\<close>
      by (cases "n = 31") (auto simp: bit_signed_drop_bit_iff not_less split: if_splits)
  qed
qed

text \<open>Reading back an operand, the slots, the destination.\<close>

definition sweep_for :: "build_model \<Rightarrow> i32 list \<Rightarrow> nat \<Rightarrow> nat \<Rightarrow> sweep" where
  "sweep_for model code pool_len pc =
     \<lparr>sw_code = code, sw_pool_len = pool_len, sw_tags = bm_tags model, sw_shift = bm_reg_shift model,
      sw_at = pc\<rparr>"

lemma sweep_for_simps [simp]:
  "sw_code (sweep_for m c p q) = c" "sw_pool_len (sweep_for m c p q) = p"
  "sw_tags (sweep_for m c p q) = bm_tags m" "sw_shift (sweep_for m c p q) = bm_reg_shift m"
  "sw_at (sweep_for m c p q) = q" "(sweep_for m c p q)\<lparr>sw_at := q'\<rparr> = sweep_for m c p q'"
  by (simp_all add: sweep_for_def)

lemma sweep_word_at [simp]: "get (sw_code sw) pc = Some w \<Longrightarrow> sweep_word sw pc = Inr w"
  by (simp add: sweep_word_def)

lemma sweep_register_at:
  assumes "words_at code pc [reg_word (bm_reg_shift model) r]" "r * 2 ^ bm_reg_shift model < 2 ^ 31"
  shows "sweep_register (sweep_for model code pool_len at0) pc = Inr (r, pc + 1)"
  using assms reg_word[OF assms(2)]
  by (simp add: sweep_register_def sweep_word_def sweep_reg_def)

lemma sweep_operand_at:
  assumes "words_at code pc (encode_operand (bm_tags model) (bm_reg_shift model) x)"
    and "encodable (bm_tags model) (bm_reg_shift model) Slot_Operand x"
    and "operand_ok pool_len Slot_Operand x" "tags_ok (bm_tags model)" "bm_reg_shift model \<noteq> 0" "pool_len < 2 ^ 31"
  shows "sweep_operand (sweep_for model code pool_len at0) pc
    = Inr (x, pc + length (encode_operand (bm_tags model) (bm_reg_shift model) x))"
proof -
  note small = small_word
  have tg: "w AND 1 = 0" if "w \<in> set (tag_list (bm_tags model))" for w
    using assms(4) that by (simp add: tags_ok_def list_all_iff)
  define T where "T = bm_tags model"
  have ne: "tag_true T \<noteq> tag_string T" "tag_null T \<noteq> tag_string T" "tag_null T \<noteq> tag_true T"
    "tag_false T \<noteq> tag_string T" "tag_false T \<noteq> tag_true T" "tag_false T \<noteq> tag_null T"
    "tag_undefined T \<noteq> tag_string T" "tag_undefined T \<noteq> tag_true T" "tag_undefined T \<noteq> tag_null T"
    "tag_undefined T \<noteq> tag_false T" "tag_double T \<noteq> tag_string T" "tag_double T \<noteq> tag_true T"
    "tag_double T \<noteq> tag_null T" "tag_double T \<noteq> tag_false T" "tag_double T \<noteq> tag_undefined T"
    using assms(4) by (auto simp: tags_ok_def tag_list_def T_def)
  note ds = ne[unfolded T_def]
  show ?thesis
  proof (cases x)
    case (Opd_Int i)
    then show ?thesis
      using assms int_word[of i]
      by (simp add: sweep_operand_def sweep_word_def encode_operand_def encodable_def)
  next
    case (Opd_Str r)
    then show ?thesis
      using assms tg[of "tag_string (bm_tags model)"] small[of "pr_off r"] small[of "pr_len r"]
      by (simp add: sweep_operand_def sweep_word_def encode_operand_def operand_ok_def tag_list_def)
  next
    case (Opd_Reg r)
    then show ?thesis
      using assms reg_word[of r "bm_reg_shift model"]
      by (simp add: sweep_operand_def sweep_word_def sweep_reg_def encode_operand_def encodable_def tag_list_def)
  next
    case (Opd_Dbl d)
    have "tag_double (bm_tags model) AND 1 = 0" by (rule tg) (simp add: tag_list_def)
    then show ?thesis
      using assms ds f64_bits_roundtrip[of d] unfolding Opd_Dbl
      by (simp add: sweep_operand_def sweep_word_def encode_operand_def encodable_def tag_list_def
          double_word_bits word_cat_halves)
  qed (use assms tg ds in \<open>simp_all add: sweep_operand_def sweep_word_def encode_operand_def tag_list_def\<close>)
qed

lemma encode_operand_reg [simp]: "encode_operand tg shift (Opd_Reg r) = [reg_word shift r]"
  by (simp add: encode_operand_def)

lemma sweep_slots_at:
  assumes "tags_ok (bm_tags model)" "bm_reg_shift model \<noteq> 0" "pool_len < 2 ^ 31"
  shows "words_at code pc (concat (map (encode_operand (bm_tags model) (bm_reg_shift model)) xs))
    \<Longrightarrow> list_all2 (encodable (bm_tags model) (bm_reg_shift model)) ss xs
    \<Longrightarrow> list_all2 (operand_ok pool_len) ss xs
    \<Longrightarrow> sweep_slots (sweep_for model code pool_len at0) ss pc
      = Inr (xs, pc + length (concat (map (encode_operand (bm_tags model) (bm_reg_shift model)) xs)))"
proof (induction ss arbitrary: xs pc)
  case (Cons sl ss)
  then obtain x ys where xs: "xs = x # ys" by (cases xs) auto
  show ?case
  proof (cases sl)
    case Slot_Operand
    then show ?thesis
      using Cons.IH[of _ ys] Cons.prems assms sweep_operand_at[of code pc model x pool_len at0]
      by (simp add: xs add.assoc)
  next
    case Slot_Register
    then obtain r where "x = Opd_Reg r" "r * 2 ^ bm_reg_shift model < 2 ^ 31"
      using Cons.prems by (cases x) (auto simp: xs operand_ok_def encodable_def)
    then show ?thesis
      using Cons.IH[of _ ys] Cons.prems Slot_Register sweep_register_at[of code pc model r pool_len at0]
      by (simp add: xs)
  qed
qed simp

lemma sweep_dest_at:
  assumes "words_at code pc (encode_dest (bm_reg_shift model) d)"
    and "case d of None \<Rightarrow> True | Some r \<Rightarrow> r * 2 ^ bm_reg_shift model < 2 ^ 31"
  shows "sweep_dest (sweep_for model code pool_len at0) (d \<noteq> None) pc
    = Inr (d, pc + length (encode_dest (bm_reg_shift model) d))"
  using assms sweep_register_at[of code pc model _ pool_len at0]
  by (cases d) (simp_all add: sweep_dest_def encode_dest_def)

lemma instr_args:
  assumes "instr_ok pool_len i"
  shows "in_args i = operands_of i @ replicate (MAX_ARGS - length (operands_of i)) Opd_Undef"
proof -
  have "drop (in_argc i) (in_args i) = replicate (length (drop (in_argc i) (in_args i))) Opd_Undef"
    using assms by (intro replicate_eqI[symmetric, THEN sym] ) (auto simp: instr_ok_def list_all_iff)
  moreover have "length (in_args i) = MAX_ARGS" "in_argc i \<le> MAX_ARGS"
    using assms op_shape_slots[of "in_op i"] by (auto simp: instr_ok_def)
  ultimately show ?thesis using append_take_drop_id[of "in_argc i" "in_args i"]
    by (simp add: operands_of_def)
qed

lemma op_word_index:
  assumes "x \<in> set ops" "length ops \<le> HANDLER_COUNT"
  shows "unat (op_word ops x) < HANDLER_COUNT" "ops ! unat (op_word ops x) = x"
proof -
  obtain k where k: "position (\<lambda>y. y = x) ops = Some k"
    using assms(1) position_None[of "\<lambda>y. y = x" ops] by fastforce
  then have "k < length ops" "ops ! k = x" using position_Some[OF k] by auto
  moreover have "unat (word_of_nat k :: i32) = k"
    using calculation assms(2) by (intro unat_of_nat_small) simp
  ultimately show "unat (op_word ops x) < HANDLER_COUNT" "ops ! unat (op_word ops x) = x"
    using assms(2) by (simp_all add: op_word_def k)
qed

lemma sweep_instr_at:
  assumes "words_at code pc (encode_instr model i)" "instr_encodable model i" "instr_ok pool_len i"
    and "in_pc i = pc" "pc < 2 ^ 32" "length (bm_ops model) \<le> HANDLER_COUNT"
    and "tags_ok (bm_tags model)" "bm_reg_shift model \<noteq> 0" "pool_len < 2 ^ 31"
  shows "sweep_instr (sweep_for model code pool_len at0) (bm_ops model) pc
    = Inr (i, pc + length (encode_instr model i))"
proof -
  note w = assms(1)[unfolded encode_instr_def words_at_Cons words_at_append]
  have op: "unat (code ! pc) < HANDLER_COUNT" "bm_ops model ! unat (code ! pc) = in_op i"
    using w assms(2,6) op_word_index[of "in_op i" "bm_ops model"] by (auto simp: instr_encodable_def)
  have slots: "sweep_slots (sweep_for model code pool_len pc) (sh_slots (op_shape (in_op i))) (pc + 1)
      = Inr (operands_of i, pc + 1 + length (concat (map (encode_operand (bm_tags model) (bm_reg_shift model))
          (operands_of i))))"
    using w assms by (intro sweep_slots_at) (auto simp: instr_encodable_def instr_ok_def)
  have dest: "sh_dest (op_shape (in_op i)) \<longleftrightarrow> in_dest i \<noteq> None" using assms(3) by (simp add: instr_ok_def)
  have "\<lparr>in_pc = pc, in_op = in_op i, in_argc = length (sh_slots (op_shape (in_op i))),
      in_args = operands_of i @ replicate (MAX_ARGS - length (operands_of i)) Opd_Undef,
      in_dest = in_dest i\<rparr> = i"
    using assms(3,4) instr_args[OF assms(3)] by (simp add: instr_ok_def)
  then show ?thesis
    using op slots w assms(2,5) sweep_dest_at[of code "pc + 1 + length (concat (map
        (encode_operand (bm_tags model) (bm_reg_shift model)) (operands_of i)))" model "in_dest i" pool_len pc]
    by (simp add: sweep_instr_def Let_def instr_encodable_def dest encode_instr_def)
qed

lemma sweep_loop_at:
  assumes "length (bm_ops model) \<le> HANDLER_COUNT" "tags_ok (bm_tags model)" "bm_reg_shift model \<noteq> 0"
    and "pool_len < 2 ^ 31" "length code < 2 ^ 32"
  shows "words_at code pc (concat (map (encode_instr model) is)) \<Longrightarrow> list_all (instr_encodable model) is
    \<Longrightarrow> list_all (instr_ok pool_len) is \<Longrightarrow> placed model pc is
    \<Longrightarrow> key = pc + length (concat (map (encode_instr model) is))
    \<Longrightarrow> sweep_loop (sweep_for model code pool_len at0) (bm_ops model) key pc instrs = Inr (key, instrs @ is)"
proof (induction "is" arbitrary: pc instrs)
  case Nil
  then show ?case by (simp add: sweep_loop.simps)
next
  case (Cons i "is")
  have "pc < key" using Cons.prems by (simp add: encode_instr_def)
  moreover have "pc < length code" using Cons.prems by (simp add: encode_instr_def)
  moreover have "sweep_instr (sweep_for model code pool_len at0) (bm_ops model) pc
      = Inr (i, pc + length (encode_instr model i))"
    using Cons.prems assms calculation by (intro sweep_instr_at) simp_all
  ultimately show ?case using Cons by (subst sweep_loop.simps) (simp add: add.assoc)
qed

subsection \<open>Lookup by position\<close>

text \<open>The later stages find the instruction at a position by binary search (\<open>instr_index\<close>).\<close>

definition listing :: "build_model \<times> decoded \<Rightarrow> instr list option" where
  "listing md = (case disassemble (fst md) (snd md) of Inr instrs \<Rightarrow> Some instrs | Inl _ \<Rightarrow> None)"

lemma disassemble_spec:
  assumes "disassemble model dc = Inr instrs"
  shows "list_all (instr_ok (length (dc_pool dc))) instrs" "ascending in_pc instrs"
    and "list_all (\<lambda>i. bm_entry_pc model \<le> in_pc i \<and> in_pc i < length (dc_code dc) - 1) instrs"
proof -
  define sw where "sw = \<lparr>sw_code = dc_code dc, sw_pool_len = length (dc_pool dc), sw_tags = bm_tags model,
    sw_shift = bm_reg_shift model, sw_at = bm_entry_pc model\<rparr>"
  define key where "key = length (dc_code dc) - 1"
  have "key < 2 ^ 32" "\<exists>pc. sweep_loop sw (bm_ops model) key (bm_entry_pc model) [] = Inr (pc, instrs)"
    using assms by (auto simp: disassemble_def Let_def sw_def key_def res_simps split: if_splits)
  then obtain "is" where "instrs = [] @ is" "list_all (instr_ok (sw_pool_len sw)) is"
      "ascending in_pc is" "list_all (\<lambda>i. bm_entry_pc model \<le> in_pc i \<and> in_pc i < key) is"
    using sweep_loop_spec by blast
  then show "list_all (instr_ok (length (dc_pool dc))) instrs" "ascending in_pc instrs"
    "list_all (\<lambda>i. bm_entry_pc model \<le> in_pc i \<and> in_pc i < length (dc_code dc) - 1) instrs"
    by (simp_all add: sw_def key_def)
qed

interpretation listing_table: keyed_table in_pc listing
  by unfold_locales (auto simp: listing_def disassemble_spec(2) split: sum.splits)

subsection \<open>Properties\<close>

text \<open>C5: a program that disassembles is well formed: every instruction has the operands its
  operation's shape asks for, padded to four with \<open>Undef\<close>, every string operand lies
  inside the pool, a destination is there exactly when the shape has one, and the
  positions rise strictly from the entry and stay below the key word.\<close>

theorem disassemble_wf:
  assumes "disassemble model dc = Inr instrs"
  shows "list_all (instr_ok (length (dc_pool dc))) instrs \<and> ascending in_pc instrs
    \<and> list_all (\<lambda>i. bm_entry_pc model \<le> in_pc i \<and> in_pc i < length (dc_code dc) - 1) instrs"
  using disassemble_spec[OF assms] by blast

definition sample_model :: build_model where
  "sample_model = \<lparr>bm_blob = [], bm_charset = [], bm_radix = 2, bm_multiplier = 3,
     bm_tags = \<lparr>tag_string = 2, tag_double = 4, tag_true = 6, tag_false = 8, tag_null = 10,
       tag_undefined = 12\<rparr>, bm_ops = [Op_Mov, Op_Jmp, Op_Halt], bm_entry_pc = 1, bm_reg_shift = 5\<rparr>"

definition sample_instrs :: "instr list" where
  "sample_instrs =
     [\<lparr>in_pc = 1, in_op = Op_Mov, in_argc = 1,
       in_args = [Opd_Str \<lparr>pr_off = 1, pr_len = 2\<rparr>, Opd_Undef, Opd_Undef, Opd_Undef], in_dest = Some 3\<rparr>,
      \<lparr>in_pc = 6, in_op = Op_Mov, in_argc = 1,
       in_args = [Opd_Reg 3, Opd_Undef, Opd_Undef, Opd_Undef], in_dest = Some 4\<rparr>,
      \<lparr>in_pc = 9, in_op = Op_Halt, in_argc = 0,
       in_args = [Opd_Undef, Opd_Undef, Opd_Undef, Opd_Undef], in_dest = None\<rparr>]"

lemma sample_regs: "unat (signed_drop_bit 5 (96 :: i32)) = 3" "unat (signed_drop_bit 5 (128 :: i32)) = 4"
  using reg_word(2)[of 3 5] reg_word(2)[of 4 5] by (simp_all add: reg_word_def)

lemma replicate_nums: "replicate (numeral k) x = x # replicate (pred_numeral k) x"
  by (simp add: numeral_eq_Suc)

lemma sample_disassemble:
  "disassemble sample_model \<lparr>dc_code = [0, 0, 2, 2, 1, 96, 0, 96, 128, 2, 77], dc_pool = [65, 66, 67]\<rparr>
    = Inr sample_instrs"
  by (simp add: disassemble_def sample_model_def sample_instrs_def sweep_loop.simps sweep_instr_def
      sweep_word_def sweep_register_def sweep_reg_def sweep_operand_def sweep_dest_def mk_shape_def Let_def
      idx_def get_def replicate_nums sample_regs)

theorem disassemble_wf_witness:
  "list_all (instr_ok 3) sample_instrs \<and> ascending in_pc sample_instrs
    \<and> list_all (\<lambda>i. 1 \<le> in_pc i \<and> in_pc i < 10) sample_instrs"
  using disassemble_wf[OF sample_disassemble] by (simp add: sample_model_def eval_nat_numeral)

text \<open>C6: disassembling inverts assembling: any list of encodable, well formed instructions whose
  positions fit is given back from the words it is written as, doubles and
  registers included, wherever the program starts.\<close>

theorem disassemble_assembled:
  assumes "length (bm_ops model) \<le> HANDLER_COUNT" "tags_ok (bm_tags model)"
    and "bm_reg_shift model \<noteq> 0" "bm_reg_shift model < MAX_REG_SHIFT"
    and "words_at (dc_code dc) (bm_entry_pc model) (concat (map (encode_instr model) instrs))"
    and "length (dc_code dc) = bm_entry_pc model + length (concat (map (encode_instr model) instrs)) + 1"
    and "2 \<le> length (dc_code dc)" "length (dc_code dc) < 2 ^ 32" "length (dc_pool dc) < 2 ^ 31"
    and "list_all (instr_encodable model) instrs" "list_all (instr_ok (length (dc_pool dc))) instrs"
    and "placed model (bm_entry_pc model) instrs"
  shows "disassemble model dc = Inr instrs"
proof -
  define key where "key = length (dc_code dc) - 1"
  have "sweep_loop (sweep_for model (dc_code dc) (length (dc_pool dc)) (bm_entry_pc model)) (bm_ops model)
      key (bm_entry_pc model) [] = Inr (key, [] @ instrs)"
    by (rule sweep_loop_at) (use assms in \<open>simp_all add: key_def\<close>)
  moreover have "\<not> (length (dc_code dc) < 2 \<or> 2 ^ 32 - 1 < length (dc_code dc))" "\<not> key < bm_entry_pc model"
    using assms(7,8) by simp (use assms(6) in \<open>simp add: key_def\<close>)
  ultimately show ?thesis
    using assms(4) unfolding disassemble_def Let_def
    by (simp only: if_False res_bind.simps prod.case append_Nil not_le[symmetric] simp_thms flip: sweep_for_def key_def)
qed

theorem disassemble_assembled_witness:
  "disassemble sample_model \<lparr>dc_code = [9, 0, 2, 2, 1, 96, 0, 96, 128, 2, 77], dc_pool = [65, 66, 67]\<rparr>
    = Inr sample_instrs"
  by (rule disassemble_assembled)
    (simp_all add: sample_model_def sample_instrs_def tags_ok_def tag_list_def encode_instr_def op_word_def
      operands_of_def encode_operand_def encode_dest_def reg_word_def instr_encodable_def encodable_def
      instr_ok_def operand_ok_def mk_shape_def)

end
