(* ===== verification/Handlers.thy ===== *)
theory Handlers
  imports Model "HOL-Library.Multiset"
begin

text \<open>
  \<open>src/worktime/handlers.rs\<close>: the functions of the script that implement the
  operations are recognised by a 64-bit FNV-1a fingerprint of their syntax tree in
  which local names are replaced by ordinals and one-letter property names by
  signatures. \<open>TABLE\<close> holds the fingerprints of the 86 operations; \<open>lookup\<close> searches
  the table sorted at compile time.

  The syntax tree and its visitor belong to a parser library. A tree here is what
  the visitor shows: the numeric tag of each node, the data of the kinds that the
  hasher reads, and the children in visiting order; entering and leaving a node are
  the events of a walk.
\<close>

subsection \<open>The table\<close>

definition TABLE :: "u64 list" where
  "TABLE =
    [0x2b28bad6318ebf49, 0x6eb817749ac5eb25, 0x027a7acc530ec154, 0x5941207073432f63,
     0x5e87af38a477df30, 0xc748045fe601a0df, 0x92e4ccfca6d63127, 0x43cf6318d2f6454d,
     0x815fdcd27bd4667d, 0xdf938079c48131ff, 0xe031bcadeba9a046, 0x57a6837436f4a479,
     0x1b1a5aebf5ade1c8, 0x9275ce8bdaec2358, 0x1d14100c7a323610, 0xd51b9eb40518c68d,
     0x62935f9b1b3a3ace, 0x58668e769ffce1e2, 0xb7171ced1ac3bed7, 0xbaf025c7fa7565bd,
     0xb2ead819807401d4, 0x525c8898ac3ebce1, 0xcd3a6ffd1d670f56, 0x584216d399773eaf,
     0xfdb3082d9311c1d9, 0xa56399ba7856cced, 0xcd2b17ecbff18021, 0x44df04335912f3d0,
     0x41ccd339f8d905d3, 0xd9e5ed999797ff1e, 0xa59b13e1a5f46877, 0xf8a46e317d4bec79,
     0x4e32846fdf044a1c, 0x5706fb3ea485c7c0, 0x165579f955a83202, 0xc6511142ad50a308,
     0x37b08f1ea3c56600, 0x76b686ef407a66da, 0xf89b35acf0be29fe, 0x1adeedbc7a4ee6db,
     0xf564120ee78d8cbe, 0xc2450122ec6d2e8b, 0xd0355f4118de5314, 0xb4f214f77b831244,
     0x841bbb14f74cd108, 0xd7273f66229323ee, 0xc09332e1c658f005, 0x97283a545c34ea0a,
     0x60d3102f9bdbe995, 0xbaa50f77833b5e0f, 0x2326f0226fc1fd47, 0x22a4b55d5504b540,
     0xe5fcc6ee16e51955, 0xfdf8e0775ea24e0e, 0x28ae43ed52086bd3, 0x445c9cd9719c67c7,
     0xe678edbf9c0499d3, 0x4082192926d958c4, 0x18650de370a26a96, 0xb766f9ced69d37c4,
     0xc92bbba1bb8891fe, 0xee2c4721a9732125, 0x2bc57ab50ad14ea1, 0x1a4a4dd628b8da42,
     0xb7f92cd70c5cd059, 0xb29273d6fa19b2c0, 0xd604f273854aa450, 0x9c8d51bc57726bd9,
     0x258e224b9f1a3026, 0x3a2f1136b2940837, 0x5346f21e5f149691, 0x7f6ddc82424ef5a0,
     0x851336a77f31f03c, 0xd97ae2859a5bace8, 0x477a3af98552ed79, 0x81b0a20a008954a8,
     0x08df8f161b836c83, 0x3045057457309045, 0x3b69bab129bd8d9f, 0x8c93d31ecfc950e0,
     0x08d8004720e6f54f, 0xa772a00861dd8c7a, 0x315b5b350ba50601, 0xab1983e3bf4f9a8b,
     0xcad6bcd6a4343703, 0x5ac210c3e6c6cd86]"

text \<open>
  \<open>sorted_table\<close>: fill, insertion sort in place, and a scan for duplicates that stops
  the build (\<open>None\<close>). \<open>shift\<close> is the inner loop that moves larger entries up.
\<close>

fun shift :: "(u64 \<times> op) list \<Rightarrow> u64 \<times> op \<Rightarrow> nat \<Rightarrow> (u64 \<times> op) list \<times> nat" where
  "shift out entry 0 = (out, 0)"
| "shift out entry (Suc j) =
     (if fst entry < fst (out ! j) then shift (out[Suc j := out ! j]) entry j else (out, Suc j))"

definition insert_at :: "(u64 \<times> op) list \<Rightarrow> nat \<Rightarrow> (u64 \<times> op) list" where
  "insert_at out i = (let entry = out ! i; (out', j) = shift out entry i in out'[j := entry])"

definition sorted_table :: "(u64 \<times> op) list option" where
  "sorted_table =
     (let out = foldl insert_at (zip TABLE op_all) [1..<HANDLER_COUNT] in
      if list_ex (\<lambda>i. fst (out ! (i - 1)) = fst (out ! i)) [1..<HANDLER_COUNT] then None else Some out)"

definition SORTED :: "(u64 \<times> op) list" where
  "SORTED = (case sorted_table of Some out \<Rightarrow> out | None \<Rightarrow> [])"

definition lookup :: "u64 \<Rightarrow> op option" where
  "lookup fingerprint = map_option (\<lambda>i. snd (SORTED ! i)) (bsearch fst SORTED fingerprint)"

subsection \<open>Syntax trees\<close>

datatype ast_kind =
    K_IdentRef str
  | K_BindingIdent str
  | K_IdentName str
  | K_Label str
  | K_Numeric f64
  | K_String str
  | K_Boolean bool
  | K_RegExp str u8
  | K_Template str
  | K_Binary u8
  | K_Logical u8
  | K_Unary u8
  | K_Update u8 bool
  | K_Assign u8
  | K_VarDecl u8
  | K_ObjectProp u8 bool
  | K_Function bool bool
  | K_Other

datatype ast = Ast u8 ast_kind "ast list"

datatype event = Enter u8 ast_kind | Leave

fun events :: "ast \<Rightarrow> event list" where
  "events (Ast ty k cs) = Enter ty k # concat (map events cs) @ [Leave]"

subsection \<open>The hasher\<close>

abbreviation FNV_OFFSET :: u64 where "FNV_OFFSET \<equiv> 0xcbf29ce484222325"
abbreviation FNV_PRIME :: u64 where "FNV_PRIME \<equiv> 0x00000100000001b3"
abbreviation MARK_LEAVE :: u8 where "MARK_LEAVE \<equiv> 0xff"
abbreviation MARK_BOUND :: u8 where "MARK_BOUND \<equiv> 0xfe"
abbreviation MARK_FREE :: u8 where "MARK_FREE \<equiv> 0xfd"
abbreviation MARK_FIELD :: u8 where "MARK_FIELD \<equiv> 0xfc"

record hasher =
  hs_state :: u64
  hs_ordinals :: "(str \<times> u32) list"
  hs_fields :: "(str \<times> u32) list"
  hs_seen :: "str list"

definition fnv :: "u64 \<Rightarrow> u8 \<Rightarrow> u64" where
  "fnv st b = (st XOR ucast b) * FNV_PRIME"

definition hs_byte :: "u8 \<Rightarrow> hasher \<Rightarrow> hasher" where
  "hs_byte b h = h\<lparr>hs_state := fnv (hs_state h) b\<rparr>"

definition hs_bytes :: "u8 list \<Rightarrow> hasher \<Rightarrow> hasher" where
  "hs_bytes bs h = h\<lparr>hs_state := foldl fnv (hs_state h) bs\<rparr>"

definition hs_word :: "u64 \<Rightarrow> hasher \<Rightarrow> hasher" where
  "hs_word w h = hs_bytes (to_le_bytes w) h"

definition hs_text :: "str \<Rightarrow> hasher \<Rightarrow> hasher" where
  "hs_text s h = hs_bytes (as_bytes s) (hs_word (of_nat (length (as_bytes s))) h)"

text \<open>The signatures are absent in the local pass and present in the global one.\<close>

definition hs_field :: "(str \<rightharpoonup> u64) option \<Rightarrow> str \<Rightarrow> hasher \<Rightarrow> hasher" where
  "hs_field signatures name h =
     (if length (as_bytes name) \<noteq> 1 then hs_text name h
      else let h1 = hs_byte MARK_FIELD h in
        case signatures of
          Some sigs \<Rightarrow> hs_word (case sigs name of Some w \<Rightarrow> w | None \<Rightarrow> 0) h1
        | None \<Rightarrow>
            let (ordinal, fields) = or_insert name (of_nat (length (hs_fields h1))) (hs_fields h1);
                h2 = hs_bytes (to_le_bytes ordinal) (h1\<lparr>hs_fields := fields\<rparr>)
            in h2\<lparr>hs_seen := hs_seen h2 @ [name]\<rparr>)"

definition hs_ident :: "str set \<Rightarrow> str \<Rightarrow> hasher \<Rightarrow> hasher" where
  "hs_ident bound name h =
     (if name \<in> bound
      then let (ordinal, ordinals) = or_insert name (of_nat (length (hs_ordinals h))) (hs_ordinals h)
        in hs_bytes (to_le_bytes ordinal) (hs_byte MARK_BOUND (h\<lparr>hs_ordinals := ordinals\<rparr>))
      else hs_text name (hs_byte MARK_FREE h))"

definition byte_of_bool :: "bool \<Rightarrow> u8" where
  "byte_of_bool b = (if b then 1 else 0)"

definition enter_node :: "str set \<Rightarrow> (str \<rightharpoonup> u64) option \<Rightarrow> u8 \<Rightarrow> ast_kind \<Rightarrow> hasher \<Rightarrow> hasher" where
  "enter_node bound signatures ty kind h0 =
     (let h = hs_byte ty h0 in
      case kind of
        K_IdentRef name \<Rightarrow> hs_ident bound name h
      | K_BindingIdent name \<Rightarrow> hs_ident bound name h
      | K_IdentName name \<Rightarrow> hs_field signatures name h
      | K_Label name \<Rightarrow> hs_text name h
      | K_Numeric v \<Rightarrow> hs_word (f64_to_bits v) h
      | K_String s \<Rightarrow> hs_text s h
      | K_Boolean b \<Rightarrow> hs_byte (byte_of_bool b) h
      | K_RegExp s flags \<Rightarrow> hs_word (ucast flags) (hs_text s h)
      | K_Template s \<Rightarrow> hs_text s h
      | K_Binary x \<Rightarrow> hs_byte x h
      | K_Logical x \<Rightarrow> hs_byte x h
      | K_Unary x \<Rightarrow> hs_byte x h
      | K_Update x pre \<Rightarrow> hs_byte (byte_of_bool pre) (hs_byte x h)
      | K_Assign x \<Rightarrow> hs_byte x h
      | K_VarDecl x \<Rightarrow> hs_byte x h
      | K_ObjectProp x computed \<Rightarrow> hs_byte (byte_of_bool computed) (hs_byte x h)
      | K_Function gen asyn \<Rightarrow> hs_byte (byte_of_bool asyn) (hs_byte (byte_of_bool gen) h)
      | K_Other \<Rightarrow> h)"

definition leave_node :: "hasher \<Rightarrow> hasher" where
  "leave_node h = hs_byte MARK_LEAVE h"

fun hash_event :: "str set \<Rightarrow> (str \<rightharpoonup> u64) option \<Rightarrow> hasher \<Rightarrow> event \<Rightarrow> hasher" where
  "hash_event bound signatures h (Enter ty kind) = enter_node bound signatures ty kind h"
| "hash_event bound signatures h Leave = leave_node h"

subsection \<open>Canonicalizer\<close>

text \<open>
  \<open>bind_event\<close> is the first walk, which collects the bound names; \<open>hash_func\<close> clears the
  state, runs both walks and returns the hasher: \<open>hs_state\<close> is the result of \<open>hash\<close> and
  \<open>hs_seen\<close> what \<open>prepare\<close> reads afterwards.
\<close>

fun bind_event :: "str set \<Rightarrow> event \<Rightarrow> str set" where
  "bind_event bound (Enter ty (K_BindingIdent name)) = insert name bound"
| "bind_event bound _ = bound"

definition hash_func :: "(str \<rightharpoonup> u64) option \<Rightarrow> ast \<Rightarrow> hasher" where
  "hash_func signatures func =
     (let bound = foldl bind_event {} (events func)
      in foldl (hash_event bound signatures)
           \<lparr>hs_state = FNV_OFFSET, hs_ordinals = [], hs_fields = [], hs_seen = []\<rparr> (events func))"

definition add_signature :: "u64 \<Rightarrow> (str \<rightharpoonup> u64) \<Rightarrow> nat \<times> str \<Rightarrow> (str \<rightharpoonup> u64)" where
  "add_signature local sigs pn =
     (let (position, name) = pn;
          mix = foldl fnv FNV_OFFSET (to_le_bytes local @ to_le_bytes (of_nat position :: u64))
      in sigs(name \<mapsto> (case sigs name of Some w \<Rightarrow> w | None \<Rightarrow> 0) + mix))"

definition prepare_func :: "(str \<rightharpoonup> u64) \<Rightarrow> ast \<Rightarrow> (str \<rightharpoonup> u64)" where
  "prepare_func sigs func =
     (let h = hash_func None func
      in foldl (add_signature (hs_state h)) sigs (enumerate 0 (hs_seen h)))"

definition prepare :: "ast list \<Rightarrow> (str \<rightharpoonup> u64)" where
  "prepare funcs = foldl prepare_func Map.empty funcs"

definition fingerprint :: "(str \<rightharpoonup> u64) \<Rightarrow> ast \<Rightarrow> u64" where
  "fingerprint sigs func = hs_state (hash_func (Some sigs) func)"

subsection \<open>The sorted table\<close>

lemma shift_spec:
  "shift (xs @ y # zs) e (length xs) = (out, j) \<Longrightarrow>
    \<exists>as bs. xs = as @ bs \<and> out[j := e] = as @ e # bs @ zs \<and> (\<forall>b \<in> set bs. fst e < fst b)
      \<and> (as \<noteq> [] \<longrightarrow> fst (last as) \<le> fst e)"
proof (induction xs arbitrary: y zs rule: rev_induct)
  case Nil
  then show ?case by auto
next
  case (snoc x xs)
  show ?case
  proof (cases "fst e < fst x")
    case True
    then have "shift (xs @ x # x # zs) e (length xs) = (out, j)"
      using snoc.prems by (simp add: nth_append list_update_append)
    from snoc.IH[OF this] obtain as bs where "xs = as @ bs" "out[j := e] = as @ e # bs @ x # zs"
      "\<forall>b \<in> set bs. fst e < fst b" "as \<noteq> [] \<longrightarrow> fst (last as) \<le> fst e" by blast
    then show ?thesis using True by (intro exI[of _ as] exI[of _ "bs @ [x]"]) auto
  next
    case False
    then show ?thesis
      using snoc.prems by (intro exI[of _ "xs @ [x]"] exI[of _ "[]"])
        (auto simp: nth_append list_update_append)
  qed
qed

lemma insert_at_sorted:
  assumes "i < length out" "sorted (map fst (take i out))"
  shows "mset (insert_at out i) = mset out" "sorted (map fst (take (Suc i) (insert_at out i)))"
proof -
  define xs zs where "xs = take i out" and "zs = drop (Suc i) out"
  have out: "out = xs @ (out ! i) # zs" "length xs = i"
    using assms(1) by (simp_all add: xs_def zs_def flip: id_take_nth_drop)
  obtain out' j where sh: "shift out (out ! i) i = (out', j)" by fastforce
  then obtain as bs where ab: "xs = as @ bs" "out'[j := out ! i] = as @ out ! i # bs @ zs"
      "\<forall>b \<in> set bs. fst (out ! i) < fst b" "as \<noteq> [] \<longrightarrow> fst (last as) \<le> fst (out ! i)"
    using shift_spec[of xs "out ! i" zs "out ! i" out' j] out by metis
  have ins: "insert_at out i = as @ out ! i # bs @ zs" using sh ab(2) by (simp add: insert_at_def Let_def)
  have "mset out = mset (xs @ (out ! i) # zs)" using out(1) by simp
  then show "mset (insert_at out i) = mset out" by (simp add: ins ab(1))
  have s: "sorted (map fst as)" "sorted (map fst bs)" "\<forall>a \<in> set as. \<forall>b \<in> set bs. fst a \<le> fst b"
    using assms(2) by (auto simp: sorted_append ab(1) simp flip: xs_def)
  have "\<forall>a \<in> set as. fst a \<le> fst (out ! i)"
  proof
    fix a assume "a \<in> set as"
    moreover from this have "fst a \<le> fst (last as)"
      using s(1) by (cases as rule: rev_cases) (auto simp: sorted_append)
    ultimately show "fst a \<le> fst (out ! i)" using ab(4) by fastforce
  qed
  moreover have "Suc i = length (as @ out ! i # bs)" using out(2) ab(1) by simp
  then have "take (Suc i) (insert_at out i) = as @ out ! i # bs" by (simp only: ins) simp
  ultimately show "sorted (map fst (take (Suc i) (insert_at out i)))"
    using s ab(3) by (auto simp: sorted_append less_imp_le)
qed

lemma insertion_sort:
  "i \<le> length out \<Longrightarrow> n = length out \<Longrightarrow> sorted (map fst (take i out)) \<Longrightarrow>
    mset (foldl insert_at out [i..<n]) = mset out \<and> sorted (map fst (foldl insert_at out [i..<n]))"
proof (induction "n - i" arbitrary: i out)
  case 0
  then show ?case by simp
next
  case (Suc k)
  have len: "length (insert_at out i) = length out"
    using insert_at_sorted(1)[of i out] Suc.prems Suc.hyps by (metis size_mset zero_less_Suc zero_less_diff)
  have "mset (foldl insert_at (insert_at out i) [Suc i..<n]) = mset (insert_at out i)
      \<and> sorted (map fst (foldl insert_at (insert_at out i) [Suc i..<n]))"
    using Suc.hyps(2) Suc.prems insert_at_sorted(2)[of i out] len by (intro Suc.hyps(1)) auto
  then show ?case
    using Suc.hyps(2) Suc.prems insert_at_sorted(1)[of i out] by (simp add: upt_conv_Cons)
qed

lemma insertion_sort_from_1:
  assumes "0 < n" "n = length out"
  shows "mset (foldl insert_at out [1..<n]) = mset out \<and> sorted (map fst (foldl insert_at out [1..<n]))"
proof (rule insertion_sort)
  show "sorted (map fst (take 1 out))" using assms by (cases out) auto
qed (use assms in \<open>auto simp: Suc_le_eq\<close>)

lemma length_TABLE: "length TABLE = HANDLER_COUNT"
  by (simp add: TABLE_def)

lemma length_op_all: "length op_all = HANDLER_COUNT"
  by (simp add: op_all_def)

lemma TABLE_unat: "map unat TABLE =
    [0x2b28bad6318ebf49, 0x6eb817749ac5eb25, 0x027a7acc530ec154, 0x5941207073432f63,
     0x5e87af38a477df30, 0xc748045fe601a0df, 0x92e4ccfca6d63127, 0x43cf6318d2f6454d,
     0x815fdcd27bd4667d, 0xdf938079c48131ff, 0xe031bcadeba9a046, 0x57a6837436f4a479,
     0x1b1a5aebf5ade1c8, 0x9275ce8bdaec2358, 0x1d14100c7a323610, 0xd51b9eb40518c68d,
     0x62935f9b1b3a3ace, 0x58668e769ffce1e2, 0xb7171ced1ac3bed7, 0xbaf025c7fa7565bd,
     0xb2ead819807401d4, 0x525c8898ac3ebce1, 0xcd3a6ffd1d670f56, 0x584216d399773eaf,
     0xfdb3082d9311c1d9, 0xa56399ba7856cced, 0xcd2b17ecbff18021, 0x44df04335912f3d0,
     0x41ccd339f8d905d3, 0xd9e5ed999797ff1e, 0xa59b13e1a5f46877, 0xf8a46e317d4bec79,
     0x4e32846fdf044a1c, 0x5706fb3ea485c7c0, 0x165579f955a83202, 0xc6511142ad50a308,
     0x37b08f1ea3c56600, 0x76b686ef407a66da, 0xf89b35acf0be29fe, 0x1adeedbc7a4ee6db,
     0xf564120ee78d8cbe, 0xc2450122ec6d2e8b, 0xd0355f4118de5314, 0xb4f214f77b831244,
     0x841bbb14f74cd108, 0xd7273f66229323ee, 0xc09332e1c658f005, 0x97283a545c34ea0a,
     0x60d3102f9bdbe995, 0xbaa50f77833b5e0f, 0x2326f0226fc1fd47, 0x22a4b55d5504b540,
     0xe5fcc6ee16e51955, 0xfdf8e0775ea24e0e, 0x28ae43ed52086bd3, 0x445c9cd9719c67c7,
     0xe678edbf9c0499d3, 0x4082192926d958c4, 0x18650de370a26a96, 0xb766f9ced69d37c4,
     0xc92bbba1bb8891fe, 0xee2c4721a9732125, 0x2bc57ab50ad14ea1, 0x1a4a4dd628b8da42,
     0xb7f92cd70c5cd059, 0xb29273d6fa19b2c0, 0xd604f273854aa450, 0x9c8d51bc57726bd9,
     0x258e224b9f1a3026, 0x3a2f1136b2940837, 0x5346f21e5f149691, 0x7f6ddc82424ef5a0,
     0x851336a77f31f03c, 0xd97ae2859a5bace8, 0x477a3af98552ed79, 0x81b0a20a008954a8,
     0x08df8f161b836c83, 0x3045057457309045, 0x3b69bab129bd8d9f, 0x8c93d31ecfc950e0,
     0x08d8004720e6f54f, 0xa772a00861dd8c7a, 0x315b5b350ba50601, 0xab1983e3bf4f9a8b,
     0xcad6bcd6a4343703, 0x5ac210c3e6c6cd86]"
  by (simp add: TABLE_def)

lemma distinct_TABLE: "distinct TABLE"
proof -
  have "distinct (map unat TABLE)" unfolding TABLE_unat by simp
  then show ?thesis by (rule distinct_map[THEN iffD1, THEN conjunct1])
qed

lemma sorted_strict: "sorted ks \<Longrightarrow> distinct ks \<Longrightarrow> sorted_wrt (<) ks"
  by (simp add: strict_sorted_iff)

lemma ascending_adjacent:
  assumes "ascending key xs" "0 < i" "i < length xs"
  shows "key (xs ! (i - 1)) \<noteq> key (xs ! i)"
  using ascending_nth[OF assms(1), of "i - 1" i] assms(2,3) by simp

lemma sorted_table_spec:
  "\<exists>out. sorted_table = Some out \<and> mset out = mset (zip TABLE op_all) \<and> ascending fst out"
proof -
  define out where "out = foldl insert_at (zip TABLE op_all) [1..<HANDLER_COUNT]"
  have len: "length (zip TABLE op_all) = HANDLER_COUNT" by (simp only: length_zip length_TABLE length_op_all min.idem)
  then have *: "mset out = mset (zip TABLE op_all)" "sorted (map fst out)"
    using insertion_sort_from_1[OF _ len[symmetric], folded out_def] by auto
  have "mset (map fst out) = mset TABLE"
    using arg_cong[OF *(1), of "image_mset fst"]
    by (simp add: length_TABLE length_op_all flip: mset_map)
  then have d: "distinct (map fst out)" using distinct_TABLE by (metis mset_eq_imp_distinct_iff)
  have l: "length out = HANDLER_COUNT" using *(1) len by (metis size_mset)
  have asc: "ascending fst out" unfolding ascending_def by (rule sorted_strict[OF *(2) d])
  then have "\<not> list_ex (\<lambda>i. fst (out ! (i - 1)) = fst (out ! i)) [1..<HANDLER_COUNT]"
    using ascending_adjacent[OF asc] l by (simp only: list_ex_iff) force
  then have "sorted_table = Some out" unfolding sorted_table_def Let_def out_def[symmetric] by (rule if_not_P)
  then show ?thesis using asc *(1) by blast
qed

lemma SORTED_spec: "sorted_table = Some SORTED" "mset SORTED = mset (zip TABLE op_all)"
proof -
  obtain out where "sorted_table = Some out" "mset out = mset (zip TABLE op_all)"
    using sorted_table_spec by blast
  moreover from this(1) have "SORTED = out" unfolding SORTED_def by (rule ssubst) (rule option.case(2))
  ultimately show "sorted_table = Some SORTED" "mset SORTED = mset (zip TABLE op_all)" by (simp_all only:)
qed

lemma ascending_SORTED: "ascending fst SORTED"
  using sorted_table_spec SORTED_spec(1) by (metis option.inject)

interpretation handler_table: keyed_table fst "\<lambda>_::unit. sorted_table"
  by unfold_locales (metis SORTED_spec(1) ascending_SORTED option.inject)

lemma in_zip_table: "(fp, x) \<in> set (zip TABLE op_all) \<longleftrightarrow> TABLE ! op_index x = fp"
proof
  assume "(fp, x) \<in> set (zip TABLE op_all)"
  then obtain i where i: "i < HANDLER_COUNT" "TABLE ! i = fp" "op_all ! i = x"
    by (auto simp: set_zip length_TABLE length_op_all)
  then have "op_index x = i" by (metis length_op_all op_index_all)
  then show "TABLE ! op_index x = fp" using i by simp
next
  assume "TABLE ! op_index x = fp"
  then show "(fp, x) \<in> set (zip TABLE op_all)"
    using op_all_index[of x] by (auto simp: set_zip length_TABLE length_op_all intro!: exI[of _ "op_index x"])
qed

lemma handler_lookup_iff: "lookup fp = Some x \<longleftrightarrow> TABLE ! op_index x = fp"
proof -
  have set: "set SORTED = set (zip TABLE op_all)" using SORTED_spec(2) by (metis set_mset_mset)
  have "lookup fp = Some x \<longleftrightarrow> (\<exists>i. bsearch fst SORTED fp = Some i \<and> snd (SORTED ! i) = x)"
    by (auto simp: lookup_def)
  also have "\<dots> \<longleftrightarrow> (fp, x) \<in> set SORTED"
    by (auto simp: handler_table.lookup_iff[OF SORTED_spec(1)] in_set_conv_nth)
  finally show ?thesis by (simp add: set in_zip_table)
qed

subsection \<open>Renaming\<close>

definition kind_rename :: "(str \<Rightarrow> str) \<Rightarrow> (str \<Rightarrow> str) \<Rightarrow> ast_kind \<Rightarrow> ast_kind" where
  "kind_rename f g k =
     (case k of K_IdentRef n \<Rightarrow> K_IdentRef (f n) | K_BindingIdent n \<Rightarrow> K_BindingIdent (f n)
      | K_IdentName n \<Rightarrow> K_IdentName (g n) | _ \<Rightarrow> k)"

fun ast_rename :: "(str \<Rightarrow> str) \<Rightarrow> (str \<Rightarrow> str) \<Rightarrow> ast \<Rightarrow> ast" where
  "ast_rename f g (Ast ty k cs) = Ast ty (kind_rename f g k) (map (ast_rename f g) cs)"

fun event_rename :: "(str \<Rightarrow> str) \<Rightarrow> (str \<Rightarrow> str) \<Rightarrow> event \<Rightarrow> event" where
  "event_rename f g (Enter ty k) = Enter ty (kind_rename f g k)"
| "event_rename f g Leave = Leave"

lemma events_rename: "events (ast_rename f g t) = map (event_rename f g) (events t)"
proof (induction t)
  case (Ast ty k cs)
  then show ?case by (simp add: map_concat comp_def cong: map_cong)
qed

text \<open>The names a walk meets as identifiers, and as property names.\<close>

fun ident_names :: "event \<Rightarrow> str list" where
  "ident_names (Enter ty (K_IdentRef n)) = [n]"
| "ident_names (Enter ty (K_BindingIdent n)) = [n]"
| "ident_names _ = []"

fun prop_names :: "event \<Rightarrow> str list" where
  "prop_names (Enter ty (K_IdentName n)) = [n]"
| "prop_names _ = []"

definition bound_in :: "ast \<Rightarrow> str set" where
  "bound_in t = foldl bind_event {} (events t)"

definition idents_in :: "ast \<Rightarrow> str set" where
  "idents_in t = (\<Union>e \<in> set (events t). set (ident_names e))"

definition props_in :: "ast \<Rightarrow> str set" where
  "props_in t = (\<Union>e \<in> set (events t). set (prop_names e))"

lemma or_insert_rename:
  assumes "inj_on f (insert n (fst ` set m))"
  shows "or_insert (f n) v (map (apfst f) m) = apsnd (map (apfst f)) (or_insert n v m)"
proof -
  have "map_of (map (apfst f) m) (f n) = map_of m n"
    using assms by (induction m) (auto simp: inj_on_def apfst_def map_prod_def)
  then show ?thesis by (cases "map_of m n") (auto simp: or_insert_def)
qed

definition hs_rename :: "(str \<Rightarrow> str) \<Rightarrow> (str \<Rightarrow> str) \<Rightarrow> hasher \<Rightarrow> hasher" where
  "hs_rename f g h = h\<lparr>hs_ordinals := map (apfst f) (hs_ordinals h),
     hs_fields := map (apfst g) (hs_fields h), hs_seen := map g (hs_seen h)\<rparr>"

lemma hs_rename_simps [simp]:
  "hs_byte b (hs_rename f g h) = hs_rename f g (hs_byte b h)"
  "hs_bytes bs (hs_rename f g h) = hs_rename f g (hs_bytes bs h)"
  "hs_word w (hs_rename f g h) = hs_rename f g (hs_word w h)"
  "hs_text s (hs_rename f g h) = hs_rename f g (hs_text s h)"
  "hs_state (hs_rename f g h) = hs_state h"
  "hs_ordinals (hs_rename f g h) = map (apfst f) (hs_ordinals h)"
  "hs_fields (hs_rename f g h) = map (apfst g) (hs_fields h)"
  "hs_seen (hs_rename f g h) = map g (hs_seen h)"
  by (simp_all add: hs_rename_def hs_byte_def hs_bytes_def hs_word_def hs_text_def)

lemma hs_frame [simp]:
  "hs_ordinals (hs_byte b h) = hs_ordinals h" "hs_ordinals (hs_bytes bs h) = hs_ordinals h"
  "hs_ordinals (hs_word w h) = hs_ordinals h" "hs_ordinals (hs_text s h) = hs_ordinals h"
  "hs_fields (hs_byte b h) = hs_fields h" "hs_fields (hs_bytes bs h) = hs_fields h"
  "hs_fields (hs_word w h) = hs_fields h" "hs_fields (hs_text s h) = hs_fields h"
  "hs_seen (hs_byte b h) = hs_seen h" "hs_seen (hs_bytes bs h) = hs_seen h"
  "hs_seen (hs_word w h) = hs_seen h" "hs_seen (hs_text s h) = hs_seen h"
  by (simp_all add: hs_byte_def hs_bytes_def hs_word_def hs_text_def)

lemma or_insert_keys: "fst ` set (snd (or_insert k v m)) = insert k (fst ` set m)"
  by (auto simp: or_insert_def dest!: map_of_SomeD split: option.splits) (force simp: rev_image_eqI)

definition short :: "str \<Rightarrow> bool" where
  "short n \<longleftrightarrow> length (as_bytes n) = 1"

text \<open>A renaming that is allowed: one-to-one, the identity on what must stay.\<close>

definition renames_idents :: "(str \<Rightarrow> str) \<Rightarrow> str set \<Rightarrow> str set \<Rightarrow> bool" where
  "renames_idents f N bound \<longleftrightarrow> inj_on f N \<and> bound \<subseteq> N \<and> (\<forall>n \<in> N - bound. f n = n)"

definition renames_props :: "(str \<Rightarrow> str) \<Rightarrow> str set \<Rightarrow> bool" where
  "renames_props g P \<longleftrightarrow> inj_on g P \<and> (\<forall>n \<in> P. short (g n) = short n \<and> (\<not> short n \<longrightarrow> g n = n))"

definition same_signatures ::
    "(str \<Rightarrow> str) \<Rightarrow> str set \<Rightarrow> (str \<rightharpoonup> u64) option \<Rightarrow> (str \<rightharpoonup> u64) option \<Rightarrow> bool" where
  "same_signatures g P s s' \<longleftrightarrow>
     (case s of None \<Rightarrow> s' = None | Some m \<Rightarrow> \<exists>m'. s' = Some m' \<and> (\<forall>n \<in> P. m' (g n) = m n))"

definition keys_in :: "str set \<Rightarrow> str set \<Rightarrow> hasher \<Rightarrow> bool" where
  "keys_in N P h \<longleftrightarrow> fst ` set (hs_ordinals h) \<subseteq> N \<and> fst ` set (hs_fields h) \<subseteq> P \<and> set (hs_seen h) \<subseteq> P"

lemma hs_ident_rename:
  assumes "renames_idents f N bound" "keys_in N P h" "n \<in> N"
  shows "hs_ident (f ` bound) (f n) (hs_rename f g h) = hs_rename f g (hs_ident bound n h)"
    and "keys_in N P (hs_ident bound n h)"
proof -
  have inj: "inj_on f N" "bound \<subseteq> N" using assms(1) by (auto simp: renames_idents_def)
  then have mem: "f n \<in> f ` bound \<longleftrightarrow> n \<in> bound"
    using assms(3) inj_on_image_mem_iff[of f N n bound] by simp
  have "inj_on f (insert n (fst ` set (hs_ordinals h)))"
    using assms(2,3) by (intro inj_on_subset[OF inj(1)]) (auto simp: keys_in_def)
  note oi = or_insert_rename[OF this, of "of_nat (length (hs_ordinals h))"]
  show "hs_ident (f ` bound) (f n) (hs_rename f g h) = hs_rename f g (hs_ident bound n h)"
  proof (cases "n \<in> bound")
    case True
    obtain v m where "or_insert n (of_nat (length (hs_ordinals h))) (hs_ordinals h) = (v, m)" by fastforce
    moreover have upd: "(hs_rename f g h)\<lparr>hs_ordinals := map (apfst f) m\<rparr> = hs_rename f g (h\<lparr>hs_ordinals := m\<rparr>)"
      by (simp add: hs_rename_def)
    ultimately show ?thesis using True mem oi by (simp add: hs_ident_def Let_def upd)
  next
    case False
    then have "f n = n" using assms(1,3) by (auto simp: renames_idents_def)
    then show ?thesis using False mem by (simp add: hs_ident_def)
  qed
  show "keys_in N P (hs_ident bound n h)"
    using assms(2,3) or_insert_keys[of n "of_nat (length (hs_ordinals h))" "hs_ordinals h"]
    by (simp add: hs_ident_def keys_in_def Let_def split_def)
qed

lemma hs_field_rename:
  assumes "renames_props g P" "keys_in N P h" "n \<in> P" "same_signatures g P s s'"
  shows "hs_field s' (g n) (hs_rename f g h) = hs_rename f g (hs_field s n h)"
    and "keys_in N P (hs_field s n h)"
proof -
  have g: "inj_on g P" "length (as_bytes (g n)) = 1 \<longleftrightarrow> length (as_bytes n) = 1"
    "length (as_bytes n) \<noteq> 1 \<Longrightarrow> g n = n"
    using assms(1,3) by (auto simp: renames_props_def short_def)
  have "inj_on g (insert n (fst ` set (hs_fields h)))"
    using assms(2,3) by (intro inj_on_subset[OF g(1)]) (auto simp: keys_in_def)
  note oi = or_insert_rename[OF this, of "of_nat (length (hs_fields h))"]
  obtain v m where m: "or_insert n (of_nat (length (hs_fields h))) (hs_fields h) = (v, m)" by fastforce
  have upd: "(hs_rename f g h1)\<lparr>hs_fields := map (apfst g) m, hs_seen := map g xs @ [g n]\<rparr>
      = hs_rename f g (h1\<lparr>hs_fields := m, hs_seen := xs @ [n]\<rparr>)"
    "(hs_rename f g h1)\<lparr>hs_fields := map (apfst g) m\<rparr> = hs_rename f g (h1\<lparr>hs_fields := m\<rparr>)"
    "(hs_rename f g h1)\<lparr>hs_seen := map g xs @ [g n]\<rparr> = hs_rename f g (h1\<lparr>hs_seen := xs @ [n]\<rparr>)" for h1 xs
    by (simp_all add: hs_rename_def)
  show "hs_field s' (g n) (hs_rename f g h) = hs_rename f g (hs_field s n h)"
    using g m oi assms(3,4) by (auto simp: hs_field_def same_signatures_def Let_def upd split: option.splits)
  show "keys_in N P (hs_field s n h)"
    using assms(2,3) or_insert_keys[of n "of_nat (length (hs_fields h))" "hs_fields h"]
    by (simp add: hs_field_def keys_in_def Let_def split_def split: option.splits)
qed

lemma hash_event_rename:
  assumes "renames_idents f N bound" "renames_props g P" "same_signatures g P s s'" "keys_in N P h"
    and "set (ident_names e) \<subseteq> N" "set (prop_names e) \<subseteq> P"
  shows "hash_event (f ` bound) s' (hs_rename f g h) (event_rename f g e)
      = hs_rename f g (hash_event bound s h e)"
    and "keys_in N P (hash_event bound s h e)"
proof -
  have k: "keys_in N P (hs_byte b h)" for b using assms(4) by (simp add: keys_in_def)
  note i = hs_ident_rename[OF assms(1) k] and p = hs_field_rename[OF assms(2) k _ assms(3)]
  show "hash_event (f ` bound) s' (hs_rename f g h) (event_rename f g e)
      = hs_rename f g (hash_event bound s h e)"
  proof (cases e)
    case (Enter ty kind)
    then show ?thesis using assms(5,6) i(1) p(1)
      by (cases kind) (simp_all add: enter_node_def kind_rename_def Let_def)
  qed (simp add: leave_node_def)
  show "keys_in N P (hash_event bound s h e)"
  proof (cases e)
    case (Enter ty kind)
    then show ?thesis using assms(5,6) i(2) p(2) k assms(4)
      by (cases kind) (simp_all add: enter_node_def Let_def keys_in_def)
  qed (simp add: leave_node_def k)
qed

lemma hash_events_rename:
  assumes "renames_idents f N bound" "renames_props g P" "same_signatures g P s s'"
  shows "keys_in N P h \<Longrightarrow> (\<forall>e \<in> set es. set (ident_names e) \<subseteq> N \<and> set (prop_names e) \<subseteq> P) \<Longrightarrow>
    foldl (hash_event (f ` bound) s') (hs_rename f g h) (map (event_rename f g) es)
      = hs_rename f g (foldl (hash_event bound s) h es) \<and> keys_in N P (foldl (hash_event bound s) h es)"
  using hash_event_rename[OF assms] by (induction es arbitrary: h) auto

lemma bind_events_rename:
  "foldl bind_event (f ` b) (map (event_rename f g) es) = f ` foldl bind_event b es"
proof (induction es arbitrary: b)
  case (Cons e es)
  have "bind_event (f ` b) (event_rename f g e) = f ` bind_event b e"
  proof (cases e)
    case (Enter ty kind)
    then show ?thesis by (cases kind) (simp_all add: kind_rename_def)
  qed simp
  then show ?case using Cons by simp
qed simp

text \<open>One function, in either pass.\<close>

lemma hash_func_rename:
  assumes "renames_idents f (idents_in t) (bound_in t)" "renames_props g P" "props_in t \<subseteq> P"
    and "same_signatures g P s s'"
  shows "hash_func s' (ast_rename f g t) = hs_rename f g (hash_func s t)"
    and "set (hs_seen (hash_func s t)) \<subseteq> P"
proof -
  define h0 where "h0 = \<lparr>hs_state = FNV_OFFSET, hs_ordinals = [], hs_fields = [], hs_seen = []\<rparr>"
  have b: "foldl bind_event {} (map (event_rename f g) (events t)) = f ` bound_in t"
    using bind_events_rename[of f "{}" g "events t"] by (simp add: bound_in_def)
  have "keys_in (idents_in t) P h0" by (simp add: keys_in_def h0_def)
  moreover have "\<forall>e \<in> set (events t). set (ident_names e) \<subseteq> idents_in t \<and> set (prop_names e) \<subseteq> P"
    using assms(3) by (auto simp: idents_in_def props_in_def)
  ultimately have *: "foldl (hash_event (f ` bound_in t) s') (hs_rename f g h0) (map (event_rename f g) (events t))
      = hs_rename f g (foldl (hash_event (bound_in t) s) h0 (events t))"
    "keys_in (idents_in t) P (foldl (hash_event (bound_in t) s) h0 (events t))"
    using hash_events_rename[OF assms(1,2,4)] by blast+
  have h: "hs_rename f g h0 = h0" "hash_func s t = foldl (hash_event (bound_in t) s) h0 (events t)"
    by (simp_all add: h0_def hs_rename_def hash_func_def bound_in_def)
  show "hash_func s' (ast_rename f g t) = hs_rename f g (hash_func s t)"
    using *(1) by (simp add: h hash_func_def[of s' "ast_rename f g t"] events_rename b Let_def flip: h0_def)
  show "set (hs_seen (hash_func s t)) \<subseteq> P" using *(2) by (simp add: h(2) keys_in_def)
qed

text \<open>The signatures of a renamed script.\<close>

lemma add_signature_rename:
  assumes "inj_on g P" "\<forall>n \<in> P. m' (g n) = m n" "set (map snd ps) \<subseteq> P"
  shows "\<forall>n \<in> P. foldl (add_signature w) m' (map (apsnd g) ps) (g n) = foldl (add_signature w) m ps n"
  using assms(2,3)
proof (induction ps arbitrary: m m')
  case (Cons pn ps)
  obtain pos name where pn: "pn = (pos, name)" by fastforce
  have "\<forall>n \<in> P. add_signature w m' (apsnd g pn) (g n) = add_signature w m pn n"
    using Cons.prems inj_onD[OF assms(1)] by (auto simp: pn add_signature_def Let_def)
  then show ?case using Cons by simp
qed simp

lemma prepare_rename:
  assumes "renames_props g P" "\<forall>t \<in> set funcs. renames_idents (r t) (idents_in t) (bound_in t) \<and> props_in t \<subseteq> P"
  shows "\<forall>n \<in> P. m' (g n) = m n \<Longrightarrow>
    \<forall>n \<in> P. foldl prepare_func m' (map (\<lambda>t. ast_rename (r t) g t) funcs) (g n) = foldl prepare_func m funcs n"
  using assms(2)
proof (induction funcs arbitrary: m m')
  case (Cons t ts)
  have inj: "inj_on g P" using assms(1) by (simp add: renames_props_def)
  have h: "hash_func None (ast_rename (r t) g t) = hs_rename (r t) g (hash_func None t)"
    "set (hs_seen (hash_func None t)) \<subseteq> P"
    using Cons.prems hash_func_rename[of "r t" t g P None None] assms(1) by (auto simp: same_signatures_def)
  have "enumerate 0 (map g xs) = map (apsnd g) (enumerate 0 xs)" for xs :: "str list"
    by (simp add: enumerate_eq_zip zip_map2 apsnd_def map_prod_def)
  then have "\<forall>n \<in> P. prepare_func m' (ast_rename (r t) g t) (g n) = prepare_func m t n"
    using h Cons.prems add_signature_rename[OF inj Cons.prems(1), of "enumerate 0 (hs_seen (hash_func None t))"]
    by (simp add: prepare_func_def Let_def)
  then show ?case using Cons by simp
qed simp

subsection \<open>Order of the functions\<close>

lemma add_signature_commute:
  "add_signature w (add_signature v m x) y = add_signature v (add_signature w m y) x"
  by (cases x; cases y) (auto simp: add_signature_def Let_def fun_upd_twist add_ac)

lemma add_signatures_commute:
  "foldl (add_signature w) (foldl (add_signature v) m xs) ys
    = foldl (add_signature v) (foldl (add_signature w) m ys) xs"
proof -
  have one: "foldl (add_signature w) (add_signature v m x) ys = add_signature v (foldl (add_signature w) m ys) x"
    for m x by (induction ys arbitrary: m) (simp_all add: add_signature_commute[of w v])
  show ?thesis by (induction xs arbitrary: m) (simp_all add: one)
qed

lemma prepare_func_commute: "prepare_func (prepare_func m s) t = prepare_func (prepare_func m t) s"
  by (simp add: prepare_func_def Let_def add_signatures_commute)

subsection \<open>Properties\<close>

text \<open>C7: sorting the table at compile time succeeds (no two fingerprints are equal) and \<open>lookup\<close>
  finds exactly the 86 operations: the operation whose entry of \<open>TABLE\<close>, at its own
  discriminant, is the fingerprint, and nothing for any other fingerprint.\<close>

theorem lookup_exact:
  "sorted_table \<noteq> None \<and> (lookup fp = Some x \<longleftrightarrow> TABLE ! op_index x = fp)
    \<and> (lookup fp = None \<longleftrightarrow> fp \<notin> set TABLE)"
proof -
  have "lookup fp = None \<longleftrightarrow> (\<forall>x. TABLE ! op_index x \<noteq> fp)"
    using handler_lookup_iff[of fp] by (cases "lookup fp") (auto simp del: not_None_eq)
  moreover have "set TABLE = range (\<lambda>x. TABLE ! op_index x)"
  proof
    show "set TABLE \<subseteq> range (\<lambda>x. TABLE ! op_index x)"
    proof
      fix w assume "w \<in> set TABLE"
      then obtain i where "i < HANDLER_COUNT" "TABLE ! i = w" by (metis in_set_conv_nth length_TABLE)
      then have "w = TABLE ! op_index (op_all ! i)" by (simp add: op_index_all length_op_all)
      then show "w \<in> range (\<lambda>x. TABLE ! op_index x)" by (rule range_eqI)
    qed
    show "range (\<lambda>x. TABLE ! op_index x) \<subseteq> set TABLE"
      using op_all_index(2) by (auto simp: length_op_all length_TABLE)
  qed
  ultimately show ?thesis using handler_lookup_iff SORTED_spec(1) by auto
qed

text \<open>C8: fingerprints do not see the minifier's choice of names: rename the bound names of every
  function one-to-one (leaving free names alone) and the one-letter property names of the
  whole script one-to-one, and every function keeps its fingerprint.\<close>

theorem fingerprint_rename:
  assumes "t \<in> set funcs" "renames_props g (\<Union>t \<in> set funcs. props_in t)"
    and "\<forall>t \<in> set funcs. renames_idents (r t) (idents_in t) (bound_in t)"
  shows "fingerprint (prepare (map (\<lambda>t. ast_rename (r t) g t) funcs)) (ast_rename (r t) g t)
    = fingerprint (prepare funcs) t"
proof -
  define P where "P = (\<Union>t \<in> set funcs. props_in t)"
  have sub: "props_in t \<subseteq> P" if "t \<in> set funcs" for t using that by (auto simp: P_def)
  have "\<forall>n \<in> P. prepare (map (\<lambda>t. ast_rename (r t) g t) funcs) (g n) = prepare funcs n"
    unfolding prepare_def
    by (rule prepare_rename) (use assms(2,3) sub in \<open>auto simp flip: P_def\<close>)
  then have "same_signatures g P (Some (prepare funcs)) (Some (prepare (map (\<lambda>t. ast_rename (r t) g t) funcs)))"
    by (simp add: same_signatures_def)
  from hash_func_rename(1)[OF _ _ sub this] show ?thesis
    using assms by (simp add: fingerprint_def flip: P_def)
qed

definition sample_func :: "str \<Rightarrow> str \<Rightarrow> ast" where
  "sample_func v p = Ast 1 (K_Function False False)
     [Ast 2 (K_BindingIdent v) [], Ast 3 (K_IdentRef v) [], Ast 3 (K_IdentRef [119, 120]) [],
      Ast 4 (K_IdentName p) []]"

theorem fingerprint_rename_witness:
  "fingerprint (prepare [sample_func [98] [121]]) (sample_func [98] [121])
    = fingerprint (prepare [sample_func [97] [120]]) (sample_func [97] [120])"
  using fingerprint_rename[of "sample_func [97] [120]" "[sample_func [97] [120]]" "\<lambda>n. if n = [120] then [121] else n"
      "\<lambda>_ n. if n = [97] then [98] else n"]
  by (simp add: sample_func_def props_in_def idents_in_def bound_in_def renames_props_def renames_idents_def
      short_def as_bytes_def utf8_char_def kind_rename_def inj_on_def)

text \<open>The signatures do not depend on the order in which the functions are visited.\<close>

theorem prepare_order:
  assumes "mset funcs = mset funcs'"
  shows "prepare funcs = prepare funcs'"
  unfolding prepare_def foldl_conv_fold
  by (rule fun_cong[OF fold_multiset_equiv[OF _ assms]]) (auto simp: prepare_func_commute fun_eq_iff)

theorem prepare_order_witness:
  "prepare [sample_func [97] [120], sample_func [98] [121]] = prepare [sample_func [98] [121], sample_func [97] [120]]"
  by (rule prepare_order) simp

end
