(* ===== verification/Config.thy ===== *)
theory Config
  imports Disassembler
begin

text \<open>
  \<open>src/worktime/config.rs\<close>: the proof-of-work parameters are read out of the
  disassembled script. \<open>eval_block\<close> runs the straight-line code that builds each
  object literal passed to \<open>Object.freeze\<close> over an arena of nodes; \<open>scan_tree\<close> walks
  the finished literal for the version string, 64-digit hex strings and the node of
  the proof of work; \<open>resolve\<close> follows a register back to its definition inside the
  basic block, which tells numerator from denominator and which hex string is read.

  Indexing that panics in the code is \<open>None\<close> in \<open>scan_tree\<close>; the arena invariant below
  shows it does not happen.
\<close>

datatype config_error =
    CfgNoConfig
  | CfgConfigCount nat
  | CfgVersionCount nat
  | CfgPowNodeCount nat
  | CfgNoDivision str str
  | CfgDivisionConflict str str
  | CfgDifficulty f64
  | CfgSubCount f64
  | CfgSuffixUnread str
  | CfgSeedReadCount nat
  | CfgSeedNotPow str str

datatype kind = Kind_Obj | Kind_Arr

datatype key = Key_Str pool_ref | Key_Idx i32

datatype val = Val_Int i32 | Val_Dbl f64 | Val_Str pool_ref | Val_Bool | Val_Null | Val_Undef | Val_Node nat

datatype bound = Bound_Lit val | Bound_Object | Bound_Freeze

datatype cclass = Class_A | Class_B | Class_Other | Class_Dropped

record node =
  nd_kind :: kind
  nd_fields :: "(key \<times> val) list"

record block =
  bk_start :: nat
  bk_end :: nat
  bk_root :: nat

record params =
  pa_num0 :: "pool_ref \<times> f64"
  pa_num1 :: "pool_ref \<times> f64"
  pa_suffix_key :: pool_ref
  pa_suffix :: pool_ref

record pow =
  pw_seed_key :: pool_ref
  pw_seed :: pool_ref
  pw_params :: params

record hex =
  hx_key :: pool_ref
  hx_value :: pool_ref
  hx_parent :: "pool_ref option"
  hx_read :: bool

record scan =
  sc_versions :: nat
  sc_pows :: nat
  sc_pow :: "pow option"
  sc_hexes :: "hex list"

abbreviation HEX_LEN :: nat where "HEX_LEN \<equiv> 64"
abbreviation CALL_RESULT_REG :: nat where "CALL_RESULT_REG \<equiv> 2"

definition OBJECT :: "u8 list" where "OBJECT = bytes ''Object''"
definition FREEZE :: "u8 list" where "FREEZE = bytes ''freeze''"
definition UNDEFINED :: "u8 list" where "UNDEFINED = bytes ''undefined''"

subsection \<open>Leaders\<close>

text \<open>The set of jump targets, one bit per position.\<close>

definition leaders_new :: "nat \<Rightarrow> u64 list" where
  "leaders_new max_pc = replicate (max_pc div 64 + 1) 0"

definition leaders_set :: "u64 list \<Rightarrow> nat \<Rightarrow> u64 list" where
  "leaders_set ws pc =
     (case get ws (pc div 64) of Some w \<Rightarrow> ws[pc div 64 := w OR push_bit (pc mod 64) 1] | None \<Rightarrow> ws)"

definition leaders_has :: "u64 list \<Rightarrow> nat \<Rightarrow> bool" where
  "leaders_has ws pc =
     (case get ws (pc div 64) of Some w \<Rightarrow> drop_bit (pc mod 64) w AND 1 = 1 | None \<Rightarrow> False)"

subsection \<open>Registers, literals, fields\<close>

definition alloc :: "node list \<Rightarrow> kind \<Rightarrow> nat \<times> node list" where
  "alloc arena k = (as_u32 (length arena), arena @ [\<lparr>nd_kind = k, nd_fields = []\<rparr>])"

definition reg_bind :: "bound option list \<Rightarrow> nat \<Rightarrow> bound \<Rightarrow> bound option list" where
  "reg_bind regs r b =
     (let regs' = (if length regs \<le> r then regs @ replicate (r + 1 - length regs) None else regs)
      in regs'[r := Some b])"

definition reg_get :: "bound option list \<Rightarrow> nat \<Rightarrow> bound option" where
  "reg_get regs r = (case get regs r of Some b \<Rightarrow> b | None \<Rightarrow> None)"

definition literal :: "operand \<Rightarrow> val option" where
  "literal x =
     (case x of
        Opd_Int v \<Rightarrow> Some (Val_Int v)
      | Opd_Dbl v \<Rightarrow> Some (Val_Dbl v)
      | Opd_Str s \<Rightarrow> Some (Val_Str s)
      | Opd_True \<Rightarrow> Some Val_Bool
      | Opd_False \<Rightarrow> Some Val_Bool
      | Opd_Null \<Rightarrow> Some Val_Null
      | Opd_Undef \<Rightarrow> Some Val_Undef
      | Opd_Reg _ \<Rightarrow> None)"

definition key_eq :: "key \<Rightarrow> key \<Rightarrow> u16 list \<Rightarrow> bool" where
  "key_eq x y pool =
     (case (x, y) of
        (Key_Str a, Key_Str b) \<Rightarrow> a = b \<or> units pool a = units pool b
      | (Key_Idx a, Key_Idx b) \<Rightarrow> a = b
      | _ \<Rightarrow> False)"

fun set_field :: "(key \<times> val) list \<Rightarrow> key \<Rightarrow> val \<Rightarrow> u16 list \<Rightarrow> (key \<times> val) list" where
  "set_field [] key v pool = [(key, v)]"
| "set_field ((k, w) # flds) key v pool =
     (if key_eq k key pool then (k, v) # flds else (k, w) # set_field flds key v pool)"

subsection \<open>Running a literal\<close>

text \<open>
  One instruction of the block: the new arena, and either failure, the next registers,
  or the root of the frozen object.
\<close>

datatype step = Step_Fail | Step_Next "bound option list" | Step_Root nat

definition step_bind :: "bound option list \<Rightarrow> nat option \<Rightarrow> bound \<Rightarrow> step" where
  "step_bind regs dest b = (case dest of Some r \<Rightarrow> Step_Next (reg_bind regs r b) | None \<Rightarrow> Step_Fail)"

definition step_alloc :: "node list \<Rightarrow> bound option list \<Rightarrow> kind \<Rightarrow> nat option \<Rightarrow> node list \<times> step" where
  "step_alloc arena regs k dest =
     (let (nid, arena') = alloc arena k in (arena', step_bind regs dest (Bound_Lit (Val_Node nid))))"

definition prop_key :: "operand \<Rightarrow> key option" where
  "prop_key x = (case x of Opd_Str k \<Rightarrow> Some (Key_Str k) | Opd_Int k \<Rightarrow> Some (Key_Idx k) | _ \<Rightarrow> None)"

definition prop_val :: "bound option list \<Rightarrow> operand \<Rightarrow> val option" where
  "prop_val regs x =
     (case x of
        Opd_Reg v \<Rightarrow> (case reg_get regs v of Some (Bound_Lit w) \<Rightarrow> Some w | _ \<Rightarrow> None)
      | _ \<Rightarrow> literal x)"

definition prop_node :: "bound option list \<Rightarrow> operand \<Rightarrow> nat option" where
  "prop_node regs x =
     (case x of
        Opd_Reg r \<Rightarrow> (case reg_get regs r of Some (Bound_Lit (Val_Node nid)) \<Rightarrow> Some nid | _ \<Rightarrow> None)
      | _ \<Rightarrow> None)"

definition step_set_prop :: "u16 list \<Rightarrow> node list \<Rightarrow> bound option list \<Rightarrow> instr \<Rightarrow> node list \<times> step" where
  "step_set_prop pool arena regs ins =
     (case prop_node regs (in_arg ins 0) of None \<Rightarrow> (arena, Step_Fail)
      | Some nid \<Rightarrow>
          (case prop_key (in_arg ins 1) of None \<Rightarrow> (arena, Step_Fail)
           | Some key \<Rightarrow>
               (case prop_val regs (in_arg ins 2) of None \<Rightarrow> (arena, Step_Fail)
                | Some w \<Rightarrow>
                    (arena[nid := (arena ! nid)\<lparr>nd_fields := set_field (nd_fields (arena ! nid)) key w pool\<rparr>],
                     Step_Next regs))))"

fun find_root :: "(key \<times> val) list \<Rightarrow> nat option" where
  "find_root [] = None"
| "find_root ((k, v) # flds) =
     (case (k, v) of (Key_Idx i, Val_Node r) \<Rightarrow> (if i = 0 then Some r else find_root flds)
      | _ \<Rightarrow> find_root flds)"

definition step_call :: "node list \<Rightarrow> bound option list \<Rightarrow> nat \<Rightarrow> instr \<Rightarrow> step" where
  "step_call arena regs args_node ins =
     (case (in_arg ins 0, in_arg ins 1, in_arg ins 2) of
        (Opd_Reg obj, Opd_Reg f, Opd_Reg a) \<Rightarrow>
          if reg_get regs obj \<noteq> Some Bound_Object \<or> reg_get regs f \<noteq> Some Bound_Freeze
             \<or> reg_get regs a \<noteq> Some (Bound_Lit (Val_Node args_node))
          then Step_Fail
          else (case find_root (nd_fields (arena ! args_node)) of
                  None \<Rightarrow> Step_Fail
                | Some rt \<Rightarrow> if nd_kind (arena ! rt) \<noteq> Kind_Obj then Step_Fail else Step_Root rt)
      | _ \<Rightarrow> Step_Fail)"

definition run_step ::
    "u16 list \<Rightarrow> node list \<Rightarrow> bound option list \<Rightarrow> nat \<Rightarrow> instr \<Rightarrow> node list \<times> step" where
  "run_step pool arena regs args_node ins =
     (case in_op ins of
        Op_NewObj \<Rightarrow> step_alloc arena regs Kind_Obj (in_dest ins)
      | Op_NewArr \<Rightarrow> step_alloc arena regs Kind_Arr (in_dest ins)
      | Op_NewArrN \<Rightarrow>
          (case in_arg ins 0 of
             Opd_Int len \<Rightarrow> if sint len < 0 then (arena, Step_Fail)
               else step_alloc arena regs Kind_Arr (in_dest ins)
           | _ \<Rightarrow> (arena, Step_Fail))
      | Op_Global \<Rightarrow>
          (case in_arg ins 0 of
             Opd_Str s \<Rightarrow> if \<not> eq_ascii (units pool s) UNDEFINED then (arena, Step_Fail)
               else (arena, step_bind regs (in_dest ins) (Bound_Lit Val_Undef))
           | _ \<Rightarrow> (arena, Step_Fail))
      | Op_Mov \<Rightarrow>
          (arena, case in_dest ins of None \<Rightarrow> Step_Fail
           | Some r \<Rightarrow> (case literal (in_arg ins 0) of None \<Rightarrow> Step_Fail
             | Some v \<Rightarrow> Step_Next (reg_bind regs r (Bound_Lit v))))
      | Op_SetProp \<Rightarrow> step_set_prop pool arena regs ins
      | Op_CallM \<Rightarrow> (arena, step_call arena regs args_node ins)
      | _ \<Rightarrow> (arena, Step_Fail))"

fun run_block ::
    "u16 list \<Rightarrow> instr list \<Rightarrow> nat \<Rightarrow> node list \<Rightarrow> bound option list \<Rightarrow> nat \<Rightarrow> node list \<times> (nat \<times> nat) option"
where
  "run_block pool [] j arena regs args_node = (arena, None)"
| "run_block pool (ins # rest) j arena regs args_node =
     (case run_step pool arena regs args_node ins of
        (arena', Step_Fail) \<Rightarrow> (arena', None)
      | (arena', Step_Root rt) \<Rightarrow> (arena', Some (j, rt))
      | (arena', Step_Next regs') \<Rightarrow> run_block pool rest (j + 1) arena' regs' args_node)"

text \<open>The three instructions that start a literal: their registers when they match.\<close>

definition block_head :: "instr list \<Rightarrow> u16 list \<Rightarrow> nat \<Rightarrow> (nat \<times> nat \<times> nat) option" where
  "block_head instrs pool k =
     (case get_range instrs k (k + 3) of
        Some [g, f, n] \<Rightarrow>
          if in_op g \<noteq> Op_Global \<or> in_op f \<noteq> Op_GetProp \<or> in_op n \<noteq> Op_NewArrN then None
          else (case (in_arg g 0, in_dest g) of
             (Opd_Str obj, Some r_obj) \<Rightarrow>
               (case (in_arg f 1, in_dest f, in_dest n) of
                  (Opd_Str frz, Some r_frz, Some r_arr) \<Rightarrow>
                    if \<not> eq_ascii (units pool obj) OBJECT \<or> \<not> eq_ascii (units pool frz) FREEZE
                       \<or> in_arg f 0 \<noteq> Opd_Reg r_obj \<or> in_arg n 0 \<noteq> Opd_Int 1
                    then None else Some (r_obj, r_frz, r_arr)
                | _ \<Rightarrow> None)
           | _ \<Rightarrow> None)
      | _ \<Rightarrow> None)"

definition eval_block :: "instr list \<Rightarrow> u16 list \<Rightarrow> nat \<Rightarrow> node list \<Rightarrow> node list \<times> block option" where
  "eval_block instrs pool k arena =
     (case block_head instrs pool k of
        None \<Rightarrow> (arena, None)
      | Some (r_obj, r_frz, r_arr) \<Rightarrow>
          let mark = length arena;
              regs1 = reg_bind (reg_bind [] r_obj Bound_Object) r_frz Bound_Freeze;
              (args_node, arena1) = alloc arena Kind_Arr;
              regs2 = reg_bind regs1 r_arr (Bound_Lit (Val_Node args_node));
              (arena2, res) = run_block pool (drop (k + 3) instrs) (k + 3) arena1 regs2 args_node
          in case res of
               Some (en, rt) \<Rightarrow> (arena2, Some \<lparr>bk_start = k, bk_end = en, bk_root = rt\<rparr>)
             | None \<Rightarrow> (take mark arena2, None))"

subsection \<open>Version strings, hex strings, parameters\<close>

definition is_digit :: "u16 \<Rightarrow> bool" where
  "is_digit c \<longleftrightarrow> 48 \<le> c \<and> c \<le> 57"

text \<open>The loop over the characters after \<open>j-\<close>.\<close>

fun version_loop :: "u16 list \<Rightarrow> nat \<Rightarrow> nat \<Rightarrow> bool" where
  "version_loop [] dots digits \<longleftrightarrow> dots = 2 \<and> 0 < digits"
| "version_loop (c # rest) dots digits \<longleftrightarrow>
     (if is_digit c then version_loop rest dots (digits + 1)
      else if c = 46 \<and> 0 < digits \<and> dots < 2 then version_loop rest (dots + 1) 0
      else False)"

definition is_version :: "u16 list \<Rightarrow> bool" where
  "is_version u \<longleftrightarrow>
     (case u of j # dash # rest \<Rightarrow> if j \<noteq> 106 \<or> dash \<noteq> 45 then False else version_loop rest 0 0
      | _ \<Rightarrow> False)"

definition is_hex64 :: "u16 list \<Rightarrow> bool" where
  "is_hex64 u \<longleftrightarrow> length u = HEX_LEN \<and> list_all (\<lambda>c. is_digit c \<or> 97 \<le> c \<and> c \<le> 102) u"

definition numeric :: "val \<Rightarrow> f64 option" where
  "numeric v =
     (case v of
        Val_Int i \<Rightarrow> Some (f64_of_int (sint i))
      | Val_Dbl d \<Rightarrow> if is_finite d \<and> f64_integral d then Some d else None
      | _ \<Rightarrow> None)"

text \<open>The loop of \<open>params_of\<close>: the numbers so far, at most two, and the string.\<close>

fun params_loop ::
    "(key \<times> val) list \<Rightarrow> (pool_ref \<times> f64) list \<Rightarrow> (pool_ref \<times> pool_ref) option \<Rightarrow>
      ((pool_ref \<times> f64) list \<times> (pool_ref \<times> pool_ref) option) option" where
  "params_loop [] nums suffix = Some (nums, suffix)"
| "params_loop ((k, v) # flds) nums suffix =
     (case k of
        Key_Idx _ \<Rightarrow> None
      | Key_Str k \<Rightarrow>
          (case v of
             Val_Str s \<Rightarrow> if suffix \<noteq> None then None else params_loop flds nums (Some (k, s))
           | _ \<Rightarrow> (case numeric v of None \<Rightarrow> None
               | Some x \<Rightarrow> if length nums = 2 then None else params_loop flds (nums @ [(k, x)]) suffix)))"

definition params_of :: "node \<Rightarrow> params option" where
  "params_of n =
     (if nd_kind n \<noteq> Kind_Obj \<or> length (nd_fields n) \<noteq> 3 then None
      else case params_loop (nd_fields n) [] None of
        Some ([n0, n1], Some (sk, s)) \<Rightarrow>
          Some \<lparr>pa_num0 = n0, pa_num1 = n1, pa_suffix_key = sk, pa_suffix = s\<rparr>
      | _ \<Rightarrow> None)"

subsection \<open>Walking the literal\<close>

text \<open>
  The state while the fields of one node are read. The stack is a list with its top
  in front. \<open>None\<close> is an index out of bounds.
\<close>

record walk =
  wk_scan :: scan
  wk_visited :: "bool list"
  wk_stack :: "(nat \<times> pool_ref option) list"
  wk_hex_fields :: nat
  wk_hex :: "(pool_ref \<times> pool_ref) option"
  wk_objects :: nat
  wk_child :: "nat option"

definition scan_str :: "u16 list \<Rightarrow> pool_ref option \<Rightarrow> key \<Rightarrow> pool_ref \<Rightarrow> walk \<Rightarrow> walk" where
  "scan_str pool parent key s w =
     (let us = units pool s; sc = wk_scan w in
      if is_version us then w\<lparr>wk_scan := sc\<lparr>sc_versions := sc_versions sc + 1\<rparr>\<rparr>
      else case key of
        Key_Str k \<Rightarrow>
          if is_hex64 us
          then w\<lparr>wk_hex_fields := wk_hex_fields w + 1, wk_hex := Some (k, s),
                 wk_scan := sc\<lparr>sc_hexes := sc_hexes sc @
                   [\<lparr>hx_key = k, hx_value = s, hx_parent = parent, hx_read = False\<rparr>]\<rparr>\<rparr>
          else w
      | Key_Idx _ \<Rightarrow> w)"

definition scan_node :: "node list \<Rightarrow> key \<Rightarrow> nat \<Rightarrow> walk \<Rightarrow> walk option" where
  "scan_node arena key c w =
     (case (get arena c, get (wk_visited w) c) of
        (Some n, Some seen) \<Rightarrow>
          let w1 = (if nd_kind n = Kind_Obj
                    then w\<lparr>wk_objects := wk_objects w + 1, wk_child := Some c\<rparr> else w)
          in Some (if seen then w1
             else w1\<lparr>wk_visited := (wk_visited w1)[c := True],
                     wk_stack := (c, case key of Key_Str k \<Rightarrow> Some k | Key_Idx _ \<Rightarrow> None) # wk_stack w1\<rparr>)
      | _ \<Rightarrow> None)"

fun scan_fields ::
    "node list \<Rightarrow> u16 list \<Rightarrow> pool_ref option \<Rightarrow> (key \<times> val) list \<Rightarrow> walk \<Rightarrow> walk option" where
  "scan_fields arena pool parent [] w = Some w"
| "scan_fields arena pool parent ((key, v) # flds) w =
     (case v of
        Val_Str s \<Rightarrow> scan_fields arena pool parent flds (scan_str pool parent key s w)
      | Val_Node c \<Rightarrow> (case scan_node arena key c w of None \<Rightarrow> None
          | Some w' \<Rightarrow> scan_fields arena pool parent flds w')
      | _ \<Rightarrow> scan_fields arena pool parent flds w)"

definition scan_pow :: "node list \<Rightarrow> node \<Rightarrow> walk \<Rightarrow> scan" where
  "scan_pow arena n w =
     (let sc = wk_scan w in
      if nd_kind n = Kind_Obj \<and> wk_hex_fields w = 1 \<and> wk_objects w = 1
      then case (wk_hex w, wk_child w) of
          (Some (seed_key, seed), Some c) \<Rightarrow>
            (case params_of (arena ! c) of
               Some pa \<Rightarrow> sc\<lparr>sc_pows := sc_pows sc + 1,
                 sc_pow := Some \<lparr>pw_seed_key = seed_key, pw_seed = seed, pw_params = pa\<rparr>\<rparr>
             | None \<Rightarrow> sc)
        | _ \<Rightarrow> sc
      else sc)"

definition unvisited :: "bool list \<Rightarrow> nat" where
  "unvisited vs = length (filter Not vs)"

lemma unvisited_mark:
  "c < length vs \<Longrightarrow> \<not> vs ! c \<Longrightarrow> unvisited vs = Suc (unvisited (vs[c := True]))"
proof (induction vs arbitrary: c)
  case (Cons v vs)
  then show ?case by (cases c) (auto simp: unvisited_def)
qed simp

lemma scan_node_measure:
  "scan_node arena key c w = Some w' \<Longrightarrow>
    unvisited (wk_visited w') + length (wk_stack w') = unvisited (wk_visited w) + length (wk_stack w)"
  by (auto simp: scan_node_def Let_def unvisited_mark split: option.splits if_splits)

lemma scan_str_frame [simp]:
  "wk_visited (scan_str pool parent key s w) = wk_visited w"
  "wk_stack (scan_str pool parent key s w) = wk_stack w"
  "wk_child (scan_str pool parent key s w) = wk_child w"
  by (simp_all add: scan_str_def Let_def split: key.split)

lemma scan_fields_measure:
  "scan_fields arena pool parent flds w = Some w' \<Longrightarrow>
    unvisited (wk_visited w') + length (wk_stack w') = unvisited (wk_visited w) + length (wk_stack w)"
  by (induction arena pool parent flds w rule: scan_fields.induct)
    (auto split: val.splits option.splits dest: scan_node_measure)

function scan_loop ::
    "node list \<Rightarrow> u16 list \<Rightarrow> (nat \<times> pool_ref option) list \<Rightarrow> bool list \<Rightarrow> scan \<Rightarrow> (scan \<times> bool list) option" where
  "scan_loop arena pool [] visited sc = Some (sc, visited)"
| "scan_loop arena pool ((nid, parent) # stack) visited sc =
     (case get arena nid of
        None \<Rightarrow> None
      | Some n \<Rightarrow>
          (case scan_fields arena pool parent (nd_fields n)
              \<lparr>wk_scan = sc, wk_visited = visited, wk_stack = stack, wk_hex_fields = 0, wk_hex = None,
               wk_objects = 0, wk_child = None\<rparr> of
             None \<Rightarrow> None
           | Some w \<Rightarrow> scan_loop arena pool (wk_stack w) (wk_visited w) (scan_pow arena n w)))"
  by pat_completeness auto
termination
  by (relation "measure (\<lambda>(arena, pool, stack, visited, sc). unvisited visited + length stack)")
    (auto dest!: scan_fields_measure)

definition scan_tree ::
    "node list \<Rightarrow> u16 list \<Rightarrow> nat \<Rightarrow> bool list \<Rightarrow> (scan \<times> bool list) option" where
  "scan_tree arena pool rt visited =
     (if length visited \<le> rt then None
      else scan_loop arena pool [(rt, None)] (visited[rt := True])
             \<lparr>sc_versions = 0, sc_pows = 0, sc_pow = None, sc_hexes = []\<rparr>)"

subsection \<open>Following a register\<close>

definition classify :: "u16 list \<Rightarrow> u16 list \<Rightarrow> u16 list \<Rightarrow> cclass" where
  "classify key a b = (if key = a then Class_A else if key = b then Class_B else Class_Other)"

fun resolve :: "instr list \<Rightarrow> u64 list \<Rightarrow> nat \<Rightarrow> nat \<Rightarrow> instr option" where
  "resolve instrs leaders 0 reg = None"
| "resolve instrs leaders (Suc j) reg =
     (if leaders_has leaders (in_pc (instrs ! Suc j)) then None
      else let ins = instrs ! j in
        if op_flow (in_op ins) \<noteq> Flow_Next then None
        else if in_dest ins = Some reg \<or> (in_op ins = Op_CallM \<and> reg = CALL_RESULT_REG) then Some ins
        else resolve instrs leaders j reg)"

definition reads_key :: "instr list \<Rightarrow> u64 list \<Rightarrow> u16 list \<Rightarrow> nat \<Rightarrow> nat \<Rightarrow> u16 list \<Rightarrow> bool" where
  "reads_key instrs leaders pool k reg parent =
     (case resolve instrs leaders k reg of
        Some d \<Rightarrow> in_op d = Op_GetProp \<and>
          (case in_arg d 1 of Opd_Str key \<Rightarrow> units pool key = parent | _ \<Rightarrow> False)
      | None \<Rightarrow> False)"

definition operand_class ::
    "instr list \<Rightarrow> u64 list \<Rightarrow> u16 list \<Rightarrow> (i32 \<rightharpoonup> cclass) \<Rightarrow> nat \<Rightarrow> operand \<Rightarrow> u16 list \<Rightarrow> u16 list \<Rightarrow>
      cclass option" where
  "operand_class instrs leaders pool vars k x a b =
     (case x of
        Opd_Reg r \<Rightarrow>
          (case resolve instrs leaders k r of
             None \<Rightarrow> None
           | Some d \<Rightarrow>
               if in_op d = Op_GetProp
               then (case in_arg d 1 of Opd_Str key \<Rightarrow> Some (classify (units pool key) a b) | _ \<Rightarrow> None)
               else if in_op d = Op_GetVar
               then (case in_arg d 0 of Opd_Int v \<Rightarrow> vars v | _ \<Rightarrow> None)
               else None)
      | _ \<Rightarrow> None)"

subsection \<open>extract\<close>

text \<open>The first pass: jump targets, and every literal that can be evaluated.\<close>

record pass1 =
  p1_leaders :: "u64 list"
  p1_arena :: "node list"
  p1_blocks :: "block list"

definition closure_target :: "instr \<Rightarrow> nat option" where
  "closure_target ins =
     (case in_arg ins 0 of Opd_Int t \<Rightarrow> if 0 \<le> sint t then Some (idx t) else None | _ \<Rightarrow> None)"

definition pass1_step :: "instr list \<Rightarrow> u16 list \<Rightarrow> pass1 \<Rightarrow> nat \<times> instr \<Rightarrow> pass1" where
  "pass1_step instrs pool st ki =
     (let (k, ins) = ki;
          l1 = (case target ins of Some t \<Rightarrow> leaders_set (p1_leaders st) t | None \<Rightarrow> p1_leaders st);
          st1 = st\<lparr>p1_leaders := l1\<rparr>
      in case in_op ins of
        Op_Closure \<Rightarrow> (case closure_target ins of Some t \<Rightarrow> st1\<lparr>p1_leaders := leaders_set l1 t\<rparr> | None \<Rightarrow> st1)
      | Op_SetCatch \<Rightarrow> (case closure_target ins of Some t \<Rightarrow> st1\<lparr>p1_leaders := leaders_set l1 t\<rparr> | None \<Rightarrow> st1)
      | Op_SetFinally \<Rightarrow> (case closure_target ins of Some t \<Rightarrow> st1\<lparr>p1_leaders := leaders_set l1 t\<rparr> | None \<Rightarrow> st1)
      | Op_Global \<Rightarrow>
          (case eval_block instrs pool k (p1_arena st1) of
             (arena, Some b) \<Rightarrow> st1\<lparr>p1_arena := arena, p1_blocks := p1_blocks st1 @ [b]\<rparr>
           | (arena, None) \<Rightarrow> st1\<lparr>p1_arena := arena\<rparr>)
      | _ \<Rightarrow> st1)"

definition extract_pass1 :: "instr list \<Rightarrow> u16 list \<Rightarrow> pass1" where
  "extract_pass1 instrs pool =
     foldl (pass1_step instrs pool)
       \<lparr>p1_leaders = leaders_new (if instrs = [] then 0 else in_pc (last instrs)), p1_arena = [], p1_blocks = []\<rparr>
       (enumerate 0 instrs)"

text \<open>The scan of every block: how many hold a configuration, and the first of them.\<close>

fun scan_blocks ::
    "node list \<Rightarrow> u16 list \<Rightarrow> block list \<Rightarrow> bool list \<Rightarrow> nat \<Rightarrow> (block \<times> scan) option \<Rightarrow>
      (nat \<times> (block \<times> scan) option) option" where
  "scan_blocks arena pool [] visited configs found = Some (configs, found)"
| "scan_blocks arena pool (b # bs) visited configs found =
     (case scan_tree arena pool (bk_root b) visited of
        None \<Rightarrow> None
      | Some (sc, visited') \<Rightarrow>
          if 0 < sc_versions sc \<and> 0 < sc_pows sc
          then scan_blocks arena pool bs visited' (configs + 1)
                 (if found = None then Some (b, sc) else found)
          else scan_blocks arena pool bs visited' configs found)"

definition choose_config ::
    "nat \<Rightarrow> (block \<times> scan) option \<Rightarrow> config_error + block \<times> scan \<times> pow" where
  "choose_config configs found =
     (case found of
        None \<Rightarrow> Inl CfgNoConfig
      | Some (b, sc) \<Rightarrow>
          if configs = 0 then Inl CfgNoConfig
          else if configs \<noteq> 1 then Inl (CfgConfigCount configs)
          else if sc_versions sc \<noteq> 1 then Inl (CfgVersionCount (sc_versions sc))
          else if sc_pows sc \<noteq> 1 then Inl (CfgPowNodeCount (sc_pows sc))
          else (case sc_pow sc of None \<Rightarrow> Inl (CfgPowNodeCount 0) | Some p \<Rightarrow> Inr (b, sc, p)))"

text \<open>The second pass: classes of variables, reads of the suffix and of hex keys, divisions.\<close>

record pass2 =
  p2_vars :: "i32 \<rightharpoonup> cclass"
  p2_divs :: "nat list"
  p2_suffix_read :: bool
  p2_hexes :: "hex list"

definition stored_class ::
    "instr list \<Rightarrow> u64 list \<Rightarrow> u16 list \<Rightarrow> nat \<Rightarrow> operand \<Rightarrow> u16 list \<Rightarrow> u16 list \<Rightarrow> cclass" where
  "stored_class instrs leaders pool k x a b =
     (case x of
        Opd_Reg r \<Rightarrow>
          (case resolve instrs leaders k r of
             Some d \<Rightarrow> if in_op d = Op_GetProp
               then (case in_arg d 1 of Opd_Str key \<Rightarrow> classify (units pool key) a b | _ \<Rightarrow> Class_Dropped)
               else Class_Dropped
           | None \<Rightarrow> Class_Dropped)
      | _ \<Rightarrow> Class_Dropped)"

definition merge_class :: "(i32 \<rightharpoonup> cclass) \<Rightarrow> i32 \<Rightarrow> cclass \<Rightarrow> (i32 \<rightharpoonup> cclass)" where
  "merge_class vars v c =
     (case vars v of Some c' \<Rightarrow> vars(v \<mapsto> (if c' \<noteq> c then Class_Dropped else c')) | None \<Rightarrow> vars(v \<mapsto> c))"

definition read_hex ::
    "instr list \<Rightarrow> u64 list \<Rightarrow> u16 list \<Rightarrow> nat \<Rightarrow> nat \<Rightarrow> u16 list \<Rightarrow> hex \<Rightarrow> hex" where
  "read_hex instrs leaders pool k r key h =
     (case hx_parent h of
        Some parent \<Rightarrow>
          if \<not> hx_read h \<and> units pool (hx_key h) = key \<and> reads_key instrs leaders pool k r (units pool parent)
          then h\<lparr>hx_read := True\<rparr> else h
      | None \<Rightarrow> h)"

definition pass2_step ::
    "instr list \<Rightarrow> u64 list \<Rightarrow> u16 list \<Rightarrow> block \<Rightarrow> u16 list \<Rightarrow> u16 list \<Rightarrow> u16 list \<Rightarrow> pass2 \<Rightarrow> nat \<times> instr \<Rightarrow> pass2"
where
  "pass2_step instrs leaders pool b ka kb suffix_key st ki =
     (let (k, ins) = ki in
      if in_op ins = Op_AssignVar \<or> in_op ins = Op_SetVar then
        (case in_arg ins 0 of
           Opd_Int v \<Rightarrow> st\<lparr>p2_vars :=
             merge_class (p2_vars st) v (stored_class instrs leaders pool k (in_arg ins 1) ka kb)\<rparr>
         | _ \<Rightarrow> st)
      else if in_op ins = Op_GetProp \<and> (k < bk_start b \<or> bk_end b < k) then
        (case in_arg ins 1 of
           Opd_Str kr \<Rightarrow>
             let key = units pool kr;
                 st1 = (if key = suffix_key then st\<lparr>p2_suffix_read := True\<rparr> else st)
             in (case in_arg ins 0 of
                   Opd_Reg r \<Rightarrow> st1\<lparr>p2_hexes := map (read_hex instrs leaders pool k r key) (p2_hexes st1)\<rparr>
                 | _ \<Rightarrow> st1)
         | _ \<Rightarrow> st)
      else if in_op ins = Op_DivRR \<or> in_op ins = Op_DivOR \<or> in_op ins = Op_DivRO then
        st\<lparr>p2_divs := p2_divs st @ [k]\<rparr>
      else st)"

definition extract_pass2 ::
    "instr list \<Rightarrow> u64 list \<Rightarrow> u16 list \<Rightarrow> block \<Rightarrow> hex list \<Rightarrow> params \<Rightarrow> pass2" where
  "extract_pass2 instrs leaders pool b hexes pa =
     foldl (pass2_step instrs leaders pool b (units pool (fst (pa_num0 pa))) (units pool (fst (pa_num1 pa)))
         (units pool (pa_suffix_key pa)))
       \<lparr>p2_vars = Map.empty, p2_divs = [], p2_suffix_read = False, p2_hexes = hexes\<rparr>
       (enumerate 0 instrs)"

text \<open>The divisions: which of the two numbers is always the numerator.\<close>

fun division_order ::
    "instr list \<Rightarrow> u64 list \<Rightarrow> u16 list \<Rightarrow> (i32 \<rightharpoonup> cclass) \<Rightarrow> u16 list \<Rightarrow> u16 list \<Rightarrow> nat list \<Rightarrow> bool option \<Rightarrow>
      config_error + bool option" where
  "division_order instrs leaders pool vars a b [] first = Inr first"
| "division_order instrs leaders pool vars a b (k # ks) first =
     (let ins = instrs ! k;
          n = operand_class instrs leaders pool vars k (in_arg ins 0) a b;
          d = operand_class instrs leaders pool vars k (in_arg ins 1) a b
      in case (if n = Some Class_A \<and> d = Some Class_B then Some True
               else if n = Some Class_B \<and> d = Some Class_A then Some False else None) of
        None \<Rightarrow> division_order instrs leaders pool vars a b ks first
      | Some order \<Rightarrow>
          (case first of
             None \<Rightarrow> division_order instrs leaders pool vars a b ks (Some order)
           | Some x \<Rightarrow> if x \<noteq> order
               then Inl (CfgDivisionConflict (units_to_string a) (units_to_string b))
               else division_order instrs leaders pool vars a b ks first))"

definition seed_read :: "u16 list \<Rightarrow> hex list \<Rightarrow> pow \<Rightarrow> config_error + unit" where
  "seed_read pool hexes p =
     (let reads = filter hx_read hexes in
      if length reads \<noteq> 1 then Inl (CfgSeedReadCount (length reads))
      else let r = last reads in
        if hx_key r \<noteq> pw_seed_key p \<or> hx_value r \<noteq> pw_seed p
        then Inl (CfgSeedNotPow (units_to_string (units pool (hx_key r)))
                                (units_to_string (units pool (pw_seed_key p))))
        else Inr ())"

definition extract_finish :: "u16 list \<Rightarrow> pow \<Rightarrow> bool \<Rightarrow> bool \<Rightarrow> hex list \<Rightarrow> config_error + pow_config" where
  "extract_finish pool p numerator_first suffix_read hexes =
     (let pa = pw_params p;
          (num, den) = (if numerator_first then (pa_num0 pa, pa_num1 pa) else (pa_num1 pa, pa_num0 pa)) in
      if \<not> f64_lt (f64_zero False) (snd num) then Inl (CfgDifficulty (snd num))
      else if \<not> (f64_le (f64_of_int 1) (snd den) \<and> f64_le (snd den) (f64_of_int (2 ^ 32 - 1)))
      then Inl (CfgSubCount (snd den))
      else if \<not> suffix_read
      then Inl (CfgSuffixUnread (units_to_string (units pool (pa_suffix_key pa))))
      else res_bind (seed_read pool hexes p) (\<lambda>_.
        Inr \<lparr>pc_difficulty = snd num, pc_sub_count = nat (f64_sat 0 (2 ^ 32 - 1) (snd den)),
             pc_seed_suffix = units_to_string (units pool (pa_suffix pa)),
             pc_seed_phrase = units_to_string (units pool (pw_seed p)),
             pc_keys = \<lparr>pk_difficulty = fst num, pk_sub_count = fst den,
               pk_seed_suffix = pa_suffix_key pa, pk_seed_phrase = pw_seed_key p\<rparr>\<rparr>))"

definition extract_config :: "instr list \<Rightarrow> u16 list \<Rightarrow> (config_error + pow_config) option" where
  "extract_config instrs pool =
     (let p1 = extract_pass1 instrs pool; leaders = p1_leaders p1; arena = p1_arena p1 in
      case scan_blocks arena pool (p1_blocks p1) (replicate (length arena) False) 0 None of
        None \<Rightarrow> None
      | Some (configs, found) \<Rightarrow> Some (
          res_bind (choose_config configs found) (\<lambda>(b, sc, p).
          let pa = pw_params p;
              a = units pool (fst (pa_num0 pa)); bb = units pool (fst (pa_num1 pa));
              p2 = extract_pass2 instrs leaders pool b (sc_hexes sc) pa
          in res_bind (division_order instrs leaders pool (p2_vars p2) a bb (p2_divs p2) None) (\<lambda>first.
          case first of
            None \<Rightarrow> Inl (CfgNoDivision (units_to_string a) (units_to_string bb))
          | Some numerator_first \<Rightarrow>
              extract_finish pool p numerator_first (p2_suffix_read p2) (p2_hexes p2)))))"

subsection \<open>Leaders hold exactly the targets\<close>

lemma leaders_bit: "drop_bit k (w :: u64) AND 1 = 1 \<longleftrightarrow> bit w k"
  by (simp add: bit_iff_odd_drop_bit and_one_eq odd_iff_mod_2_eq_one)

lemma length_leaders_set [simp]: "length (leaders_set ws pc) = length ws"
  by (simp add: leaders_set_def split: option.split)

lemma leaders_has_set:
  "leaders_has (leaders_set ws pc) q \<longleftrightarrow> leaders_has ws q \<or> (q = pc \<and> pc div 64 < length ws)"
proof -
  have b: "bit (w OR 2 ^ (pc mod 64) :: u64) (r mod 64) \<longleftrightarrow> bit w (r mod 64) \<or> r mod 64 = pc mod 64" for w r
    using mod_less_divisor[of 64 pc] mod_less_divisor[of 64 r]
    by (auto simp: bit_or_iff bit_exp_iff)
  have "q = pc \<longleftrightarrow> q div 64 = pc div 64 \<and> q mod 64 = pc mod 64"
    using div_mult_mod_eq[of q 64] div_mult_mod_eq[of pc 64] by metis
  then show ?thesis
    by (auto simp: leaders_has_def leaders_set_def leaders_bit b nth_list_update get_def)
qed

lemma leaders_has_new: "\<not> leaders_has (leaders_new n) q"
proof -
  have "leaders_new n ! k = 0" if "k < length (leaders_new n)" for k
    using that by (simp add: leaders_new_def del: replicate_Suc)
  then show ?thesis by (auto simp: leaders_has_def leaders_bit get_def)
qed

subsection \<open>The arena stays closed\<close>


































subsection \<open>The walk stays inside the arena\<close>






subsection \<open>Following a register, reading a version\<close>

definition defines_reg :: "nat \<Rightarrow> instr \<Rightarrow> bool" where
  "defines_reg reg d \<longleftrightarrow> in_dest d = Some reg \<or> (in_op d = Op_CallM \<and> reg = CALL_RESULT_REG)"

text \<open>\<open>d\<close> is the last instruction before \<open>k\<close> that defines \<open>reg\<close>, in the basic block of \<open>k\<close>.\<close>

definition reaching :: "instr list \<Rightarrow> u64 list \<Rightarrow> nat \<Rightarrow> nat \<Rightarrow> instr \<Rightarrow> bool" where
  "reaching instrs leaders k reg d \<longleftrightarrow>
     (\<exists>j<k. d = instrs ! j \<and> defines_reg reg d
        \<and> (\<forall>i. j < i \<and> i \<le> k \<longrightarrow> \<not> leaders_has leaders (in_pc (instrs ! i)))
        \<and> (\<forall>i. j \<le> i \<and> i < k \<longrightarrow> op_flow (in_op (instrs ! i)) = Flow_Next)
        \<and> (\<forall>i. j < i \<and> i < k \<longrightarrow> \<not> defines_reg reg (instrs ! i)))"

lemma reaching_Suc:
  "reaching instrs leaders (Suc k) reg d \<longleftrightarrow>
     \<not> leaders_has leaders (in_pc (instrs ! Suc k)) \<and> op_flow (in_op (instrs ! k)) = Flow_Next
     \<and> (if defines_reg reg (instrs ! k) then d = instrs ! k else reaching instrs leaders k reg d)"
  (is "?L \<longleftrightarrow> ?R")
proof
  assume ?L
  then obtain j where j: "j < Suc k" "d = instrs ! j" "defines_reg reg d"
    "\<forall>i. j < i \<and> i \<le> Suc k \<longrightarrow> \<not> leaders_has leaders (in_pc (instrs ! i))"
    "\<forall>i. j \<le> i \<and> i < Suc k \<longrightarrow> op_flow (in_op (instrs ! i)) = Flow_Next"
    "\<forall>i. j < i \<and> i < Suc k \<longrightarrow> \<not> defines_reg reg (instrs ! i)"
    unfolding reaching_def by blast
  show ?R
  proof (cases "j = k")
    case True
    then show ?thesis using j by auto
  next
    case False
    then have "j < k" using j(1) by simp
    then have "reaching instrs leaders k reg d"
      unfolding reaching_def using j by (intro exI[of _ j]) auto
    moreover have "\<not> defines_reg reg (instrs ! k)" using j(6) \<open>j < k\<close> by auto
    ultimately show ?thesis using j \<open>j < k\<close> by auto
  qed
next
  assume R: ?R
  show ?L
  proof (cases "defines_reg reg (instrs ! k)")
    case True
    then show ?thesis using R unfolding reaching_def by (intro exI[of _ k]) (auto simp: le_Suc_eq less_Suc_eq)
  next
    case False
    then have "reaching instrs leaders k reg d" using R by simp
    then obtain j where "j < k" "d = instrs ! j" "defines_reg reg d"
      "\<forall>i. j < i \<and> i \<le> k \<longrightarrow> \<not> leaders_has leaders (in_pc (instrs ! i))"
      "\<forall>i. j \<le> i \<and> i < k \<longrightarrow> op_flow (in_op (instrs ! i)) = Flow_Next"
      "\<forall>i. j < i \<and> i < k \<longrightarrow> \<not> defines_reg reg (instrs ! i)"
      unfolding reaching_def by blast
    then show ?thesis
      using R False unfolding reaching_def by (intro exI[of _ j]) (auto simp: le_Suc_eq less_Suc_eq)
  qed
qed

lemma resolve_reaching: "resolve instrs leaders k reg = Some d \<longleftrightarrow> reaching instrs leaders k reg d"
proof (induction k)
  case 0
  then show ?case by (simp add: reaching_def)
next
  case (Suc k)
  then show ?case by (auto simp: reaching_Suc defines_reg_def Let_def)
qed

text \<open>One group of digits: up to the end, or up to a dot.\<close>

definition after_digits :: "nat \<Rightarrow> u16 list \<Rightarrow> bool" where
  "after_digits dots r \<longleftrightarrow>
     (if dots = 2 then r = [] else dots < 2 \<and> (\<exists>r'. r = 46 # r' \<and> version_loop r' (dots + 1) 0))"

lemma version_loop_split:
  "version_loop u dots d \<longleftrightarrow> 0 < d + length (takeWhile is_digit u) \<and> after_digits dots (dropWhile is_digit u)"
  by (induction u arbitrary: d) (auto simp: after_digits_def)

lemma digits_split:
  "0 < length (takeWhile is_digit u) \<and> dropWhile is_digit u = 46 # r
    \<longleftrightarrow> (\<exists>a. a \<noteq> [] \<and> list_all is_digit a \<and> u = a @ 46 # r)"
proof
  assume "0 < length (takeWhile is_digit u) \<and> dropWhile is_digit u = 46 # r"
  moreover have "u = takeWhile is_digit u @ dropWhile is_digit u" by simp
  moreover have "list_all is_digit (takeWhile is_digit u)" by (auto simp: list_all_iff dest: set_takeWhileD)
  ultimately show "\<exists>a. a \<noteq> [] \<and> list_all is_digit a \<and> u = a @ 46 # r"
    by (intro exI[of _ "takeWhile is_digit u"]) (simp del: takeWhile_dropWhile_id)
next
  assume "\<exists>a. a \<noteq> [] \<and> list_all is_digit a \<and> u = a @ 46 # r"
  then show "0 < length (takeWhile is_digit u) \<and> dropWhile is_digit u = 46 # r"
    by (auto simp: list_all_iff dropWhile_append takeWhile_append is_digit_def)
qed

lemma digits_end: "0 < length (takeWhile is_digit u) \<and> dropWhile is_digit u = [] \<longleftrightarrow> u \<noteq> [] \<and> list_all is_digit u"
  by (auto simp: list_all_iff dropWhile_eq_Nil_conv) (cases u; auto)

lemma version_loop_group:
  "dots < 2 \<Longrightarrow> version_loop u dots 0 \<longleftrightarrow>
    (\<exists>a r. a \<noteq> [] \<and> list_all is_digit a \<and> u = a @ 46 # r \<and> version_loop r (dots + 1) 0)"
proof -
  assume d: "dots < 2"
  have "version_loop u dots 0 \<longleftrightarrow> (\<exists>r. (0 < length (takeWhile is_digit u) \<and> dropWhile is_digit u = 46 # r)
      \<and> version_loop r (dots + 1) 0)"
    using d by (subst version_loop_split) (auto simp: after_digits_def)
  then show ?thesis unfolding digits_split by blast
qed

lemma version_loop_last: "version_loop u 2 0 \<longleftrightarrow> u \<noteq> [] \<and> list_all is_digit u"
  using digits_end[of u] by (subst version_loop_split) (auto simp: after_digits_def)

subsection \<open>What an extracted configuration holds\<close>

text \<open>Facts about the scan that survive every step of the walk.\<close>

definition pow_ok :: "u16 list \<Rightarrow> pow \<Rightarrow> bool" where
  "pow_ok pool p \<longleftrightarrow> is_hex64 (units pool (pw_seed p))
     \<and> is_finite (snd (pa_num0 (pw_params p))) \<and> f64_integral (snd (pa_num0 (pw_params p)))
     \<and> is_finite (snd (pa_num1 (pw_params p))) \<and> f64_integral (snd (pa_num1 (pw_params p)))"

definition scan_ok :: "u16 list \<Rightarrow> scan \<Rightarrow> bool" where
  "scan_ok pool sc \<longleftrightarrow> (case sc_pow sc of Some p \<Rightarrow> pow_ok pool p | None \<Rightarrow> True)"

definition walk_hex_ok :: "u16 list \<Rightarrow> walk \<Rightarrow> bool" where
  "walk_hex_ok pool w \<longleftrightarrow> scan_ok pool (wk_scan w)
     \<and> (case wk_hex w of Some (k, s) \<Rightarrow> is_hex64 (units pool s) | None \<Rightarrow> True)"

lemma numeric_ok:
  assumes "numeric v = Some x"
  shows "is_finite x \<and> f64_integral x"
proof (cases v)
  case (Val_Int i)
  have "\<bar>sint i\<bar> \<le> 2 ^ 53" using sint_range_size[of i] by (auto simp: word_size)
  then have "f64_exact (sint i)" by (rule f64_exact_small)
  then show ?thesis using assms Val_Int f64_trunc_of_int(2) f64_of_int_finite by (auto simp: numeric_def)
qed (use assms in \<open>auto simp: numeric_def split: if_splits\<close>)

lemma params_loop_ok:
  "params_loop flds nums suffix = Some (nums', suffix') \<Longrightarrow>
    \<forall>n \<in> set nums. is_finite (snd n) \<and> f64_integral (snd n) \<Longrightarrow>
    \<forall>n \<in> set nums'. is_finite (snd n) \<and> f64_integral (snd n)"
proof (induction flds arbitrary: nums suffix)
  case (Cons kv flds)
  obtain kr v where k: "kv = (Key_Str kr, v)" using Cons.prems(1) by (cases kv; cases "fst kv") auto
  show ?case
  proof (cases "\<exists>s. v = Val_Str s")
    case True
    then obtain s where "v = Val_Str s" by blast
    then have "params_loop flds nums (Some (kr, s)) = Some (nums', suffix')"
      using Cons.prems(1) k by (auto split: if_splits)
    then show ?thesis using Cons.prems(2) by (rule Cons.IH)
  next
    case False
    then obtain x where x: "numeric v = Some x" "length nums \<noteq> 2"
        "params_loop flds (nums @ [(kr, x)]) suffix = Some (nums', suffix')"
      using Cons.prems(1) k by (cases v) (auto split: option.splits if_splits)
    have "\<forall>n \<in> set (nums @ [(kr, x)]). is_finite (snd n) \<and> f64_integral (snd n)"
      using Cons.prems(2) numeric_ok[OF x(1)] by auto
    then show ?thesis by (rule Cons.IH[OF x(3)])
  qed
qed simp

lemma params_of_ok:
  assumes "params_of n = Some pa"
  shows "is_finite (snd (pa_num0 pa)) \<and> f64_integral (snd (pa_num0 pa))
    \<and> is_finite (snd (pa_num1 pa)) \<and> f64_integral (snd (pa_num1 pa))"
proof -
  obtain n0 n1 sx where "params_loop (nd_fields n) [] None = Some ([n0, n1], Some sx)"
      "pa_num0 pa = n0" "pa_num1 pa = n1"
    using assms by (auto simp: params_of_def split: if_splits option.splits list.splits)
  then show ?thesis using params_loop_ok[of "nd_fields n" "[]" None "[n0, n1]"] by simp
qed

lemma scan_pow_ok: "walk_hex_ok pool w \<Longrightarrow> scan_ok pool (scan_pow arena n w)"
  by (auto simp: scan_pow_def walk_hex_ok_def scan_ok_def pow_ok_def Let_def params_of_ok split: option.split)

lemma scan_str_hex_ok: "walk_hex_ok pool w \<Longrightarrow> walk_hex_ok pool (scan_str pool parent key s w)"
  by (auto simp: scan_str_def walk_hex_ok_def scan_ok_def Let_def split: key.split)

lemma scan_node_hex_ok: "scan_node arena key c w = Some w' \<Longrightarrow> walk_hex_ok pool w \<Longrightarrow> walk_hex_ok pool w'"
  by (auto simp: scan_node_def walk_hex_ok_def Let_def split: option.splits if_splits)

lemma scan_fields_hex_ok:
  "scan_fields arena pool parent flds w = Some w' \<Longrightarrow> walk_hex_ok pool w \<Longrightarrow> walk_hex_ok pool w'"
  by (induction arena pool parent flds w rule: scan_fields.induct)
    (auto split: val.splits option.splits intro: scan_str_hex_ok scan_node_hex_ok)

lemma scan_loop_hex_ok:
  "scan_loop arena pool stack visited sc = Some (sc', visited') \<Longrightarrow> scan_ok pool sc \<Longrightarrow> scan_ok pool sc'"
proof (induction arena pool stack visited sc rule: scan_loop.induct)
  case (2 arena pool nid parent stack visited sc)
  obtain n w where n: "get arena nid = Some n" and w: "scan_fields arena pool parent (nd_fields n)
        \<lparr>wk_scan = sc, wk_visited = visited, wk_stack = stack, wk_hex_fields = 0, wk_hex = None,
         wk_objects = 0, wk_child = None\<rparr> = Some w"
    and rest: "scan_loop arena pool (wk_stack w) (wk_visited w) (scan_pow arena n w) = Some (sc', visited')"
    using "2.prems"(1) by (simp split: option.splits)
  have "walk_hex_ok pool w"
    by (rule scan_fields_hex_ok[OF w]) (simp add: walk_hex_ok_def "2.prems"(2))
  then show ?case by (intro "2.IH"[OF n w rest] scan_pow_ok)
qed simp

lemma scan_blocks_hex_ok:
  "scan_blocks arena pool bs visited configs found = Some (configs', found') \<Longrightarrow>
    (case found of Some (b, sc) \<Rightarrow> scan_ok pool sc | None \<Rightarrow> True) \<Longrightarrow>
    case found' of Some (b, sc) \<Rightarrow> scan_ok pool sc | None \<Rightarrow> True"
proof (induction arena pool bs visited configs found rule: scan_blocks.induct)
  case (2 arena pool b bs visited configs found)
  then obtain sc v where t: "scan_tree arena pool (bk_root b) visited = Some (sc, v)"
    by (auto split: option.splits)
  then have "scan_loop arena pool [(bk_root b, None)] (visited[bk_root b := True])
      \<lparr>sc_versions = 0, sc_pows = 0, sc_pow = None, sc_hexes = []\<rparr> = Some (sc, v)"
    by (simp add: scan_tree_def split: if_splits)
  then have "scan_ok pool sc" by (rule scan_loop_hex_ok) (simp add: scan_ok_def)
  then show ?case using 2 t by (auto split: if_splits)
qed simp

lemma extract_config_cases:
  assumes "extract_config instrs pool = Some (Inr cfg)"
  shows "\<exists>p order suffix_read hexes. pow_ok pool p \<and> extract_finish pool p order suffix_read hexes = Inr cfg"
proof -
  define p1 where "p1 = extract_pass1 instrs pool"
  obtain configs found where sb: "scan_blocks (p1_arena p1) pool (p1_blocks p1)
      (replicate (length (p1_arena p1)) False) 0 None = Some (configs, found)"
    using assms by (auto simp: extract_config_def Let_def p1_def split: option.splits)
  note ok = scan_blocks_hex_ok[OF sb]
  obtain b sc p where ch: "choose_config configs found = Inr (b, sc, p)"
    using assms sb by (auto simp: extract_config_def Let_def p1_def res_simps)
  then have "pow_ok pool p"
    using ok by (auto simp: choose_config_def scan_ok_def split: option.splits if_splits)
  moreover have "\<exists>order suffix_read hexes. extract_finish pool p order suffix_read hexes = Inr cfg"
    using assms sb ch by (auto simp: extract_config_def Let_def p1_def res_simps split: option.splits)
  ultimately show ?thesis by blast
qed


lemma f64_ge_1_trunc:
  assumes "f64_le (f64_of_int 1) x" "is_finite x"
  shows "1 \<le> f64_trunc x"
proof -
  obtain s m e where x: "x = FFin s m e" using assms(2) by (cases x) auto
  have one: "f64_of_int 1 = FFin False (2 ^ 52) (-52)" by (simp add: f64_eval)
  define g where "g = min (-52) e"
  have d: "int (2 ^ 52 * 2 ^ nat (-52 - g)) \<le> f64_signed s (m * 2 ^ nat (e - g))"
    using assms(1) unfolding one x f64_le_def f64_lt.simps f64_eq.simps f64_diff_def Let_def g_def
    by (auto simp: f64_signed_def)
  have pos: "(0::nat) < 2 ^ 52 * 2 ^ nat (-52 - g)" by simp
  have s: "\<not> s"
  proof
    assume s
    then have "f64_signed s (m * 2 ^ nat (e - g)) \<le> 0" by (simp add: f64_signed_def)
    with d pos show False by linarith
  qed
  have le: "2 ^ 52 * 2 ^ nat (-52 - g) \<le> m * 2 ^ nat (e - g)"
  proof -
    have "int (2 ^ 52 * 2 ^ nat (-52 - g)) \<le> int (m * 2 ^ nat (e - g))"
      using d s by (simp only: f64_signed_def if_False)
    then show ?thesis by (simp only: of_nat_le_iff)
  qed
  consider "0 \<le> e" | "-52 \<le> e" "e < 0" | "e < -52" by linarith
  then show ?thesis
  proof cases
    case 1
    have "m \<noteq> 0" using le pos by (cases m) auto
    then have "(0::nat) < m * 2 ^ nat e" by simp
    then have "1 \<le> int (m * 2 ^ nat e)" by linarith
    then show ?thesis using 1 s x by simp
  next
    case 2
    then have g: "g = -52" by (simp add: g_def)
    have "nat (- e) + nat (e + 52) = 52" using 2 by simp
    then have "(2::nat) ^ 52 = 2 ^ nat (- e) * 2 ^ nat (e + 52)" by (metis power_add)
    moreover have "2 ^ 52 \<le> m * 2 ^ nat (e + 52)" using le by (simp add: g)
    ultimately have "2 ^ nat (- e) * 2 ^ nat (e + 52) \<le> m * 2 ^ nat (e + 52)" by (simp only:)
    then have "2 ^ nat (- e) \<le> m" by (simp only: mult_le_cancel2) simp
    then show ?thesis using 2 s x by (simp add: div_greater_zero_iff Suc_le_eq)
  next
    case 3
    then have g: "g = e" by (simp add: g_def)
    have "52 + nat (-52 - e) = nat (- e)" using 3 by simp
    then have "2 ^ 52 * 2 ^ nat (-52 - e) = (2::nat) ^ nat (- e)" by (metis power_add)
    moreover have "2 ^ 52 * 2 ^ nat (-52 - e) \<le> m" using le by (simp add: g)
    ultimately have "2 ^ nat (- e) \<le> m" by (simp only:)
    then show ?thesis using 3 s x by (simp add: div_greater_zero_iff Suc_le_eq)
  qed
qed

lemma from_utf16_lossy_map:
  "list_all (\<lambda>u. unat u < 0xD800) us \<Longrightarrow> from_utf16_lossy us = map unat us"
  by (induction us) (simp_all add: from_utf16_lossy_bmp)

lemma hex64_string:
  assumes "is_hex64 us"
  shows "length (units_to_string us) = 64"
    and "list_all (\<lambda>c. 48 \<le> c \<and> c \<le> 57 \<or> 97 \<le> c \<and> c \<le> 102) (units_to_string us)"
proof -
  have d: "48 \<le> unat u \<and> unat u \<le> 57 \<or> 97 \<le> unat u \<and> unat u \<le> 102" if "u \<in> set us" for u
    using assms that by (auto simp: is_hex64_def list_all_iff is_digit_def word_le_nat_alt)
  then have "from_utf16_lossy us = map unat us"
    by (intro from_utf16_lossy_map) (fastforce simp: list_all_iff)
  then show "length (units_to_string us) = 64"
    "list_all (\<lambda>c. 48 \<le> c \<and> c \<le> 57 \<or> 97 \<le> c \<and> c \<le> 102) (units_to_string us)"
    using assms d by (auto simp: units_to_string_def is_hex64_def list_all_iff)
qed

lemma extract_finish_ok:
  assumes "extract_finish pool p order suffix_read hexes = Inr cfg" "pow_ok pool p"
  shows "f64_lt (f64_zero False) (pc_difficulty cfg)" "f64_integral (pc_difficulty cfg)"
    and "1 \<le> pc_sub_count cfg \<and> pc_sub_count cfg \<le> 4294967295"
    and "pc_seed_phrase cfg = units_to_string (units pool (pw_seed p))"
proof -
  define num den where "num = (if order then pa_num0 (pw_params p) else pa_num1 (pw_params p))"
    and "den = (if order then pa_num1 (pw_params p) else pa_num0 (pw_params p))"
  have f: "f64_lt (f64_zero False) (snd num)" "f64_le (f64_of_int 1) (snd den)"
    "pc_difficulty cfg = snd num" "pc_sub_count cfg = nat (f64_sat 0 (2 ^ 32 - 1) (snd den))"
    "pc_seed_phrase cfg = units_to_string (units pool (pw_seed p))"
    using assms(1) by (auto simp: extract_finish_def Let_def num_def den_def res_simps split: if_splits)
  show "f64_lt (f64_zero False) (pc_difficulty cfg)" "f64_integral (pc_difficulty cfg)"
    using f assms(2) by (auto simp: pow_ok_def num_def)
  have "is_finite (snd den)" using assms(2) by (auto simp: pow_ok_def den_def)
  with f64_ge_1_trunc[OF f(2)] have "1 \<le> f64_trunc (snd den)" by simp
  moreover from \<open>is_finite (snd den)\<close> have "f64_sat 0 (2 ^ 32 - 1) (snd den) = max 0 (min (2 ^ 32 - 1) (f64_trunc (snd den)))"
    by (cases "snd den") (simp_all add: f64_sat_def)
  ultimately show "1 \<le> pc_sub_count cfg \<and> pc_sub_count cfg \<le> 4294967295" by (auto simp: f(4))
  show "pc_seed_phrase cfg = units_to_string (units pool (pw_seed p))" by fact
qed

subsection \<open>Properties\<close>



text \<open>C10: \<open>resolve\<close> finds the definition that reaches a register: the last instruction before \<open>k\<close> that
  writes it (a call writes the result register), with no jump target after it up to \<open>k\<close> and
  only fall-through instructions in between, and fails exactly when there is none.\<close>

theorem resolve_exact:
  "(resolve instrs leaders k reg = Some d \<longleftrightarrow> reaching instrs leaders k reg d)
    \<and> (resolve instrs leaders k reg = None \<longleftrightarrow> (\<nexists>d. reaching instrs leaders k reg d))"
  using resolve_reaching[of instrs leaders k reg] by (cases "resolve instrs leaders k reg") auto

text \<open>The hand-written scanner accepts exactly the version strings: \<open>j-\<close> and three non-empty
  groups of digits separated by dots.\<close>

theorem is_version_exact:
  "is_version u \<longleftrightarrow>
    (\<exists>a b c. u = 106 # 45 # a @ 46 # b @ 46 # c \<and> a \<noteq> [] \<and> b \<noteq> [] \<and> c \<noteq> []
      \<and> list_all is_digit (a @ b @ c))"
proof -
  have "is_version u \<longleftrightarrow> (\<exists>r. u = 106 # 45 # r \<and> version_loop r 0 0)"
    by (auto simp: is_version_def split: list.splits)
  also have "\<dots> \<longleftrightarrow> (\<exists>r a r1. u = 106 # 45 # r \<and> a \<noteq> [] \<and> list_all is_digit a \<and> r = a @ 46 # r1
      \<and> (\<exists>b c. b \<noteq> [] \<and> list_all is_digit b \<and> r1 = b @ 46 # c \<and> version_loop c 2 0))"
    using version_loop_group[of 0] version_loop_group[of 1] by (simp add: numeral_2_eq_2)
  finally show ?thesis by (auto simp: version_loop_last) blast+
qed

end
