(* ===== verification/ConfigSample.thy ===== *)
theory ConfigSample
  imports Config
begin

text \<open>
  A complete configuration literal and the code that reads it, small enough to run
  \<open>extract_config\<close> on it: the object with the version string, the proof-of-work node
  with its 64-digit seed, the three parameters, and after the literal the reads and
  the division that tell the parameters apart. The facts about what extraction
  returns are witnessed on it.
\<close>

subsection \<open>The program\<close>

definition literal_pool :: "u16 list" where
  "literal_pool = map (\<lambda>c. word_of_nat (of_char c)) ''Objectfreezej-1.2.3ssddnnxxppwwsufvv0123456789abcdef0123456789abcdef0123456789abcdef0123456789abcdef''"

definition literal_instrs :: "instr list" where
  "literal_instrs =
    [\<lparr>in_pc = 0, in_op = Op_Global, in_argc = 1,
       in_args = [Opd_Str \<lparr>pr_off = 0, pr_len = 6\<rparr>, Opd_Undef, Opd_Undef, Opd_Undef], in_dest = Some 0\<rparr>,
     \<lparr>in_pc = 1, in_op = Op_GetProp, in_argc = 2,
       in_args = [Opd_Reg 0, Opd_Str \<lparr>pr_off = 6, pr_len = 6\<rparr>, Opd_Undef, Opd_Undef], in_dest = Some 1\<rparr>,
     \<lparr>in_pc = 2, in_op = Op_NewArrN, in_argc = 1,
       in_args = [Opd_Int 1, Opd_Undef, Opd_Undef, Opd_Undef], in_dest = Some 2\<rparr>,
     \<lparr>in_pc = 3, in_op = Op_NewObj, in_argc = 0,
       in_args = [Opd_Undef, Opd_Undef, Opd_Undef, Opd_Undef], in_dest = Some 3\<rparr>,
     \<lparr>in_pc = 4, in_op = Op_SetProp, in_argc = 3,
       in_args = [Opd_Reg 3, Opd_Str \<lparr>pr_off = 34, pr_len = 2\<rparr>, Opd_Str \<lparr>pr_off = 12, pr_len = 7\<rparr>, Opd_Undef], in_dest = None\<rparr>,
     \<lparr>in_pc = 5, in_op = Op_NewObj, in_argc = 0,
       in_args = [Opd_Undef, Opd_Undef, Opd_Undef, Opd_Undef], in_dest = Some 4\<rparr>,
     \<lparr>in_pc = 6, in_op = Op_SetProp, in_argc = 3,
       in_args = [Opd_Reg 4, Opd_Str \<lparr>pr_off = 19, pr_len = 2\<rparr>, Opd_Str \<lparr>pr_off = 36, pr_len = 64\<rparr>, Opd_Undef], in_dest = None\<rparr>,
     \<lparr>in_pc = 7, in_op = Op_NewObj, in_argc = 0,
       in_args = [Opd_Undef, Opd_Undef, Opd_Undef, Opd_Undef], in_dest = Some 5\<rparr>,
     \<lparr>in_pc = 8, in_op = Op_SetProp, in_argc = 3,
       in_args = [Opd_Reg 5, Opd_Str \<lparr>pr_off = 21, pr_len = 2\<rparr>, Opd_Int 10, Opd_Undef], in_dest = None\<rparr>,
     \<lparr>in_pc = 9, in_op = Op_SetProp, in_argc = 3,
       in_args = [Opd_Reg 5, Opd_Str \<lparr>pr_off = 23, pr_len = 2\<rparr>, Opd_Int 2, Opd_Undef], in_dest = None\<rparr>,
     \<lparr>in_pc = 10, in_op = Op_SetProp, in_argc = 3,
       in_args = [Opd_Reg 5, Opd_Str \<lparr>pr_off = 25, pr_len = 2\<rparr>, Opd_Str \<lparr>pr_off = 31, pr_len = 3\<rparr>, Opd_Undef], in_dest = None\<rparr>,
     \<lparr>in_pc = 11, in_op = Op_SetProp, in_argc = 3,
       in_args = [Opd_Reg 4, Opd_Str \<lparr>pr_off = 27, pr_len = 2\<rparr>, Opd_Reg 5, Opd_Undef], in_dest = None\<rparr>,
     \<lparr>in_pc = 12, in_op = Op_SetProp, in_argc = 3,
       in_args = [Opd_Reg 3, Opd_Str \<lparr>pr_off = 29, pr_len = 2\<rparr>, Opd_Reg 4, Opd_Undef], in_dest = None\<rparr>,
     \<lparr>in_pc = 13, in_op = Op_SetProp, in_argc = 3,
       in_args = [Opd_Reg 2, Opd_Int 0, Opd_Reg 3, Opd_Undef], in_dest = None\<rparr>,
     \<lparr>in_pc = 14, in_op = Op_CallM, in_argc = 3,
       in_args = [Opd_Reg 0, Opd_Reg 1, Opd_Reg 2, Opd_Undef], in_dest = None\<rparr>,
     \<lparr>in_pc = 15, in_op = Op_GetProp, in_argc = 2,
       in_args = [Opd_Reg 6, Opd_Str \<lparr>pr_off = 21, pr_len = 2\<rparr>, Opd_Undef, Opd_Undef], in_dest = Some 7\<rparr>,
     \<lparr>in_pc = 16, in_op = Op_GetProp, in_argc = 2,
       in_args = [Opd_Reg 6, Opd_Str \<lparr>pr_off = 23, pr_len = 2\<rparr>, Opd_Undef, Opd_Undef], in_dest = Some 8\<rparr>,
     \<lparr>in_pc = 17, in_op = Op_DivRR, in_argc = 2,
       in_args = [Opd_Reg 7, Opd_Reg 8, Opd_Undef, Opd_Undef], in_dest = Some 9\<rparr>,
     \<lparr>in_pc = 18, in_op = Op_GetProp, in_argc = 2,
       in_args = [Opd_Reg 6, Opd_Str \<lparr>pr_off = 25, pr_len = 2\<rparr>, Opd_Undef, Opd_Undef], in_dest = Some 10\<rparr>,
     \<lparr>in_pc = 19, in_op = Op_GetProp, in_argc = 2,
       in_args = [Opd_Reg 11, Opd_Str \<lparr>pr_off = 29, pr_len = 2\<rparr>, Opd_Undef, Opd_Undef], in_dest = Some 12\<rparr>,
     \<lparr>in_pc = 20, in_op = Op_GetProp, in_argc = 2,
       in_args = [Opd_Reg 12, Opd_Str \<lparr>pr_off = 19, pr_len = 2\<rparr>, Opd_Undef, Opd_Undef], in_dest = Some 13\<rparr>]"

subsection \<open>Running the extraction\<close>

lemma literal_units:
  "units literal_pool \<lparr>pr_off = 0, pr_len = 6\<rparr> = [79, 98, 106, 101, 99, 116]"
  "units literal_pool \<lparr>pr_off = 6, pr_len = 6\<rparr> = [102, 114, 101, 101, 122, 101]"
  "units literal_pool \<lparr>pr_off = 12, pr_len = 7\<rparr> = [106, 45, 49, 46, 50, 46, 51]"
  "units literal_pool \<lparr>pr_off = 19, pr_len = 2\<rparr> = [115, 115]"
  "units literal_pool \<lparr>pr_off = 21, pr_len = 2\<rparr> = [100, 100]"
  "units literal_pool \<lparr>pr_off = 23, pr_len = 2\<rparr> = [110, 110]"
  "units literal_pool \<lparr>pr_off = 25, pr_len = 2\<rparr> = [120, 120]"
  "units literal_pool \<lparr>pr_off = 27, pr_len = 2\<rparr> = [112, 112]"
  "units literal_pool \<lparr>pr_off = 29, pr_len = 2\<rparr> = [119, 119]"
  "units literal_pool \<lparr>pr_off = 31, pr_len = 3\<rparr> = [115, 117, 102]"
  "units literal_pool \<lparr>pr_off = 34, pr_len = 2\<rparr> = [118, 118]"
  "units literal_pool \<lparr>pr_off = 36, pr_len = 64\<rparr> = [48, 49, 50, 51, 52, 53, 54, 55, 56, 57, 97, 98, 99, 100, 101, 102, 48, 49, 50, 51, 52, 53, 54, 55, 56, 57, 97, 98, 99, 100, 101, 102, 48, 49, 50, 51, 52, 53, 54, 55, 56, 57, 97, 98, 99, 100, 101, 102, 48, 49, 50, 51, 52, 53, 54, 55, 56, 57, 97, 98, 99, 100, 101, 102]"
  by (simp_all add: units_def get_range_def literal_pool_def)

definition literal_arena :: "node list" where
  "literal_arena =
    [\<lparr>nd_kind = Kind_Arr, nd_fields = [(Key_Idx 0, Val_Node 1)]\<rparr>,
     \<lparr>nd_kind = Kind_Obj, nd_fields = [(Key_Str \<lparr>pr_off = 34, pr_len = 2\<rparr>, Val_Str \<lparr>pr_off = 12, pr_len = 7\<rparr>), (Key_Str \<lparr>pr_off = 29, pr_len = 2\<rparr>, Val_Node 2)]\<rparr>,
     \<lparr>nd_kind = Kind_Obj, nd_fields = [(Key_Str \<lparr>pr_off = 19, pr_len = 2\<rparr>, Val_Str \<lparr>pr_off = 36, pr_len = 64\<rparr>), (Key_Str \<lparr>pr_off = 27, pr_len = 2\<rparr>, Val_Node 3)]\<rparr>,
     \<lparr>nd_kind = Kind_Obj, nd_fields = [(Key_Str \<lparr>pr_off = 21, pr_len = 2\<rparr>, Val_Int 10), (Key_Str \<lparr>pr_off = 23, pr_len = 2\<rparr>, Val_Int 2), (Key_Str \<lparr>pr_off = 25, pr_len = 2\<rparr>, Val_Str \<lparr>pr_off = 31, pr_len = 3\<rparr>)]\<rparr>]"

lemma literal_eval_block:
  "eval_block literal_instrs literal_pool 0 [] = (literal_arena, Some \<lparr>bk_start = 0, bk_end = 14, bk_root = 1\<rparr>)"
proof -
  have head: "block_head literal_instrs literal_pool 0 = Some (0, 1, 2)"
    by (simp add: literal_instrs_def block_head_def get_range_def in_arg_def eq_ascii_def literal_units OBJECT_def
        FREEZE_def bytes_def)
  show ?thesis
    unfolding eval_block_def head
    by (simp add: literal_instrs_def in_arg_def eq_ascii_def literal_units alloc_def reg_bind_def Let_def
        run_step_def step_alloc_def step_bind_def step_set_prop_def prop_node_def prop_key_def prop_val_def
        reg_get_def get_def key_eq_def literal_def step_call_def literal_arena_def)
qed

lemma literal_pass1:
  "extract_pass1 literal_instrs literal_pool
    = \<lparr>p1_leaders = [0], p1_arena = literal_arena, p1_blocks = [\<lparr>bk_start = 0, bk_end = 14, bk_root = 1\<rparr>]\<rparr>"
proof -
  obtain g rest where i: "literal_instrs = g # rest" "in_op g = Op_Global"
    "list_all (\<lambda>i. in_op i \<notin> {Op_Global, Op_Closure, Op_SetCatch, Op_SetFinally} \<and> target i = None) (g # rest) \<or> True"
    by (simp add: literal_instrs_def)
  show ?thesis
    using literal_eval_block
    by (simp add: extract_pass1_def pass1_step_def target_def op_flow_def leaders_new_def Let_def)
       (simp add: literal_instrs_def pass1_step_def target_def op_flow_def Let_def)
qed

definition literal_pow :: pow where
  "literal_pow = \<lparr>pw_seed_key = \<lparr>pr_off = 19, pr_len = 2\<rparr>, pw_seed = \<lparr>pr_off = 36, pr_len = 64\<rparr>, pw_params =
     \<lparr>pa_num0 = (\<lparr>pr_off = 21, pr_len = 2\<rparr>, f64_of_int 10), pa_num1 = (\<lparr>pr_off = 23, pr_len = 2\<rparr>, f64_of_int 2), pa_suffix_key = \<lparr>pr_off = 25, pr_len = 2\<rparr>, pa_suffix = \<lparr>pr_off = 31, pr_len = 3\<rparr>\<rparr>\<rparr>"

definition literal_hex :: "bool \<Rightarrow> hex" where
  "literal_hex r = \<lparr>hx_key = \<lparr>pr_off = 19, pr_len = 2\<rparr>, hx_value = \<lparr>pr_off = 36, pr_len = 64\<rparr>, hx_parent = Some \<lparr>pr_off = 29, pr_len = 2\<rparr>, hx_read = r\<rparr>"

lemma literal_scan:
  "scan_blocks literal_arena literal_pool [\<lparr>bk_start = 0, bk_end = 14, bk_root = 1\<rparr>] (replicate (length literal_arena) False) 0 None
    = Some (1, Some (\<lparr>bk_start = 0, bk_end = 14, bk_root = 1\<rparr>,
        \<lparr>sc_versions = 1, sc_pows = 1, sc_pow = Some literal_pow, sc_hexes = [literal_hex False]\<rparr>))"
  by (simp add: scan_tree_def literal_arena_def scan_str_def literal_units is_version_def is_digit_def is_hex64_def
      Let_def scan_node_def scan_pow_def params_of_def numeric_def literal_pow_def literal_hex_def)

lemma literal_resolve:
  "resolve literal_instrs [0] 20 12 = Some (literal_instrs ! 19)"
  "resolve literal_instrs [0] 17 7 = Some (literal_instrs ! 15)"
  "resolve literal_instrs [0] 17 8 = Some (literal_instrs ! 16)"
proof -
  have step: "resolve is l (numeral k) r = (if leaders_has l (in_pc (is ! numeral k)) then None
      else let ins = is ! pred_numeral k in if op_flow (in_op ins) \<noteq> Flow_Next then None
        else if in_dest ins = Some r \<or> (in_op ins = Op_CallM \<and> r = CALL_RESULT_REG) then Some ins
        else resolve is l (pred_numeral k) r)" for "is" l k r
    by (simp add: numeral_eq_Suc)
  show "resolve literal_instrs [0] 20 12 = Some (literal_instrs ! 19)"
    "resolve literal_instrs [0] 17 7 = Some (literal_instrs ! 15)"
    "resolve literal_instrs [0] 17 8 = Some (literal_instrs ! 16)"
    by (simp_all add: step literal_instrs_def leaders_has_def get_def op_flow_def Let_def)
qed

lemma enumerate_from_3: "enumerate 0 (a # b # c # xs) = (0, a) # (1, b) # (2, c) # enumerate 3 xs"
  by (simp add: numeral_3_eq_3)

lemma literal_pass2:
  "extract_pass2 literal_instrs [0] literal_pool \<lparr>bk_start = 0, bk_end = 14, bk_root = 1\<rparr> [literal_hex False]
      (pw_params literal_pow)
    = \<lparr>p2_vars = Map.empty, p2_divs = [17], p2_suffix_read = True, p2_hexes = [literal_hex True]\<rparr>"
proof -
  have r: "reads_key literal_instrs [0] literal_pool 20 12 (units literal_pool \<lparr>pr_off = 29, pr_len = 2\<rparr>)"
    by (simp add: reads_key_def literal_resolve) (simp add: literal_instrs_def in_arg_def)
  define step where "step = pass2_step literal_instrs [0] literal_pool \<lparr>bk_start = 0, bk_end = 14, bk_root = 1\<rparr>
    (units literal_pool \<lparr>pr_off = 21, pr_len = 2\<rparr>) (units literal_pool \<lparr>pr_off = 23, pr_len = 2\<rparr>) (units literal_pool \<lparr>pr_off = 25, pr_len = 2\<rparr>)"
  have s: "step st (k, ins) = pass2_step literal_instrs [0] literal_pool \<lparr>bk_start = 0, bk_end = 14, bk_root = 1\<rparr>
    (units literal_pool \<lparr>pr_off = 21, pr_len = 2\<rparr>) (units literal_pool \<lparr>pr_off = 23, pr_len = 2\<rparr>) (units literal_pool \<lparr>pr_off = 25, pr_len = 2\<rparr>) st (k, ins)" for st k ins
    by (simp add: step_def)
  have "foldl step \<lparr>p2_vars = Map.empty, p2_divs = [], p2_suffix_read = False, p2_hexes = [literal_hex False]\<rparr>
      (enumerate 0 literal_instrs)
    = \<lparr>p2_vars = Map.empty, p2_divs = [17], p2_suffix_read = True, p2_hexes = [literal_hex True]\<rparr>"
    by (subst literal_instrs_def, subst enumerate_from_3)
      (simp add: s pass2_step_def in_arg_def read_hex_def literal_hex_def literal_units r[unfolded literal_units] cong: conj_cong)
  then show ?thesis by (simp add: extract_pass2_def step_def literal_pow_def)
qed

lemma literal_extract:
  "extract_config literal_instrs literal_pool = Some (Inr
    \<lparr>pc_difficulty = f64_of_int 10, pc_sub_count = 2, pc_seed_suffix = chars ''suf'',
     pc_seed_phrase = chars ''0123456789abcdef0123456789abcdef0123456789abcdef0123456789abcdef'',
     pc_keys = \<lparr>pk_difficulty = \<lparr>pr_off = 21, pr_len = 2\<rparr>, pk_sub_count = \<lparr>pr_off = 23, pr_len = 2\<rparr>, pk_seed_suffix = \<lparr>pr_off = 25, pr_len = 2\<rparr>, pk_seed_phrase = \<lparr>pr_off = 19, pr_len = 2\<rparr>\<rparr>\<rparr>)"
proof -
  have ord: "division_order literal_instrs [0] literal_pool Map.empty (units literal_pool \<lparr>pr_off = 21, pr_len = 2\<rparr>) (units literal_pool \<lparr>pr_off = 23, pr_len = 2\<rparr>) [17] None
      = Inr (Some True)"
  proof -
    have i: "in_arg (literal_instrs ! 17) 0 = Opd_Reg 7" "in_arg (literal_instrs ! 17) 1 = Opd_Reg 8"
      "in_op (literal_instrs ! 15) = Op_GetProp" "in_op (literal_instrs ! 16) = Op_GetProp"
      "in_arg (literal_instrs ! 15) 1 = Opd_Str \<lparr>pr_off = 21, pr_len = 2\<rparr>" "in_arg (literal_instrs ! 16) 1 = Opd_Str \<lparr>pr_off = 23, pr_len = 2\<rparr>"
      by (simp_all add: literal_instrs_def in_arg_def)
    have "operand_class literal_instrs [0] literal_pool Map.empty 17 (in_arg (literal_instrs ! 17) 0)
        (units literal_pool \<lparr>pr_off = 21, pr_len = 2\<rparr>) (units literal_pool \<lparr>pr_off = 23, pr_len = 2\<rparr>) = Some Class_A"
      "operand_class literal_instrs [0] literal_pool Map.empty 17 (in_arg (literal_instrs ! 17) 1)
        (units literal_pool \<lparr>pr_off = 21, pr_len = 2\<rparr>) (units literal_pool \<lparr>pr_off = 23, pr_len = 2\<rparr>) = Some Class_B"
      unfolding operand_class_def i operand.case literal_resolve option.case
      by (simp_all add: classify_def literal_units)
    then show ?thesis by simp
  qed
  have le: "f64_lt (f64_zero False) (f64_of_int 10)" "f64_le (f64_of_int 1) (f64_of_int 2)"
    "f64_le (f64_of_int 2) (f64_of_int 4294967295)" "f64_sat 0 4294967295 (f64_of_int 2) = 2"
    by (simp_all add: f64_eval f64_le_def f64_diff_def f64_signed_def f64_sat_def)
  have fin: "extract_finish literal_pool literal_pow True True [literal_hex True] = Inr
    \<lparr>pc_difficulty = f64_of_int 10, pc_sub_count = 2, pc_seed_suffix = chars ''suf'',
     pc_seed_phrase = chars ''0123456789abcdef0123456789abcdef0123456789abcdef0123456789abcdef'',
     pc_keys = \<lparr>pk_difficulty = \<lparr>pr_off = 21, pr_len = 2\<rparr>, pk_sub_count = \<lparr>pr_off = 23, pr_len = 2\<rparr>, pk_seed_suffix = \<lparr>pr_off = 25, pr_len = 2\<rparr>, pk_seed_phrase = \<lparr>pr_off = 19, pr_len = 2\<rparr>\<rparr>\<rparr>"
    by (simp add: extract_finish_def literal_pow_def Let_def le seed_read_def literal_hex_def literal_units
        units_to_string_def from_utf16_lossy_map chars_def)
  have ch: "choose_config 1 (Some (\<lparr>bk_start = 0, bk_end = 14, bk_root = 1\<rparr>,
        \<lparr>sc_versions = 1, sc_pows = 1, sc_pow = Some literal_pow, sc_hexes = hs\<rparr>))
      = Inr (\<lparr>bk_start = 0, bk_end = 14, bk_root = 1\<rparr>,
        \<lparr>sc_versions = 1, sc_pows = 1, sc_pow = Some literal_pow, sc_hexes = hs\<rparr>, literal_pow)" for hs
    by (simp add: choose_config_def)
  have pa: "fst (pa_num0 (pw_params literal_pow)) = \<lparr>pr_off = 21, pr_len = 2\<rparr>" "fst (pa_num1 (pw_params literal_pow)) = \<lparr>pr_off = 23, pr_len = 2\<rparr>"
    by (simp_all add: literal_pow_def)
  show ?thesis
    unfolding extract_config_def Let_def literal_pass1 pass1.select_convs literal_scan option.case prod.case
      ch res_bind.simps scan.select_convs literal_pass2 pass2.select_convs pa ord fin ..
qed

subsection \<open>Properties\<close>

text \<open>C11: an extracted configuration makes sense: the difficulty is a positive integer, the number
  of subchallenges lies in 1 .. 4294967295, and the seed phrase is 64 lower-case hex digits.\<close>

theorem extract_sound:
  assumes "extract_config instrs pool = Some (Inr cfg)"
  shows "f64_lt (f64_zero False) (pc_difficulty cfg) \<and> f64_integral (pc_difficulty cfg)
    \<and> 1 \<le> pc_sub_count cfg \<and> pc_sub_count cfg \<le> 4294967295
    \<and> length (pc_seed_phrase cfg) = 64 \<and> list_all (\<lambda>c. 48 \<le> c \<and> c \<le> 57 \<or> 97 \<le> c \<and> c \<le> 102) (pc_seed_phrase cfg)"
proof -
  obtain p order suffix_read hexes where
    p: "pow_ok pool p" "extract_finish pool p order suffix_read hexes = Inr cfg"
    using extract_config_cases[OF assms] by blast
  then show ?thesis
    using extract_finish_ok[OF p(2,1)] hex64_string[of "units pool (pw_seed p)"] by (simp add: pow_ok_def)
qed

theorem extract_sound_witness:
  "f64_lt (f64_zero False) (f64_of_int 10) \<and> f64_integral (f64_of_int 10) \<and> 1 \<le> (2::nat) \<and> (2::nat) \<le> 4294967295
    \<and> length (chars ''0123456789abcdef0123456789abcdef0123456789abcdef0123456789abcdef'') = 64
    \<and> list_all (\<lambda>c. 48 \<le> c \<and> c \<le> 57 \<or> 97 \<le> c \<and> c \<le> 102)
        (chars ''0123456789abcdef0123456789abcdef0123456789abcdef0123456789abcdef'')"
  using extract_sound[OF literal_extract] by simp

end
