(* ===== verification/Strings.thy ===== *)
theory Strings
  imports Prelude
begin

text \<open>
  The string and byte functions of the standard library beyond the prelude: ASCII case,
  white space and trimming, splitting, UTF-8 validation (\<open>str::from_utf8\<close>), and decimal
  numbers as texts.
\<close>

subsection \<open>ASCII\<close>

definition lower_byte :: "u8 \<Rightarrow> u8" where
  "lower_byte b = (if 65 \<le> b \<and> b \<le> 90 then b + 32 else b)"

definition lower_char :: "nat \<Rightarrow> nat" where
  "lower_char c = (if 65 \<le> c \<and> c \<le> 90 then c + 32 else c)"

definition eq_ignore_ascii_case :: "u8 list \<Rightarrow> u8 list \<Rightarrow> bool" where
  "eq_ignore_ascii_case xs ys \<longleftrightarrow> map lower_byte xs = map lower_byte ys"

definition is_ascii_digit :: "u8 \<Rightarrow> bool" where
  "is_ascii_digit b \<longleftrightarrow> 48 \<le> b \<and> b \<le> 57"

definition is_ascii_space :: "u8 \<Rightarrow> bool" where
  "is_ascii_space b \<longleftrightarrow> b \<in> {32, 9, 10, 12, 13}"

text \<open>The Unicode property that \<open>str::trim\<close> removes.\<close>

definition is_whitespace :: "nat \<Rightarrow> bool" where
  "is_whitespace c \<longleftrightarrow> 9 \<le> c \<and> c \<le> 13 \<or> c \<in> {0x20, 0x85, 0xA0, 0x1680, 0x2028, 0x2029, 0x202F, 0x205F, 0x3000}
     \<or> 0x2000 \<le> c \<and> c \<le> 0x200A"

definition trim_end :: "('a \<Rightarrow> bool) \<Rightarrow> 'a list \<Rightarrow> 'a list" where
  "trim_end P xs = rev (dropWhile P (rev xs))"

definition trim_both :: "('a \<Rightarrow> bool) \<Rightarrow> 'a list \<Rightarrow> 'a list" where
  "trim_both P xs = trim_end P (dropWhile P xs)"

lemma trim_end_split: "\<exists>ys. xs = trim_end P xs @ ys \<and> list_all P ys"
proof (intro exI conjI)
  have "rev xs = takeWhile P (rev xs) @ dropWhile P (rev xs)" by simp
  then show "xs = trim_end P xs @ rev (takeWhile P (rev xs))"
    by (metis rev_append rev_rev_ident trim_end_def)
  show "list_all P (rev (takeWhile P (rev xs)))"
    by (auto simp: list_all_iff dest: set_takeWhileD)
qed

lemma trim_end_last: "trim_end P xs \<noteq> [] \<Longrightarrow> \<not> P (last (trim_end P xs))"
  by (simp add: trim_end_def last_rev hd_dropWhile)

lemma trim_end_unique:
  "list_all P ys \<Longrightarrow> xs = [] \<or> \<not> P (last xs) \<Longrightarrow> trim_end P (xs @ ys) = xs"
proof -
  assume ys: "list_all P ys" and xs: "xs = [] \<or> \<not> P (last xs)"
  have "dropWhile P (rev ys @ rev xs) = dropWhile P (rev xs)"
    using ys by (intro dropWhile_append2) (auto simp: list_all_iff)
  also have "\<dots> = rev xs" using xs by (cases xs rule: rev_cases) auto
  finally show ?thesis by (simp add: trim_end_def)
qed

text \<open>\<open>split\<close> at a separator.\<close>

fun split_on :: "'a \<Rightarrow> 'a list \<Rightarrow> 'a list list" where
  "split_on c [] = [[]]"
| "split_on c (x # xs) =
     (if x = c then [] # split_on c xs
      else case split_on c xs of [] \<Rightarrow> [[x]] | p # ps \<Rightarrow> (x # p) # ps)"

lemma split_on_nonempty [simp]: "split_on c xs \<noteq> []"
  by (induction xs) (auto split: list.splits)

subsection \<open>Decimal numbers\<close>

text \<open>The decimal representation, and the number that a list of digits denotes.\<close>

fun dec :: "nat \<Rightarrow> str" where
  "dec n = (if n < 10 then [48 + n] else dec (n div 10) @ [48 + n mod 10])"

declare dec.simps [simp del]

definition undec :: "str \<Rightarrow> nat" where
  "undec ds = foldl (\<lambda>n d. 10 * n + (d - 48)) 0 ds"

definition idec :: "int \<Rightarrow> str" where
  "idec i = (if i < 0 then [45] else []) @ dec (nat \<bar>i\<bar>)"

lemma dec_small: "n < 10 \<Longrightarrow> dec n = [48 + n]"
  by (simp add: dec.simps)

lemma dec_step: "10 \<le> n \<Longrightarrow> dec n = dec (n div 10) @ [48 + n mod 10]"
  by (subst dec.simps) simp

lemma undec_dec: "undec (dec n) = n"
proof (induction n rule: dec.induct)
  case (1 n)
  then show ?case by (cases "n < 10") (auto simp: dec_small dec_step undec_def)
qed

lemma dec_digits: "d \<in> set (dec n) \<Longrightarrow> 48 \<le> d \<and> d < 58"
proof (induction n rule: dec.induct)
  case (1 n)
  then show ?case by (cases "n < 10") (auto simp: dec_small dec_step)
qed

lemma dec_nonempty [simp]: "dec n \<noteq> []"
  by (subst dec.simps) simp

lemma dec_no_leading_zero: "n \<noteq> 0 \<Longrightarrow> hd (dec n) \<noteq> 48"
proof (induction n rule: dec.induct)
  case (1 n)
  then show ?case by (cases "n < 10") (auto simp: dec_small dec_step)
qed

lemma dec_length: "0 < k \<Longrightarrow> n < 10 ^ k \<Longrightarrow> length (dec n) \<le> k"
proof (induction k arbitrary: n)
  case (Suc k)
  show ?case
  proof (cases "n < 10")
    case True
    then show ?thesis by (simp add: dec_small)
  next
    case False
    then have "0 < k" using Suc.prems by (cases k) auto
    moreover have "n div 10 < 10 ^ k" using Suc.prems by (simp add: less_mult_imp_div_less mult.commute)
    ultimately have "length (dec (n div 10)) \<le> k" by (rule Suc.IH)
    then show ?thesis using False by (simp add: dec_step)
  qed
qed simp

subsection \<open>UTF-8\<close>

text \<open>
  A byte sequence is valid when it is the encoding of scalar values. The first byte gives
  the width, and the decoded value must encode to the very bytes it was read from, which
  excludes overlong forms, stray continuation bytes, surrogates and too large values.
\<close>

definition utf8_width :: "u8 \<Rightarrow> nat" where
  "utf8_width b = (let n = unat b in if n < 0x80 then 1 else if n < 0xE0 then 2 else if n < 0xF0 then 3 else 4)"

definition utf8_value :: "u8 list \<Rightarrow> nat" where
  "utf8_value bs =
     (case map unat bs of
        [a] \<Rightarrow> a
      | [a, b] \<Rightarrow> (a - 0xC0) * 64 + (b - 0x80)
      | [a, b, c] \<Rightarrow> (a - 0xE0) * 4096 + (b - 0x80) * 64 + (c - 0x80)
      | [a, b, c, d] \<Rightarrow> (a - 0xF0) * 262144 + (b - 0x80) * 4096 + (c - 0x80) * 64 + (d - 0x80)
      | _ \<Rightarrow> 0x110000)"

function from_utf8 :: "u8 list \<Rightarrow> str option" where
  "from_utf8 [] = Some []"
| "from_utf8 (b # bs) =
     (let n = utf8_width b; c = utf8_value (take n (b # bs)) in
      if scalar c \<and> utf8_char c = take n (b # bs)
      then map_option (\<lambda>s. c # s) (from_utf8 (drop n (b # bs))) else None)"
  by pat_completeness auto
termination
  by (relation "measure length") (auto simp: utf8_width_def Let_def)

declare from_utf8.simps(2) [simp del]

lemma as_bytes_Nil [simp]: "as_bytes [] = []"
  by (simp add: as_bytes_def)

lemma as_bytes_Cons [simp]: "as_bytes (c # s) = utf8_char c @ as_bytes s"
  by (simp add: as_bytes_def)

lemma as_bytes_append [simp]: "as_bytes (s @ t) = as_bytes s @ as_bytes t"
  by (simp add: as_bytes_def)

lemma unat_byte: "n < 256 \<Longrightarrow> unat (of_nat n :: u8) = n"
  by (rule unat_of_nat_small) simp

lemma utf8_char_unat:
  assumes "c < 0x110000"
  shows "map unat (utf8_char c) =
    (if c < 0x80 then [c]
     else if c < 0x800 then [0xC0 + c div 64, 0x80 + c mod 64]
     else if c < 0x10000 then [0xE0 + c div 4096, 0x80 + c div 64 mod 64, 0x80 + c mod 64]
     else [0xF0 + c div 262144, 0x80 + c div 4096 mod 64, 0x80 + c div 64 mod 64, 0x80 + c mod 64])"
proof -
  have cont: "unat (of_nat (0x80 + k mod 64) :: u8) = 0x80 + k mod 64" for k
    using mod_less_divisor[of 64 k] by (intro unat_byte) linarith
  have lead: "unat (of_nat (a + k) :: u8) = a + k" if "a + k < 256" for a k
    using that by (rule unat_byte)
  have "c < 0x800 \<Longrightarrow> 0xC0 + c div 64 < 256" "c < 0x10000 \<Longrightarrow> 0xE0 + c div 4096 < 256"
    "0xF0 + c div 262144 < 256"
    using assms by (auto simp: div_less_iff_less_mult)
  note * = lead[OF this(1)] lead[OF this(2)] lead[OF this(3)]
  show ?thesis using * cont by (simp add: utf8_char_def unat_byte del: of_nat_add)
qed

lemma utf8_decode:
  assumes "scalar c"
  shows "\<exists>b bs. utf8_char c = b # bs \<and> utf8_width b = length (utf8_char c) \<and> utf8_value (utf8_char c) = c"
proof -
  have c: "c < 0x110000" using assms by (auto simp: scalar_def)
  note u = utf8_char_unat[OF c]
  have len: "length (utf8_char c) = (if c < 0x80 then 1 else if c < 0x800 then 2 else if c < 0x10000 then 3 else 4)"
    by (simp add: utf8_char_def)
  obtain b bs where b: "utf8_char c = b # bs" using len by (cases "utf8_char c") (auto split: if_splits)
  have hd: "unat b = hd (map unat (utf8_char c))" by (simp add: b)
  have bounds: "c < 0x800 \<Longrightarrow> c div 64 < 32" "c < 0x10000 \<Longrightarrow> c div 4096 < 16"
    by (auto simp: div_less_iff_less_mult)
  have "utf8_width b = length (utf8_char c)"
    unfolding len utf8_width_def hd u using bounds by (auto simp: Let_def)
  moreover have "utf8_value (utf8_char c) = c"
  proof -
    have d: "c div 64 div 64 = c div 4096" "c div 4096 div 64 = c div 262144"
      by (simp_all flip: div_mult2_eq)
    have one: "c div 64 * 64 + c mod 64 = c" by simp
    have two: "c div 4096 * 64 + c div 64 mod 64 = c div 64"
      using div_mult_mod_eq[of "c div 64" 64] by (simp add: d)
    have three: "c div 262144 * 64 + c div 4096 mod 64 = c div 4096"
      using div_mult_mod_eq[of "c div 4096" 64] by (simp add: d)
    have "c div 4096 * 4096 + c div 64 mod 64 * 64 + c mod 64 = c"
      "c div 262144 * 262144 + c div 4096 mod 64 * 4096 + c div 64 mod 64 * 64 + c mod 64 = c"
      using one two three by linarith+
    then show ?thesis unfolding utf8_value_def u by simp
  qed
  ultimately show ?thesis using b by simp
qed

lemma from_utf8_as_bytes: "list_all scalar s \<Longrightarrow> from_utf8 (as_bytes s) = Some s"
proof (induction s)
  case (Cons c s)
  then obtain b bs where b: "utf8_char c = b # bs" "utf8_width b = length (utf8_char c)" "utf8_value (utf8_char c) = c"
    using utf8_decode[of c] by auto
  have "as_bytes (c # s) = b # (bs @ as_bytes s)" using b(1) by simp
  moreover have "take (utf8_width b) (b # (bs @ as_bytes s)) = utf8_char c"
    "drop (utf8_width b) (b # (bs @ as_bytes s)) = as_bytes s" using b by simp_all
  ultimately show ?case using Cons b by (simp add: from_utf8.simps(2) Let_def)
qed simp

lemma from_utf8_sound: "from_utf8 bs = Some s \<Longrightarrow> as_bytes s = bs \<and> list_all scalar s"
proof (induction bs arbitrary: s rule: from_utf8.induct)
  case (2 b bs)
  define n where "n = utf8_width b"
  define c where "c = utf8_value (take n (b # bs))"
  from "2.prems" obtain t where c: "scalar c" "utf8_char c = take n (b # bs)"
      and t: "from_utf8 (drop n (b # bs)) = Some t" "s = c # t"
    by (auto simp: from_utf8.simps(2) Let_def n_def c_def split: if_splits)
  then have "as_bytes t = drop n (b # bs)" "list_all scalar t"
    using "2.IH"[OF n_def c_def] by auto
  then show ?case using c t by (simp only: as_bytes_Cons append_take_drop_id list.pred_inject simp_thms)
qed simp

lemma lower_utf8_char:
  assumes "scalar c"
  shows "map lower_byte (utf8_char c) = utf8_char (lower_char c)"
proof (cases "c < 0x80")
  case True
  then have "unat (of_nat c :: u8) = c" by (intro unat_byte) simp
  then have "65 \<le> (of_nat c :: u8) \<longleftrightarrow> 65 \<le> c" "(of_nat c :: u8) \<le> 90 \<longleftrightarrow> c \<le> 90"
    by (simp_all add: word_le_nat_alt)
  then show ?thesis using True by (auto simp: utf8_char_def lower_byte_def lower_char_def)
next
  case False
  have c: "c < 0x110000" using assms by (auto simp: scalar_def)
  have "0x80 \<le> n" if "n \<in> set (map unat (utf8_char c))" for n
    using that False unfolding utf8_char_unat[OF c] by (auto split: if_splits)
  then have "lower_byte b = b" if "b \<in> set (utf8_char c)" for b
    using that by (fastforce simp: lower_byte_def word_le_nat_alt)
  then show ?thesis using False by (simp add: map_idI lower_char_def)
qed

lemma lower_as_bytes: "list_all scalar s \<Longrightarrow> map lower_byte (as_bytes s) = as_bytes (map lower_char s)"
  by (induction s) (simp_all add: lower_utf8_char)

lemma scalar_lower [simp]: "scalar c \<Longrightarrow> scalar (lower_char c)"
  by (auto simp: scalar_def lower_char_def)

subsection \<open>Byte offsets in a string\<close>

text \<open>\<open>&s[..n]\<close> counts bytes: \<open>None\<close> is a panic, past the end or inside a character.\<close>

fun str_prefix :: "nat \<Rightarrow> str \<Rightarrow> str option" where
  "str_prefix 0 s = Some []"
| "str_prefix (Suc n) [] = None"
| "str_prefix (Suc n) (c # s) =
     (if length (utf8_char c) \<le> Suc n
      then map_option (\<lambda>t. c # t) (str_prefix (Suc n - length (utf8_char c)) s) else None)"

lemma utf8_char_nonempty: "0 < length (utf8_char c)"
  by (simp add: utf8_char_def)

lemma str_prefix_append: "str_prefix (length (as_bytes s)) (s @ t) = Some s"
proof (induction s)
  case (Cons c s)
  have "length (as_bytes (c # s)) = Suc (length (as_bytes (c # s)) - 1)"
    using utf8_char_nonempty[of c] by simp
  then show ?case using Cons by (metis append_Cons append_eq_conv_conj as_bytes_Cons length_append
      add_diff_cancel_left' le_add1 option.map(2) str_prefix.simps(3))
qed simp

lemma str_prefix_sound: "str_prefix n s = Some t \<Longrightarrow> \<exists>u. s = t @ u \<and> n = length (as_bytes t)"
  by (induction n s arbitrary: t rule: str_prefix.induct) (fastforce split: if_splits)+

end
