(* ===== verification/Encoder.thy ===== *)
theory Encoder
  imports F64 Strings
begin

text \<open>
  \<open>src/worktime/encoder.rs\<close>: the proof of work. \<open>solve_sub\<close> counts nonces until the
  hash of nonce and state scores at least the threshold; the digest in hex is the
  next state; \<open>encode_cd\<close> writes the answers and the times as JSON by hand, with
  decimal numbers from a 20-byte buffer (\<open>write_u64\<close>).

  SHA-256 is a parameter \<open>sha\<close> from byte lists to byte lists. The clock readings and
  the random bytes that \<open>encode\<close> draws are arguments of the model.
\<close>

subsection \<open>Constants\<close>

definition TWO_POW_52 :: f64 where "TWO_POW_52 = f64_of_int (2 ^ 52)"
abbreviation MAX_NONCE_PER_SUB :: nat where "MAX_NONCE_PER_SUB \<equiv> 1048576"
definition HEX :: "u8 list" where "HEX = bytes ''0123456789abcdef''"
definition SEP :: "u8 list" where "SEP = bytes '', ''"
abbreviation ID_HEX_LEN :: nat where "ID_HEX_LEN \<equiv> 32"
abbreviation INT_BUF_LEN :: nat where "INT_BUF_LEN \<equiv> 20"
definition J_WORK_TIME :: str where "J_WORK_TIME = chars ''{\"workTime\":''"
definition J_ID :: str where "J_ID = chars '',\"id\":\"''"
definition J_ANSWERS :: str where "J_ANSWERS = chars ''\",\"answers\":[''"
definition J_DURATION :: str where "J_DURATION = chars ''],\"duration\":''"
definition J_D :: str where "J_D = chars '',\"d\":''"
definition J_ST :: str where "J_ST = chars '',\"st\":''"
definition J_RST :: str where "J_RST = chars '',\"rst\":''"
definition J_END :: nat where "J_END = 125"

datatype encoder_error =
    EncSubCountZero
  | EncDifficulty f64
  | EncUnsatisfiable f64 f64 nat
  | EncNonceCap f64 nat
  | EncServerTime i64
  | EncReceiveTime i64
  | EncNoAnswers
  | EncClock


subsection \<open>Numbers and hex\<close>

text \<open>The loop of \<open>write_u64\<close> from the end of the buffer; \<open>None\<close> is the index underflow.\<close>

function write_loop :: "u8 list \<Rightarrow> nat \<Rightarrow> u64 \<Rightarrow> (u8 list \<times> nat) option" where
  "write_loop buf i v =
     (if i = 0 then None
      else let j = i - 1; buf' = buf[j := 48 + ucast (v mod 10)]; v' = v div 10 in
        if v' = 0 then Some (buf', j) else write_loop buf' j v')"
  by pat_completeness auto
termination
  by (relation "measure (\<lambda>(buf, i, v). i)") auto

declare write_loop.simps [simp del]

definition write_u64 :: "u8 list \<Rightarrow> u64 \<Rightarrow> (u8 list \<times> nat) option" where
  "write_u64 buf v = write_loop buf INT_BUF_LEN v"

definition push_u64 :: "u64 \<Rightarrow> str \<times> u8 list \<Rightarrow> (str \<times> u8 list) option" where
  "push_u64 v ob =
     (case write_u64 (snd ob) v of
        Some (buf, start) \<Rightarrow> Some (fst ob @ map unat (drop start buf), buf)
      | None \<Rightarrow> None)"

definition unsigned_abs :: "i64 \<Rightarrow> u64" where
  "unsigned_abs v = (if sint v < 0 then - v else v)"

definition push_i64 :: "i64 \<Rightarrow> str \<times> u8 list \<Rightarrow> (str \<times> u8 list) option" where
  "push_i64 v ob =
     push_u64 (unsigned_abs v) (if sint v < 0 then (fst ob @ [45], snd ob) else ob)"

text \<open>\<open>hex_encode\<close> fills the destination two by two while the source lasts.\<close>

fun hex_encode :: "u8 list \<Rightarrow> u8 list \<Rightarrow> u8 list" where
  "hex_encode (b # src) (_ # _ # dst) =
     HEX ! unat (drop_bit 4 b) # HEX ! unat (b AND 0x0f) # hex_encode src dst"
| "hex_encode src dst = dst"

subsection \<open>The proof of work\<close>


definition chain :: "(u8 list \<Rightarrow> u8 list) \<Rightarrow> u8 list \<Rightarrow> u8 list \<Rightarrow> u8 list" where
  "chain sha nonce_digits current = sha (nonce_digits @ SEP @ current)"

definition from_be_bytes :: "u8 list \<Rightarrow> u64" where
  "from_be_bytes bs = foldl (\<lambda>w b. push_bit 8 w OR ucast b) 0 bs"

definition score :: "u8 list \<Rightarrow> f64" where
  "score digest =
     (let prefix = drop_bit 12 (from_be_bytes (take 8 digest))
      in f64_div TWO_POW_52 (f64_add (f64_of_int (uint prefix)) (f64_of_int 1)))"

text \<open>The loop over the nonces; the outer option is the buffer underflow.\<close>

function solve_loop ::
    "(u8 list \<Rightarrow> u8 list) \<Rightarrow> f64 \<Rightarrow> u8 list \<Rightarrow> u8 list \<Rightarrow> nat \<Rightarrow> (nat \<times> u8 list) option option" where
  "solve_loop sha thr digits current nonce =
     (if nonce \<le> MAX_NONCE_PER_SUB
      then case write_u64 digits (word_of_nat nonce) of
             None \<Rightarrow> None
           | Some (digits', start) \<Rightarrow>
               let digest = chain sha (drop start digits') current in
               if f64_le thr (score digest) then Some (Some (nonce, hex_encode digest current))
               else solve_loop sha thr digits' current (nonce + 1)
      else Some None)"
  by pat_completeness auto
termination
  by (relation "measure (\<lambda>(sha, thr, digits, current, nonce). MAX_NONCE_PER_SUB + 1 - nonce)") auto

declare solve_loop.simps [simp del]

definition solve_sub :: "(u8 list \<Rightarrow> u8 list) \<Rightarrow> f64 \<Rightarrow> u8 list \<Rightarrow> (nat \<times> u8 list) option option" where
  "solve_sub sha thr current = solve_loop sha thr (replicate INT_BUF_LEN 0) current 1"




subsection \<open>The JSON\<close>

text \<open>The pieces that \<open>encode_cd\<close> pushes, in order, through one shared buffer.\<close>

datatype piece = P_Str str | P_U64 u64 | P_I64 i64

fun emit :: "piece list \<Rightarrow> str \<times> u8 list \<Rightarrow> str option" where
  "emit [] ob = Some (fst ob)"
| "emit (P_Str s # ps) ob = emit ps (fst ob @ s, snd ob)"
| "emit (P_U64 v # ps) ob = (case push_u64 v ob of Some ob' \<Rightarrow> emit ps ob' | None \<Rightarrow> None)"
| "emit (P_I64 v # ps) ob = (case push_i64 v ob of Some ob' \<Rightarrow> emit ps ob' | None \<Rightarrow> None)"

definition cd_pieces :: "i64 \<Rightarrow> u8 list \<Rightarrow> nat list \<Rightarrow> nat \<Rightarrow> i64 \<Rightarrow> i64 \<Rightarrow> piece list" where
  "cd_pieces work_time ident answers duration_tenths st rst =
     [P_Str J_WORK_TIME, P_I64 work_time, P_Str J_ID, P_Str (map unat ident), P_Str J_ANSWERS,
      P_U64 (word_of_nat (hd answers))]
     @ concat (map (\<lambda>a. [P_Str [44], P_U64 (word_of_nat a)]) (tl answers))
     @ [P_Str J_DURATION, P_U64 (word_of_nat (duration_tenths div 10))]
     @ (let tenth = duration_tenths mod 10 in if tenth \<noteq> 0 then [P_Str [46], P_Str [48 + tenth]] else [])
     @ [P_Str J_D, P_I64 (rst - st), P_Str J_ST, P_I64 st, P_Str J_RST, P_I64 rst, P_Str [J_END]]"

definition encode_cd ::
    "i64 \<Rightarrow> u8 list \<Rightarrow> nat list \<Rightarrow> nat \<Rightarrow> i64 \<Rightarrow> i64 \<Rightarrow> (encoder_error + str) option" where
  "encode_cd work_time ident answers duration_tenths st rst =
     (if sint st \<le> 0 then Some (Inl (EncServerTime st))
      else if sint rst \<le> 0 then Some (Inl (EncReceiveTime rst))
      else if answers = [] then Some (Inl EncNoAnswers)
      else map_option Inr (emit (cd_pieces work_time ident answers duration_tenths st rst)
             ([], replicate INT_BUF_LEN 0)))"

subsection \<open>encode\<close>


definition draw_duration_tenths :: "u8 \<Rightarrow> nat" where
  "draw_duration_tenths b =
     (let c0 = unat (HEX ! unat (drop_bit 4 b)); c1 = unat (HEX ! unat (b AND 0x0f))
      in (10 + c0 mod 35) * 10 + c1 mod 10)"


subsection \<open>The decimal digits in the buffer\<close>

lemma dec_length_u64: "length (dec (unat (v :: u64))) \<le> INT_BUF_LEN"
proof (rule dec_length)
  have "unat v < 2 ^ 64" using unat_bound[of v] by simp
  then show "unat v < 10 ^ INT_BUF_LEN" by (rule less_le_trans) simp
qed simp

lemma digit_byte: "(48 :: u8) + ucast ((v :: u64) mod 10) = of_nat (48 + unat v mod 10)"
proof -
  have "unat (v mod 10) = unat v mod 10" by (simp add: unat_mod)
  then have "ucast (v mod 10) = (of_nat (unat v mod 10) :: u8)"
    by (metis of_nat_unat)
  then show ?thesis by simp
qed

lemma unat_div_10: "unat (v div 10 :: u64) = unat v div 10"
  by (simp add: unat_div)

lemma div_10_zero: "(v :: u64) div 10 = 0 \<longleftrightarrow> unat v < 10"
  by (simp add: unat_div_10 word_unat_eq_iff div_eq_0_iff)

lemma write_loop_dec:
  "length (dec (unat v)) \<le> i \<Longrightarrow> i \<le> length buf
   \<Longrightarrow> \<exists>buf'. write_loop buf i v = Some (buf', i - length (dec (unat v))) \<and> length buf' = length buf
     \<and> drop (i - length (dec (unat v))) buf' = map of_nat (dec (unat v)) @ drop i buf"
proof (induction buf i v rule: write_loop.induct)
  case (1 buf i v)
  have i: "i \<noteq> 0" using "1.prems" dec_nonempty[of "unat v"] by (metis le_zero_eq length_0_conv)
  define buf' where "buf' = buf[i - 1 := 48 + ucast (v mod 10)]"
  have len: "length buf' = length buf" by (simp add: buf'_def)
  have last: "drop (i - 1) buf' = of_nat (48 + unat v mod 10) # drop i buf"
    using i "1.prems"(2) digit_byte[of v]
    by (simp add: buf'_def drop_update_cancel flip: Cons_nth_drop_Suc)
  show ?case
  proof (cases "unat v < 10")
    case True
    then have "write_loop buf i v = Some (buf', i - 1)"
      using i by (subst write_loop.simps) (simp add: div_10_zero buf'_def Let_def)
    then show ?thesis using True last len by (simp add: dec_small)
  next
    case False
    then have d: "dec (unat v) = dec (unat (v div 10)) @ [48 + unat v mod 10]"
      by (simp add: dec_step unat_div_10)
    have nz: "v div 10 \<noteq> 0" using False by (simp add: div_10_zero)
    have eq: "write_loop buf i v = write_loop buf' (i - 1) (v div 10)"
      using i nz by (subst write_loop.simps) (simp add: buf'_def Let_def)
    show ?thesis
      using "1.IH"[OF i refl refl refl nz] "1.prems" d last len eq
      by (auto simp: buf'_def)
  qed
qed

text \<open>
  The 20-byte buffer holds every \<open>u64\<close>: the index never underflows and the bytes from the
  returned start are the decimal digits.
\<close>

lemma write_u64_some:
  "length buf = INT_BUF_LEN \<Longrightarrow>
    \<exists>buf'. write_u64 buf v = Some (buf', INT_BUF_LEN - length (dec (unat v))) \<and> length buf' = INT_BUF_LEN
      \<and> drop (INT_BUF_LEN - length (dec (unat v))) buf' = map of_nat (dec (unat v))"
  using write_loop_dec[of v INT_BUF_LEN buf] dec_length_u64[of v] by (auto simp: write_u64_def)

lemma unat_dec: "map unat (map of_nat (dec n) :: u8 list) = dec n"
proof -
  have "unat (of_nat d :: u8) = d" if "d \<in> set (dec n)" for d
    using dec_digits[OF that] by (intro unat_of_nat_small) simp
  then show ?thesis by (simp add: map_idI)
qed

lemma unsigned_abs_spec: "unat (unsigned_abs v) = nat \<bar>sint v\<bar>"
proof (cases "sint v < 0")
  case True
  have low: "- (2 ^ 63) \<le> sint v" using sint_ge[of v] by simp
  have "- v = word_of_int (- sint v)" by simp
  then have "uint (- v) = take_bit LENGTH(64) (- sint v)" by (simp only: uint_word_of_int_eq)
  then have "uint (- v) = take_bit 64 (- sint v)" by simp
  also have "\<dots> = - sint v" using True low by (intro take_bit_int_eq_self) auto
  finally show ?thesis using True by (simp add: unsigned_abs_def unat_eq_nat_uint)
next
  case False
  then have "uint v = sint v"
    using sint_lt[of v] uint_sint[of v] by (simp add: take_bit_int_eq_self)
  then show ?thesis using False by (simp add: unsigned_abs_def unat_eq_nat_uint)
qed


subsection \<open>The solver\<close>

text \<open>A nonce clears the threshold for a state, as the server checks it.\<close>

definition digest_of :: "(u8 list \<Rightarrow> u8 list) \<Rightarrow> u8 list \<Rightarrow> nat \<Rightarrow> u8 list" where
  "digest_of sha current nonce = sha (map of_nat (dec nonce) @ SEP @ current)"

definition clears :: "(u8 list \<Rightarrow> u8 list) \<Rightarrow> f64 \<Rightarrow> u8 list \<Rightarrow> nat \<Rightarrow> bool" where
  "clears sha thr current nonce \<longleftrightarrow> f64_le thr (score (digest_of sha current nonce))"

definition next_state :: "(u8 list \<Rightarrow> u8 list) \<Rightarrow> u8 list \<Rightarrow> nat \<Rightarrow> u8 list" where
  "next_state sha current nonce = hex_encode (digest_of sha current nonce) current"


lemma solve_loop_step:
  assumes "length digits = INT_BUF_LEN" "nonce \<le> MAX_NONCE_PER_SUB"
  shows "\<exists>digits'. length digits' = INT_BUF_LEN \<and> solve_loop sha thr digits current nonce =
    (if clears sha thr current nonce then Some (Some (nonce, next_state sha current nonce))
     else solve_loop sha thr digits' current (nonce + 1))"
proof -
  have n: "unat (word_of_nat nonce :: u64) = nonce"
    using assms(2) by (intro unat_of_nat_small) simp
  obtain digits' start where w: "write_u64 digits (word_of_nat nonce) = Some (digits', start)"
      "length digits' = INT_BUF_LEN" "drop start digits' = map of_nat (dec nonce)"
    using write_u64_some[OF assms(1), of "word_of_nat nonce"] unfolding n by auto
  then show ?thesis
    using assms(2)
    by (intro exI[of _ digits'], subst (1) solve_loop.simps)
      (auto simp: Let_def chain_def clears_def next_state_def digest_of_def)
qed

lemma solve_loop_least:
  assumes "length digits = INT_BUF_LEN"
  shows "(\<exists>n. solve_loop sha thr digits current nonce = Some (Some (n, next_state sha current n))
      \<and> nonce \<le> n \<and> n \<le> MAX_NONCE_PER_SUB \<and> clears sha thr current n
      \<and> (\<forall>m. nonce \<le> m \<and> m < n \<longrightarrow> \<not> clears sha thr current m))
    \<or> (solve_loop sha thr digits current nonce = Some None
      \<and> (\<forall>m. nonce \<le> m \<and> m \<le> MAX_NONCE_PER_SUB \<longrightarrow> \<not> clears sha thr current m))"
  using assms
proof (induction "MAX_NONCE_PER_SUB + 1 - nonce" arbitrary: nonce digits)
  case 0
  then show ?case by (subst (1 2) solve_loop.simps) auto
next
  case (Suc k)
  then have le: "nonce \<le> MAX_NONCE_PER_SUB" by simp
  obtain digits' where d: "length digits' = INT_BUF_LEN" "solve_loop sha thr digits current nonce =
    (if clears sha thr current nonce then Some (Some (nonce, next_state sha current nonce))
     else solve_loop sha thr digits' current (nonce + 1))"
    using solve_loop_step[OF Suc.prems le] by blast
  show ?case
  proof (cases "clears sha thr current nonce")
    case True
    then show ?thesis using d le by auto
  next
    case False
    have eq: "solve_loop sha thr digits current nonce = solve_loop sha thr digits' current (nonce + 1)"
      using False d by simp
    have skip: "\<not> clears sha thr current m" if "nonce \<le> m" "nonce + 1 \<le> m \<Longrightarrow> \<not> clears sha thr current m" for m
      using that False by (cases "m = nonce") auto
    have "k = MAX_NONCE_PER_SUB + 1 - (nonce + 1)" using Suc.hyps by simp
    from Suc.hyps(1)[OF this d(1)] show ?thesis
    proof (elim disjE exE conjE)
      fix n
      assume "solve_loop sha thr digits' current (nonce + 1) = Some (Some (n, next_state sha current n))"
        "nonce + 1 \<le> n" "n \<le> MAX_NONCE_PER_SUB" "clears sha thr current n"
        "\<forall>m. nonce + 1 \<le> m \<and> m < n \<longrightarrow> \<not> clears sha thr current m"
      moreover from this have "\<forall>m. nonce \<le> m \<and> m < n \<longrightarrow> \<not> clears sha thr current m" using skip by blast
      ultimately show ?thesis unfolding eq by (intro disjI1 exI[of _ n]) simp
    next
      assume "solve_loop sha thr digits' current (nonce + 1) = Some None"
        "\<forall>m. nonce + 1 \<le> m \<and> m \<le> MAX_NONCE_PER_SUB \<longrightarrow> \<not> clears sha thr current m"
      moreover from this have "\<forall>m. nonce \<le> m \<and> m \<le> MAX_NONCE_PER_SUB \<longrightarrow> \<not> clears sha thr current m"
        using skip by blast
      ultimately show ?thesis unfolding eq by simp
    qed
  qed
qed

lemma solve_sub_cases:
  obtains (found) n where "solve_sub sha thr current = Some (Some (n, next_state sha current n))"
      "1 \<le> n" "n \<le> MAX_NONCE_PER_SUB" "clears sha thr current n"
      "\<And>m. 1 \<le> m \<Longrightarrow> m < n \<Longrightarrow> \<not> clears sha thr current m"
  | (none) "solve_sub sha thr current = Some None"
      "\<And>m. 1 \<le> m \<Longrightarrow> m \<le> MAX_NONCE_PER_SUB \<Longrightarrow> \<not> clears sha thr current m"
  using solve_loop_least[of "replicate INT_BUF_LEN 0" sha thr current 1]
  unfolding solve_sub_def by (metis length_replicate)





subsection \<open>The JSON text\<close>

text \<open>The object as a text over unbounded integers.\<close>

definition tenths :: "nat \<Rightarrow> str" where
  "tenths d = dec (d div 10) @ (if d mod 10 = 0 then [] else 46 # dec (d mod 10))"

fun commas :: "str list \<Rightarrow> str" where
  "commas [] = []"
| "commas [x] = x"
| "commas (x # y # xs) = x @ [44] @ commas (y # xs)"

definition cd_json :: "int \<Rightarrow> str \<Rightarrow> nat list \<Rightarrow> nat \<Rightarrow> int \<Rightarrow> int \<Rightarrow> int \<Rightarrow> str" where
  "cd_json work_time ident answers duration d st rst =
     chars ''{\"workTime\":'' @ idec work_time @ chars '',\"id\":\"'' @ ident
     @ chars ''\",\"answers\":['' @ commas (map dec answers) @ chars ''],\"duration\":'' @ tenths duration
     @ chars '',\"d\":'' @ idec d @ chars '',\"st\":'' @ idec st @ chars '',\"rst\":'' @ idec rst @ [125]"

lemma push_u64_dec:
  assumes "length buf = INT_BUF_LEN"
  shows "\<exists>buf'. length buf' = INT_BUF_LEN \<and> push_u64 v (out, buf) = Some (out @ dec (unat v), buf')"
proof -
  obtain buf' where "write_u64 buf v = Some (buf', INT_BUF_LEN - length (dec (unat v)))" "length buf' = INT_BUF_LEN"
      "drop (INT_BUF_LEN - length (dec (unat v))) buf' = map of_nat (dec (unat v))"
    using write_u64_some[OF assms, of v] by blast
  then show ?thesis using unat_dec[of "unat v"] by (simp add: push_u64_def del: map_map)
qed

lemma push_i64_idec:
  "length buf = INT_BUF_LEN \<Longrightarrow>
    \<exists>buf'. length buf' = INT_BUF_LEN \<and> push_i64 v (out, buf) = Some (out @ idec (sint v), buf')"
  using push_u64_dec[of buf "unsigned_abs v" out] push_u64_dec[of buf "unsigned_abs v" "out @ [45]"]
  by (cases "sint v < 0") (auto simp: push_i64_def idec_def unsigned_abs_spec)

fun piece_text :: "piece \<Rightarrow> str" where
  "piece_text (P_Str s) = s"
| "piece_text (P_U64 v) = dec (unat v)"
| "piece_text (P_I64 v) = idec (sint v)"

lemma emit_text:
  "length (snd ob) = INT_BUF_LEN \<Longrightarrow> emit ps ob = Some (fst ob @ concat (map piece_text ps))"
proof (induction ps ob rule: emit.induct)
  case (3 v ps ob)
  obtain buf' where "length buf' = INT_BUF_LEN" "push_u64 v ob = Some (fst ob @ dec (unat v), buf')"
    using push_u64_dec[OF "3.prems", of v "fst ob"] by auto
  then show ?case using "3.IH" by simp
next
  case (4 v ps ob)
  obtain buf' where "length buf' = INT_BUF_LEN" "push_i64 v ob = Some (fst ob @ idec (sint v), buf')"
    using push_i64_idec[OF "4.prems", of v "fst ob"] by auto
  then show ?case using "4.IH" by simp
qed auto

lemma commas_pieces:
  "list_all (\<lambda>a. a < 2 ^ 32) (x # xs) \<Longrightarrow>
    concat (map piece_text (P_U64 (word_of_nat x) # concat (map (\<lambda>a. [P_Str [44], P_U64 (word_of_nat a)]) xs)))
      = commas (map dec (x # xs))"
proof (induction xs arbitrary: x)
  case (Cons y xs)
  have u: "unat (word_of_nat n :: u64) = n" if "n < 2 ^ 32" for n
    using that by (intro unat_of_nat_small) simp
  show ?case using Cons.IH[of y] Cons.prems u[of x] by simp
qed (simp add: unat_of_nat_small)

lemma sint_diff_positive:
  assumes "0 < sint (a :: i64)" "0 < sint b"
  shows "sint (a - b) = sint a - sint b"
proof -
  have "sint a < 2 ^ 63" "sint b < 2 ^ 63" using sint_lt[of a] sint_lt[of b] by simp_all
  then have "signed_take_bit 63 (sint a - sint b) = sint a - sint b"
    using assms by (intro signed_take_bit_int_eq_self) auto
  then show ?thesis by (simp add: sint_word_ariths(2))
qed


lemma concat_cd_pieces:
  assumes "list_all (\<lambda>a. a < 2 ^ 32) answers" "answers \<noteq> []" "dur < 2 ^ 32" "0 < sint st" "0 < sint rst"
  shows "concat (map piece_text (cd_pieces w ident answers dur st rst)) =
    cd_json (sint w) (map unat ident) answers dur (sint rst - sint st) (sint st) (sint rst)"
proof -
  obtain a as where ans: "answers = a # as" using assms(2) by (cases answers) auto
  have c: "dec (unat (word_of_nat a :: u64))
      @ concat (map (\<lambda>x. piece_text x) (concat (map (\<lambda>a. [P_Str [44], P_U64 (word_of_nat a)]) as)))
      = commas (map dec answers)"
    using commas_pieces[of a as] assms(1) ans by simp
  have d: "unat (word_of_nat (dur div 10) :: u64) = dur div 10"
    using assms(3) by (intro unat_of_nat_small) simp
  have t: "dec (dur mod 10) = [48 + dur mod 10]" by (simp add: dec_small)
  show ?thesis
    using c by (simp add: cd_pieces_def ans cd_json_def tenths_def d t sint_diff_positive assms(4,5) Let_def
      J_WORK_TIME_def J_ID_def J_ANSWERS_def J_DURATION_def J_D_def J_ST_def J_RST_def J_END_def
      del: map_concat)
qed

lemma encode_cd_text:
  assumes "list_all (\<lambda>a. a < 2 ^ 32) answers" "dur < 2 ^ 32"
  shows "encode_cd w ident answers dur st rst = Some
    (if sint st \<le> 0 then Inl (EncServerTime st)
     else if sint rst \<le> 0 then Inl (EncReceiveTime rst)
     else if answers = [] then Inl EncNoAnswers
     else Inr (cd_json (sint w) (map unat ident) answers dur (sint rst - sint st) (sint st) (sint rst)))"
  using assms concat_cd_pieces[OF assms(1) _ assms(2), of st rst w ident]
  by (simp add: encode_cd_def emit_text)

subsection \<open>Lengths\<close>

definition J_FIXED_LEN :: nat where
  "J_FIXED_LEN = length J_WORK_TIME + length J_ID + length J_ANSWERS + length J_DURATION + length J_D
     + length J_ST + length J_RST + 1 + ID_HEX_LEN + 4 + 20 * 4"

lemma idec_length: "\<bar>i\<bar> \<le> 2 ^ 63 \<Longrightarrow> length (idec i) \<le> 20"
  using dec_length[of 19 "nat \<bar>i\<bar>"] by (auto simp: idec_def nat_less_iff)

lemma sint_abs: "\<bar>sint (v :: i64)\<bar> \<le> 2 ^ 63"
  using sint_lt[of v] sint_ge[of v] by simp

lemma commas_length:
  "(\<And>x. x \<in> set xs \<Longrightarrow> length x \<le> k) \<Longrightarrow> length (commas xs) \<le> length xs * (k + 1)"
proof (induction xs rule: commas.induct)
  case (3 x y xs)
  have "length (commas (y # xs)) \<le> length (y # xs) * (k + 1)"
    by (rule "3.IH") (use "3.prems" in auto)
  then show ?case using "3.prems"[of x] by simp
qed auto

lemma draw_range: "100 \<le> draw_duration_tenths b \<and> draw_duration_tenths b \<le> 449"
proof -
  have *: "100 \<le> (10 + a mod 35) * 10 + c mod 10 \<and> (10 + a mod 35) * 10 + c mod 10 \<le> 449" for a c :: nat
    using mod_less_divisor[of 35 a] mod_less_divisor[of 10 c] by (auto simp: algebra_simps)
  show ?thesis by (simp only: draw_duration_tenths_def Let_def *)
qed

lemma tenths_length: "d < 1000 \<Longrightarrow> length (tenths d) \<le> 4"
  using dec_length[of 2 "d div 10"] by (auto simp: tenths_def dec_small)

















subsection \<open>Properties\<close>

text \<open>C12: \<open>write_u64\<close> never underflows its index: the 20 bytes hold every \<open>u64\<close>, and what it
  leaves from the returned position on are decimal digits that denote the number, without a
  leading zero.
\<close>

theorem write_u64_decimal:
  assumes "length buf = INT_BUF_LEN"
  shows "\<exists>buf' start. write_u64 buf v = Some (buf', start) \<and> length buf' = INT_BUF_LEN \<and> start < INT_BUF_LEN
    \<and> (\<forall>b \<in> set (drop start buf'). 48 \<le> unat b \<and> unat b < 58)
    \<and> undec (map unat (drop start buf')) = unat v \<and> (v \<noteq> 0 \<longrightarrow> unat (buf' ! start) \<noteq> 48)"
proof -
  obtain buf' start where w: "write_u64 buf v = Some (buf', start)" "length buf' = INT_BUF_LEN"
      "drop start buf' = map of_nat (dec (unat v))" "start < INT_BUF_LEN"
    using write_u64_some[OF assms, of v] by fastforce
  have digits: "map unat (drop start buf') = dec (unat v)" by (simp only: w(3) unat_dec)
  have "unat (buf' ! start) = hd (map unat (drop start buf'))"
    using w(2,4) by (simp add: hd_map hd_drop_conv_nth)
  then have first: "unat (buf' ! start) = hd (dec (unat v))" by (simp only: digits)
  have "unat b \<in> set (dec (unat v))" if "b \<in> set (drop start buf')" for b
    using that unfolding digits[symmetric] by simp
  then have range: "\<forall>b \<in> set (drop start buf'). 48 \<le> unat b \<and> unat b < 58"
    using dec_digits by blast
  show ?thesis
    using w(1,2,4) range first digits dec_no_leading_zero[of "unat v"] undec_dec[of "unat v"]
    by (intro exI[of _ buf'] exI[of _ start]) (simp add: unat_eq_zero)
qed

lemma write_u64_decimal_witness:
  "length (replicate 20 0 :: u8 list) = INT_BUF_LEN \<and>
   (\<exists>buf' start. write_u64 (replicate 20 0) 18446744073709551615 = Some (buf', start)
     \<and> undec (map unat (drop start buf')) = 18446744073709551615)"
  using write_u64_decimal[of "replicate 20 0" 18446744073709551615] by auto

text \<open>C13: \<open>solve_sub\<close> returns the least nonce between 1 and 2^20 whose digest clears the
  threshold, with that digest in hex as the next state, and \<open>None\<close> exactly when no nonce
  in the range does.
\<close>

theorem solve_sub_least:
  "\<exists>r. solve_sub sha thr current = Some r \<and>
     (case r of
        Some (n, current') \<Rightarrow> n \<in> {1..MAX_NONCE_PER_SUB} \<and> clears sha thr current n
          \<and> {m. 1 \<le> m \<and> m < n \<and> clears sha thr current m} = {} \<and> current' = next_state sha current n
      | None \<Rightarrow> {m. 1 \<le> m \<and> m \<le> MAX_NONCE_PER_SUB \<and> clears sha thr current m} = {})"
  by (cases rule: solve_sub_cases[of sha thr current]) auto

text \<open>C14: \<open>encode_cd\<close> rejects an unset server time, an unset receive time and an empty list of
  answers, in this order, and otherwise writes exactly the JSON object of the exact
  integers; the difference of the two times never overflows.
\<close>

theorem encode_cd_json:
  assumes "list_all (\<lambda>a. a < 2 ^ 32) answers" "duration < 2 ^ 32"
  shows "encode_cd work_time ident answers duration st rst = Some
    (if sint st \<le> 0 then Inl (EncServerTime st)
     else if sint rst \<le> 0 then Inl (EncReceiveTime rst)
     else if answers = [] then Inl EncNoAnswers
     else Inr (cd_json (sint work_time) (map unat ident) answers duration
            (sint rst - sint st) (sint st) (sint rst)))"
  using assms by (rule encode_cd_text)

lemma encode_cd_json_witness:
  "encode_cd 17 (bytes ''ab'') [3, 1048576] 105 40 25 =
     Some (Inr (chars ''{\"workTime\":17,\"id\":\"ab\",\"answers\":[3,1048576],\"duration\":10.5,\"d\":-15,\"st\":40,\"rst\":25}''))"
  using encode_cd_json[of "[3, 1048576]" 105 17 "bytes ''ab''" 40 25]
  by (simp add: cd_json_def chars_def bytes_def idec_def tenths_def dec.simps)

text \<open>the text that \<open>encode_cd\<close> builds fits the capacity it reserves, so the string is
  never reallocated.
\<close>

theorem encode_cd_capacity:
  assumes "encode_cd work_time ident answers (draw_duration_tenths b) st rst = Some (Inr out)"
    and "length ident = ID_HEX_LEN" "list_all (\<lambda>a. a < 2 ^ 32) answers"
  shows "length out \<le> J_FIXED_LEN + length answers * (10 + 1)"
proof -
  have d: "draw_duration_tenths b < 1000" using draw_range[of b] by simp
  then have d': "draw_duration_tenths b < 2 ^ 32" by simp
  have out: "out = cd_json (sint work_time) (map unat ident) answers (draw_duration_tenths b)
      (sint rst - sint st) (sint st) (sint rst)" and pos: "0 < sint st" "0 < sint rst"
    using assms(1) by (simp_all only: encode_cd_text[OF assms(3) d'] option.inject split: if_splits) auto
  have small: "length (dec a) \<le> 10" if "a \<in> set answers" for a
    using that assms(3) by (intro dec_length) (auto simp: list_all_iff)
  have ans: "length (commas (map dec answers)) \<le> length answers * (10 + 1)"
    using commas_length[of "map dec answers" 10] small by auto
  have "\<bar>sint rst - sint st\<bar> \<le> 2 ^ 63" using pos sint_abs[of rst] sint_abs[of st] by simp
  note nums = idec_length[OF this] idec_length[OF sint_abs[of work_time]] idec_length[OF sint_abs[of st]]
    idec_length[OF sint_abs[of rst]] tenths_length[OF d]
  show ?thesis using nums ans assms(2)
    by (simp add: out cd_json_def J_FIXED_LEN_def J_WORK_TIME_def J_ID_def J_ANSWERS_def J_DURATION_def
        J_D_def J_ST_def J_RST_def chars_def)
qed

lemma encode_cd_capacity_witness:
  "\<exists>out. encode_cd 17 (replicate 32 48) [3] (draw_duration_tenths 0) 40 25 = Some (Inr out)
     \<and> length out \<le> J_FIXED_LEN + 11"
  using encode_cd_capacity[of 17 "replicate 32 48" "[3]" 0 40 25] encode_cd_text[of "[3]" "draw_duration_tenths 0"]
    draw_range[of 0]
  by simp



end
