(* ===== verification/Fetch.thy ===== *)
theory Fetch
  imports Strings
begin

text \<open>
  \<open>src/worktime/fetch.rs\<close>: the download of the script and the lifetime that its
  \<open>Cache-Control\<close> and \<open>Age\<close> headers give the cached result.

  The HTTP client, the URL parser and the header-value check are a record \<open>net\<close> of
  functions, and so is \<open>pipeline::extract\<close>, whose first stage is not modelled. An
  \<open>Instant\<close> is a number of nanoseconds. A message is kept as the datum that is formatted.
\<close>

subsection \<open>Constants and types\<close>

definition HTTPS_PREFIX :: str where "HTTPS_PREFIX = chars ''https://''"
definition JAVASCRIPT_CONTENT_TYPE :: "u8 list" where
  "JAVASCRIPT_CONTENT_TYPE = bytes ''application/javascript''"
definition NO_STORE :: "u8 list" where "NO_STORE = bytes ''no-store''"
definition NO_CACHE :: "u8 list" where "NO_CACHE = bytes ''no-cache''"
definition PRIVATE :: "u8 list" where "PRIVATE = bytes ''private''"
definition MAX_AGE :: "u8 list" where "MAX_AGE = bytes ''max-age''"
definition S_MAXAGE :: "u8 list" where "S_MAXAGE = bytes ''s-maxage''"
definition STALE_WHILE_REVALIDATE :: "u8 list" where
  "STALE_WHILE_REVALIDATE = bytes ''stale-while-revalidate''"
abbreviation MAX_DELTA_SECONDS :: nat where "MAX_DELTA_SECONDS \<equiv> 2147483648"
definition WORKTIME_PATH :: str where
  "WORKTIME_PATH = chars ''/149e9513-01fa-4fb0-aad4-566afd725d1b/2d206a39-8ed7-437e-a3be-862e0f06eea3/p.js''"

datatype fetch_status = BadRequest | BadGateway

datatype 'p fetch_message =
    M_Text str
  | M_Status nat
  | M_ContentType "u8 list"
  | M_NotUtf8 "u8 list"
  | M_Pipeline 'p

datatype 'p fetch_error = FetchError fetch_status "'p fetch_message"

abbreviation bad_request :: "'p fetch_message \<Rightarrow> 'p fetch_error" where
  "bad_request m \<equiv> FetchError BadRequest m"

abbreviation bad_gateway :: "'p fetch_message \<Rightarrow> 'p fetch_error" where
  "bad_gateway m \<equiv> FetchError BadGateway m"

type_synonym instant = nat

record lifetime =
  fresh_until :: instant
  stale_until :: instant

record 'x fetched =
  fd_extracted :: 'x
  fd_lifetime :: "lifetime option"

subsection \<open>The lifetime\<close>

definition sat_u64 :: "nat \<Rightarrow> nat" where
  "sat_u64 n = min n (2 ^ 64 - 1)"

fun delta_loop :: "u8 list \<Rightarrow> nat \<Rightarrow> nat option" where
  "delta_loop [] v = Some v"
| "delta_loop (d # ds) v =
     (if \<not> is_ascii_digit d then None
      else delta_loop ds (min (sat_u64 (sat_u64 (v * 10) + unat (d - 48))) MAX_DELTA_SECONDS))"

definition delta_seconds :: "u8 list option \<Rightarrow> nat option" where
  "delta_seconds arg =
     (case arg of None \<Rightarrow> None | Some digits \<Rightarrow> if digits = [] then None else delta_loop digits 0)"

text \<open>\<open>[b'"', inner @ .., b'"']\<close> needs two quotes, so a single one stays.\<close>

definition unquote :: "u8 list \<Rightarrow> u8 list" where
  "unquote arg = (if 2 \<le> length arg \<and> hd arg = 34 \<and> last arg = 34 then butlast (tl arg) else arg)"

definition trim_ascii :: "u8 list \<Rightarrow> u8 list" where
  "trim_ascii = trim_both is_ascii_space"

definition directive_parts :: "u8 list \<Rightarrow> u8 list \<times> u8 list option" where
  "directive_parts directive =
     (let d = trim_ascii directive in
      case position (\<lambda>b. b = 61) d of
        Some i \<Rightarrow> (trim_ascii (take i d), Some (unquote (trim_ascii (drop (i + 1) d))))
      | None \<Rightarrow> (d, None))"

record ages =
  max_age :: "nat option"
  s_maxage :: "nat option"
  swr :: "nat option"
  max_age_seen :: bool
  s_maxage_seen :: bool

text \<open>One directive: \<open>None\<close> is the early return of \<open>lifetime\<close>.\<close>

definition directive_step :: "u8 list \<times> u8 list option \<Rightarrow> ages \<Rightarrow> ages option" where
  "directive_step na st =
     (let name = fst na; arg = snd na in
      if eq_ignore_ascii_case name NO_STORE \<or> eq_ignore_ascii_case name NO_CACHE
         \<or> eq_ignore_ascii_case name PRIVATE then None
      else if eq_ignore_ascii_case name S_MAXAGE then
        (if \<not> s_maxage_seen st
         then (case delta_seconds arg of
                 None \<Rightarrow> None | Some v \<Rightarrow> Some (st\<lparr>s_maxage_seen := True, s_maxage := Some v\<rparr>))
         else Some st)
      else if eq_ignore_ascii_case name MAX_AGE then
        (if \<not> max_age_seen st
         then (case delta_seconds arg of
                 None \<Rightarrow> None | Some v \<Rightarrow> Some (st\<lparr>max_age_seen := True, max_age := Some v\<rparr>))
         else Some st)
      else if eq_ignore_ascii_case name STALE_WHILE_REVALIDATE \<and> swr st = None
        then Some (st\<lparr>swr := delta_seconds arg\<rparr>)
      else Some st)"

fun directives_loop :: "u8 list list \<Rightarrow> ages \<Rightarrow> ages option" where
  "directives_loop [] st = Some st"
| "directives_loop (d # ds) st =
     (case directive_step (directive_parts d) st of None \<Rightarrow> None | Some st' \<Rightarrow> directives_loop ds st')"

fun values_loop :: "u8 list list \<Rightarrow> ages \<Rightarrow> ages option" where
  "values_loop [] st = Some st"
| "values_loop (v # vs) st =
     (case directives_loop (split_on 44 v) st of None \<Rightarrow> None | Some st' \<Rightarrow> values_loop vs st')"

text \<open>\<open>Instant::checked_add\<close>: the seconds are an \<open>i64\<close>.\<close>

definition instant_add :: "instant \<Rightarrow> nat \<Rightarrow> instant option" where
  "instant_add t secs = (let t' = t + secs * 10 ^ 9 in if t' div 10 ^ 9 < 2 ^ 63 then Some t' else None)"

definition lifetime_of :: "u8 list list \<Rightarrow> u8 list option \<Rightarrow> instant \<Rightarrow> lifetime option" where
  "lifetime_of cache_control age_header received =
     (case values_loop cache_control
             \<lparr>max_age = None, s_maxage = None, swr = None, max_age_seen = False, s_maxage_seen = False\<rparr> of
        None \<Rightarrow> None
      | Some st \<Rightarrow>
          (case (case s_maxage st of Some v \<Rightarrow> Some v | None \<Rightarrow> max_age st) of
             None \<Rightarrow> None
           | Some ttl \<Rightarrow>
               let age = (case age_header of None \<Rightarrow> 0
                          | Some v \<Rightarrow> (case delta_seconds (Some (trim_ascii v)) of Some a \<Rightarrow> a | None \<Rightarrow> 0));
                   stale_total = sat_u64 (ttl + (case swr st of Some s \<Rightarrow> s | None \<Rightarrow> 0)) in
               if stale_total \<le> age then None
               else case instant_add received (ttl - age) of
                 None \<Rightarrow> None
               | Some fresh \<Rightarrow>
                   (case instant_add received (stale_total - age) of
                      None \<Rightarrow> None
                    | Some stale \<Rightarrow> Some \<lparr>fresh_until = fresh, stale_until = stale\<rparr>)))"

subsection \<open>fetch\<close>

record response =
  rs_received :: instant
  rs_status :: nat
  rs_content_type :: "u8 list option"
  rs_cache_control :: "u8 list list"
  rs_age :: "u8 list option"
  rs_body :: "str + u8 list"

text \<open>
  What \<open>fetch\<close> calls: the URL parser and the header check return an error text, a request
  that fails says whether it failed in the builder, and the body may fail to arrive.
\<close>

record ('p, 'x) net =
  url_parse :: "str \<Rightarrow> str + str"
  header_value :: "str \<Rightarrow> str + unit"
  send :: "str \<Rightarrow> str \<Rightarrow> (bool \<times> str) + response"
  pipeline :: "str \<Rightarrow> 'p + 'x"

definition is_success :: "nat \<Rightarrow> bool" where
  "is_success status \<longleftrightarrow> 200 \<le> status \<and> status < 300"

definition is_javascript :: "u8 list \<Rightarrow> bool" where
  "is_javascript content_type \<longleftrightarrow>
     (case get_range content_type 0 (length JAVASCRIPT_CONTENT_TYPE) of
        None \<Rightarrow> False | Some p \<Rightarrow> eq_ignore_ascii_case p JAVASCRIPT_CONTENT_TYPE)"

definition read_response :: "(str \<Rightarrow> 'p + 'x) \<Rightarrow> response \<Rightarrow> 'p fetch_error + 'x fetched" where
  "read_response extract_script resp =
     (if \<not> is_success (rs_status resp) then Inl (bad_gateway (M_Status (rs_status resp)))
      else let content_type = (case rs_content_type resp of None \<Rightarrow> [] | Some v \<Rightarrow> v) in
        if \<not> is_javascript content_type then Inl (bad_gateway (M_ContentType content_type))
        else case rs_body resp of
          Inl e \<Rightarrow> Inl (bad_gateway (M_Text e))
        | Inr body \<Rightarrow>
            if body = [] then Inl (bad_gateway (M_Text (chars ''empty response'')))
            else case from_utf8 body of
              None \<Rightarrow> Inl (bad_gateway (M_NotUtf8 body))
            | Some source \<Rightarrow>
                (case extract_script source of
                   Inl e \<Rightarrow> Inl (bad_gateway (M_Pipeline e))
                 | Inr x \<Rightarrow> Inr \<lparr>fd_extracted = x,
                     fd_lifetime = lifetime_of (rs_cache_control resp) (rs_age resp) (rs_received resp)\<rparr>))"

text \<open>The outer option is \<open>None\<close> when slicing the referer out of the URL panics.\<close>

definition fetch :: "('p, 'x) net \<Rightarrow> str \<Rightarrow> ('p fetch_error + 'x fetched) option" where
  "fetch net domain =
     (let raw = HTTPS_PREFIX @ domain @ WORKTIME_PATH in
      case url_parse net raw of
        Inl e \<Rightarrow> Some (Inl (bad_request (M_Text e)))
      | Inr url \<Rightarrow>
          (case str_prefix (length (as_bytes HTTPS_PREFIX) + length (as_bytes domain) + 1) raw of
             None \<Rightarrow> None
           | Some referer \<Rightarrow>
               (case header_value net referer of
                  Inl e \<Rightarrow> Some (Inl (bad_request (M_Text e)))
                | Inr _ \<Rightarrow>
                    (case send net url referer of
                       Inl (builder, e) \<Rightarrow>
                         Some (Inl (if builder then bad_request (M_Text e) else bad_gateway (M_Text e)))
                     | Inr resp \<Rightarrow> Some (read_response (pipeline net) resp)))))"

subsection \<open>Seconds\<close>

lemma undec_snoc: "undec (ds @ [d]) = 10 * undec ds + (d - 48)"
  by (simp add: undec_def)

lemma digit_nat: "is_ascii_digit d \<Longrightarrow> unat (d - 48) = unat d - 48 \<and> unat d - 48 \<le> 9"
  by (auto simp: is_ascii_digit_def word_le_nat_alt unat_sub_if')

lemma delta_step:
  assumes "v = min n MAX_DELTA_SECONDS" "k \<le> 9"
  shows "min (sat_u64 (sat_u64 (v * 10) + k)) MAX_DELTA_SECONDS = min (10 * n + k) MAX_DELTA_SECONDS"
  using assms by (auto simp: sat_u64_def min_def)

lemma delta_loop_spec:
  "v = min (undec pre) MAX_DELTA_SECONDS \<Longrightarrow>
    delta_loop ds v = (if list_all is_ascii_digit ds
      then Some (min (undec (pre @ map unat ds)) MAX_DELTA_SECONDS) else None)"
proof (induction ds arbitrary: v pre)
  case (Cons d ds)
  show ?case
  proof (cases "is_ascii_digit d")
    case True
    note d = digit_nat[OF True]
    have "min (sat_u64 (sat_u64 (v * 10) + unat (d - 48))) MAX_DELTA_SECONDS
        = min (undec (pre @ [unat d])) MAX_DELTA_SECONDS"
      using delta_step[OF Cons.prems, of "unat (d - 48)"] d by (simp add: undec_snoc)
    from Cons.IH[OF this] show ?thesis using True by simp
  qed simp
qed simp

text \<open>\<open>delta_seconds\<close> as a specification: the decimal number, at most \<open>2 ^ 31\<close>.\<close>

definition seconds_spec :: "u8 list option \<Rightarrow> nat option" where
  "seconds_spec arg =
     (case arg of None \<Rightarrow> None
      | Some ds \<Rightarrow> if ds \<noteq> [] \<and> list_all is_ascii_digit ds then Some (min (undec (map unat ds)) (2 ^ 31)) else None)"

lemma delta_seconds_spec: "delta_seconds arg = seconds_spec arg"
proof (cases arg)
  case (Some ds)
  have "delta_loop ds 0 = (if list_all is_ascii_digit ds
      then Some (min (undec (map unat ds)) MAX_DELTA_SECONDS) else None)"
    using delta_loop_spec[of 0 "[]" ds] by (simp add: undec_def)
  then show ?thesis using Some by (auto simp: delta_seconds_def seconds_spec_def)
qed (simp add: delta_seconds_def seconds_spec_def)

lemma seconds_bound: "delta_seconds arg = Some v \<Longrightarrow> v \<le> 2 ^ 31"
  by (auto simp: delta_seconds_spec seconds_spec_def split: option.splits if_splits)

subsection \<open>Directives as a list\<close>

definition directives :: "u8 list list \<Rightarrow> (u8 list \<times> u8 list option) list" where
  "directives values = concat (map (\<lambda>v. map directive_parts (split_on 44 v)) values)"

text \<open>The arguments of the directives with a name, as seconds.\<close>

definition seconds_named :: "u8 list \<Rightarrow> (u8 list \<times> u8 list option) list \<Rightarrow> nat option list" where
  "seconds_named n ds = map (delta_seconds \<circ> snd) (filter (\<lambda>d. eq_ignore_ascii_case (fst d) n) ds)"

definition forbids :: "(u8 list \<times> u8 list option) list \<Rightarrow> bool" where
  "forbids ds \<longleftrightarrow> (\<exists>d \<in> set ds. eq_ignore_ascii_case (fst d) NO_STORE
     \<or> eq_ignore_ascii_case (fst d) NO_CACHE \<or> eq_ignore_ascii_case (fst d) PRIVATE)"

fun first_some :: "'a option list \<Rightarrow> 'a option" where
  "first_some [] = None"
| "first_some (Some x # xs) = Some x"
| "first_some (None # xs) = first_some xs"

fun steps :: "(u8 list \<times> u8 list option) list \<Rightarrow> ages \<Rightarrow> ages option" where
  "steps [] st = Some st"
| "steps (d # ds) st = (case directive_step d st of None \<Rightarrow> None | Some st' \<Rightarrow> steps ds st')"

lemma steps_append: "steps (ds @ es) st = (case steps ds st of None \<Rightarrow> None | Some st' \<Rightarrow> steps es st')"
  by (induction ds arbitrary: st) (auto split: option.splits)

lemma directives_loop_steps: "directives_loop ds st = steps (map directive_parts ds) st"
  by (induction ds arbitrary: st) (auto split: option.splits)

lemma values_loop_steps: "values_loop vs st = steps (directives vs) st"
  by (induction vs arbitrary: st) (auto simp: directives_def directives_loop_steps steps_append split: option.splits)

text \<open>The names that \<open>lifetime\<close> distinguishes are different, so the order of its tests does not matter.\<close>

lemma names_distinct:
  "eq_ignore_ascii_case n S_MAXAGE \<Longrightarrow> \<not> eq_ignore_ascii_case n MAX_AGE \<and> \<not> eq_ignore_ascii_case n STALE_WHILE_REVALIDATE"
  "eq_ignore_ascii_case n MAX_AGE \<Longrightarrow> \<not> eq_ignore_ascii_case n STALE_WHILE_REVALIDATE"
proof -
  have l: "length S_MAXAGE = 8" "length MAX_AGE = 7" "length STALE_WHILE_REVALIDATE = 22"
    by (simp_all add: S_MAXAGE_def MAX_AGE_def STALE_WHILE_REVALIDATE_def bytes_def)
  have len: "eq_ignore_ascii_case n m \<Longrightarrow> length n = length m" for m
    unfolding eq_ignore_ascii_case_def by (drule map_eq_imp_length_eq)
  show "eq_ignore_ascii_case n S_MAXAGE \<Longrightarrow> \<not> eq_ignore_ascii_case n MAX_AGE \<and> \<not> eq_ignore_ascii_case n STALE_WHILE_REVALIDATE"
    and "eq_ignore_ascii_case n MAX_AGE \<Longrightarrow> \<not> eq_ignore_ascii_case n STALE_WHILE_REVALIDATE"
    using l len[of S_MAXAGE] len[of MAX_AGE] len[of STALE_WHILE_REVALIDATE] by auto
qed

text \<open>What the loop leaves, from any state: the first \<open>s-maxage\<close> and \<open>max-age\<close> count, and must parse.\<close>

definition merge_first :: "bool \<Rightarrow> nat option \<Rightarrow> nat option list \<Rightarrow> nat option option" where
  "merge_first seen v vs = (if seen then Some v else case vs of [] \<Rightarrow> Some v | None # _ \<Rightarrow> None | Some x # _ \<Rightarrow> Some (Some x))"

definition steps_result :: "(u8 list \<times> u8 list option) list \<Rightarrow> ages \<Rightarrow> (nat option \<times> nat option \<times> nat option) option" where
  "steps_result ds st =
     (if forbids ds then None
      else case merge_first (s_maxage_seen st) (s_maxage st) (seconds_named S_MAXAGE ds) of
        None \<Rightarrow> None
      | Some s \<Rightarrow>
          (case merge_first (max_age_seen st) (max_age st) (seconds_named MAX_AGE ds) of
             None \<Rightarrow> None
           | Some m \<Rightarrow> Some (s, m, if swr st = None then first_some (seconds_named STALE_WHILE_REVALIDATE ds) else swr st)))"

lemma forbids_Cons: "forbids (d # ds) \<longleftrightarrow> forbids [d] \<or> forbids ds"
  by (auto simp: forbids_def)

lemma seconds_named_Cons:
  "seconds_named n (d # ds) =
    (if eq_ignore_ascii_case (fst d) n then delta_seconds (snd d) # seconds_named n ds else seconds_named n ds)"
  by (simp add: seconds_named_def)

lemma directive_step_cases:
  "directive_step d st =
    (if forbids [d] then None
     else if eq_ignore_ascii_case (fst d) S_MAXAGE then
       (if s_maxage_seen st then Some st
        else map_option (\<lambda>v. st\<lparr>s_maxage_seen := True, s_maxage := Some v\<rparr>) (delta_seconds (snd d)))
     else if eq_ignore_ascii_case (fst d) MAX_AGE then
       (if max_age_seen st then Some st
        else map_option (\<lambda>v. st\<lparr>max_age_seen := True, max_age := Some v\<rparr>) (delta_seconds (snd d)))
     else if eq_ignore_ascii_case (fst d) STALE_WHILE_REVALIDATE \<and> swr st = None
       then Some (st\<lparr>swr := delta_seconds (snd d)\<rparr>)
     else Some st)"
  by (simp add: directive_step_def forbids_def Let_def split: option.splits)

lemma merge_first_Cons:
  "merge_first seen v (x # xs) = (if seen then Some v else map_option Some x)"
  by (cases x) (simp_all add: merge_first_def)

lemma merge_first_seen [simp]: "merge_first True v xs = Some v"
  by (simp add: merge_first_def)

lemma steps_spec: "map_option (\<lambda>st. (s_maxage st, max_age st, swr st)) (steps ds st) = steps_result ds st"
proof (induction ds arbitrary: st)
  case Nil
  then show ?case
    by (simp add: steps_result_def forbids_def merge_first_def seconds_named_def)
next
  case (Cons d ds)
  show ?case
  proof (cases "forbids [d]")
    case True
    then show ?thesis by (simp add: steps_result_def forbids_Cons[of d ds] directive_step_cases)
  next
    case False
    note result = steps_result_def seconds_named_Cons forbids_Cons[of d ds] merge_first_Cons
    have none: "steps ds st' = None" if "forbids ds" for st'
      using Cons.IH[of st'] that by (simp add: steps_result_def)
    consider "eq_ignore_ascii_case (fst d) S_MAXAGE"
      | "eq_ignore_ascii_case (fst d) MAX_AGE" "\<not> eq_ignore_ascii_case (fst d) S_MAXAGE"
      | "eq_ignore_ascii_case (fst d) STALE_WHILE_REVALIDATE"
          "\<not> eq_ignore_ascii_case (fst d) MAX_AGE" "\<not> eq_ignore_ascii_case (fst d) S_MAXAGE"
      | "\<not> eq_ignore_ascii_case (fst d) STALE_WHILE_REVALIDATE"
          "\<not> eq_ignore_ascii_case (fst d) MAX_AGE" "\<not> eq_ignore_ascii_case (fst d) S_MAXAGE"
      by blast
    then show ?thesis
    proof cases
      case 1
      then show ?thesis using False names_distinct(1)[OF 1] none
        by (cases "delta_seconds (snd d)"; cases "s_maxage_seen st")
          (simp_all add: directive_step_cases Cons.IH result cong: option.case_cong)
    next
      case 2
      then show ?thesis using False names_distinct(2)[OF 2(1)] none
        by (cases "delta_seconds (snd d)"; cases "max_age_seen st")
          (simp_all add: directive_step_cases Cons.IH result cong: option.case_cong split: option.split)
    next
      case 3
      then show ?thesis using False none
        by (cases "delta_seconds (snd d)"; cases "swr st") (simp_all add: directive_step_cases Cons.IH result cong: option.case_cong)
    next
      case 4
      then show ?thesis using False by (simp add: directive_step_cases Cons.IH result cong: option.case_cong)
    qed
  qed
qed

subsection \<open>The lifetime as a specification\<close>

definition default_0 :: "nat option \<Rightarrow> nat" where
  "default_0 x = (case x of None \<Rightarrow> 0 | Some v \<Rightarrow> v)"

text \<open>
  No forbidding directive; the first \<open>s-maxage\<close> and the first \<open>max-age\<close>, when there is
  one, must be a number; the shared age wins; the grace is the first
  \<open>stale-while-revalidate\<close> that is a number; the \<open>Age\<close> header is time already spent.
\<close>

definition lifetime_spec :: "u8 list list \<Rightarrow> u8 list option \<Rightarrow> instant \<Rightarrow> lifetime option" where
  "lifetime_spec cache_control age_header received =
     (let ds = directives cache_control; s = seconds_named S_MAXAGE ds; m = seconds_named MAX_AGE ds;
          grace = default_0 (first_some (seconds_named STALE_WHILE_REVALIDATE ds));
          spent = default_0 (seconds_spec (map_option trim_ascii age_header)) in
      if forbids ds \<or> s \<noteq> [] \<and> hd s = None \<or> m \<noteq> [] \<and> hd m = None \<or> s = [] \<and> m = [] then None
      else let ttl = the (hd (if s \<noteq> [] then s else m)); stale = received + (ttl + grace - spent) * 10 ^ 9 in
        if ttl + grace \<le> spent \<or> 2 ^ 63 \<le> stale div 10 ^ 9 then None
        else Some \<lparr>fresh_until = received + (ttl - spent) * 10 ^ 9, stale_until = stale\<rparr>)"

lemma first_some_bound: "(\<And>v. Some v \<in> set xs \<Longrightarrow> v \<le> k) \<Longrightarrow> first_some xs = Some w \<Longrightarrow> w \<le> k"
  by (induction xs rule: first_some.induct) auto

lemma seconds_named_bound: "Some v \<in> set (seconds_named n ds) \<Longrightarrow> v \<le> 2 ^ 31"
  using seconds_bound by (auto simp: seconds_named_def)

lemma lifetime_finish:
  assumes "ttl \<le> 2 ^ 31" "grace \<le> 2 ^ 31"
  shows "(let stale_total = sat_u64 (ttl + grace) in
      if stale_total \<le> age then None
      else case instant_add received (ttl - age) of
        None \<Rightarrow> None
      | Some fresh \<Rightarrow> (case instant_add received (stale_total - age) of
          None \<Rightarrow> None | Some stale \<Rightarrow> Some \<lparr>fresh_until = fresh, stale_until = stale\<rparr>))
    = (let stale = received + (ttl + grace - age) * 10 ^ 9 in
        if ttl + grace \<le> age \<or> 2 ^ 63 \<le> stale div 10 ^ 9 then None
        else Some \<lparr>fresh_until = received + (ttl - age) * 10 ^ 9, stale_until = stale\<rparr>)"
proof -
  have sat: "sat_u64 (ttl + grace) = ttl + grace" using assms by (simp add: sat_u64_def)
  have "received + (ttl - age) * 10 ^ 9 \<le> received + (ttl + grace - age) * 10 ^ 9" by simp
  then have "(received + (ttl - age) * 10 ^ 9) div 10 ^ 9 \<le> (received + (ttl + grace - age) * 10 ^ 9) div 10 ^ 9"
    by (rule div_le_mono)
  then show ?thesis by (simp only: sat instant_add_def Let_def) (simp split: if_splits)
qed

lemma spent_default:
  "(case age_header of None \<Rightarrow> 0
    | Some v \<Rightarrow> (case delta_seconds (Some (trim_ascii v)) of Some a \<Rightarrow> a | None \<Rightarrow> 0))
   = default_0 (seconds_spec (map_option trim_ascii age_header))"
  by (cases age_header) (simp_all add: default_0_def delta_seconds_spec seconds_spec_def split: option.split)

abbreviation no_ages :: ages where
  "no_ages \<equiv> \<lparr>max_age = None, s_maxage = None, swr = None, max_age_seen = False, s_maxage_seen = False\<rparr>"

lemma values_loop_result:
  "map_option (\<lambda>st. (s_maxage st, max_age st, swr st)) (values_loop vs no_ages) =
    (let ds = directives vs; s = seconds_named S_MAXAGE ds; m = seconds_named MAX_AGE ds in
     if forbids ds \<or> s \<noteq> [] \<and> hd s = None \<or> m \<noteq> [] \<and> hd m = None then None
     else Some (if s = [] then None else hd s, if m = [] then None else hd m,
            first_some (seconds_named STALE_WHILE_REVALIDATE ds)))"
  by (simp add: values_loop_steps steps_spec steps_result_def merge_first_def Let_def
      split: list.split option.split)

lemma lifetime_of_spec: "lifetime_of cc ah received = lifetime_spec cc ah received"
proof -
  define ds where "ds = directives cc"
  define s where "s = seconds_named S_MAXAGE ds"
  define m where "m = seconds_named MAX_AGE ds"
  define g where "g = first_some (seconds_named STALE_WHILE_REVALIDATE ds)"
  note result = values_loop_result[of cc, unfolded Let_def, folded ds_def, folded s_def m_def g_def]
  have grace: "default_0 g \<le> 2 ^ 31"
    using first_some_bound[of "seconds_named STALE_WHILE_REVALIDATE ds" "2 ^ 31"] seconds_named_bound
    by (cases g) (auto simp: g_def default_0_def)
  have ttl: "xs \<noteq> [] \<Longrightarrow> hd xs = Some t \<Longrightarrow> set xs \<subseteq> set s \<union> set m \<Longrightarrow> t \<le> 2 ^ 31" for xs t
    using seconds_named_bound[of t S_MAXAGE ds] seconds_named_bound[of t MAX_AGE ds]
    by (cases xs) (auto simp: s_def m_def)
  show ?thesis
  proof (cases "forbids ds \<or> s \<noteq> [] \<and> hd s = None \<or> m \<noteq> [] \<and> hd m = None")
    case True
    then have "values_loop cc no_ages = None" using result by simp
    then show ?thesis using True
      by (auto simp: lifetime_of_def lifetime_spec_def Let_def ds_def[symmetric] s_def[symmetric] m_def[symmetric])
  next
    case False
    then obtain st where st: "values_loop cc no_ages = Some st" "s_maxage st = (if s = [] then None else hd s)"
        "max_age st = (if m = [] then None else hd m)" "swr st = g"
      using result by (auto split: if_splits)
    show ?thesis
    proof (cases "s = [] \<and> m = []")
      case True
      then show ?thesis using st
        by (simp add: lifetime_of_def lifetime_spec_def Let_def ds_def[symmetric] s_def[symmetric] m_def[symmetric])
    next
      case some: False
      define xs where "xs = (if s \<noteq> [] then s else m)"
      obtain t where t: "hd xs = Some t" "t \<le> 2 ^ 31"
        using False some ttl[of xs] by (fastforce simp: xs_def split: if_splits)
      have eff: "(case s_maxage st of Some v \<Rightarrow> Some v | None \<Rightarrow> max_age st) = Some t"
        using st False some t(1) by (auto simp: xs_def split: option.split if_splits)
      have "lifetime_of cc ah received = (let stale = received + (t + default_0 g
            - default_0 (seconds_spec (map_option trim_ascii ah))) * 10 ^ 9 in
          if t + default_0 g \<le> default_0 (seconds_spec (map_option trim_ascii ah)) \<or> 2 ^ 63 \<le> stale div 10 ^ 9 then None
          else Some \<lparr>fresh_until = received + (t - default_0 (seconds_spec (map_option trim_ascii ah))) * 10 ^ 9,
              stale_until = stale\<rparr>)"
        unfolding lifetime_finish[OF t(2) grace, symmetric]
        by (simp only: lifetime_of_def st(1) eff spent_default option.case Let_def st(4) default_0_def)
      also have "\<dots> = lifetime_spec cc ah received"
        using False some t(1)
        by (simp only: lifetime_spec_def Let_def ds_def[symmetric] s_def[symmetric] m_def[symmetric] g_def[symmetric]
            xs_def[symmetric] option.sel if_False simp_thms)
      finally show ?thesis .
    qed
  qed
qed

lemma lifetime_spec_ordered:
  assumes "lifetime_spec cc ah received = Some l"
  shows "received \<le> fresh_until l \<and> fresh_until l \<le> stale_until l \<and> received < stale_until l
    \<and> stale_until l \<le> received + 2 ^ 32 * 10 ^ 9"
proof -
  define ds where "ds = directives cc"
  define g where "g = default_0 (first_some (seconds_named STALE_WHILE_REVALIDATE ds))"
  define sp where "sp = default_0 (seconds_spec (map_option trim_ascii ah))"
  have grace: "g \<le> 2 ^ 31"
    using first_some_bound[of "seconds_named STALE_WHILE_REVALIDATE ds" "2 ^ 31"] seconds_named_bound
    by (auto simp: g_def default_0_def split: option.split)
  obtain n t where t: "Some t \<in> set (seconds_named n ds)" "\<not> t + g \<le> sp"
      "fresh_until l = received + (t - sp) * 10 ^ 9" "stale_until l = received + (t + g - sp) * 10 ^ 9"
    using assms unfolding lifetime_spec_def Let_def ds_def[symmetric] g_def[symmetric] sp_def[symmetric]
    by (cases "seconds_named S_MAXAGE ds"; cases "seconds_named MAX_AGE ds"; auto split: if_splits)
      (metis list.set_intros(1))+
  have "t + g - sp \<le> 2 ^ 32" using seconds_named_bound[OF t(1)] grace by simp
  then show ?thesis using t(2) by (simp add: t(3,4))
qed

subsection \<open>The interface that the cache relies on\<close>

text \<open>
  The cache compares the current time with the two instants of a lifetime. What it needs
  of them: a result is still usable when it arrives, and the fresh period ends no later
  than the stale one.
\<close>

locale expiry =
  fixes life :: "'r \<Rightarrow> instant \<Rightarrow> lifetime option"
  assumes ordered: "life r received = Some l \<Longrightarrow> fresh_until l \<le> stale_until l"
    and usable: "life r received = Some l \<Longrightarrow> received < stale_until l"
begin

text \<open>A moment is in exactly one of the three periods.\<close>

lemma periods:
  "life r received = Some l \<Longrightarrow>
    (now < fresh_until l \<longrightarrow> now < stale_until l) \<and> (stale_until l \<le> now \<longrightarrow> fresh_until l \<le> now)"
  using ordered[of r received l] by auto

lemma served_on_arrival:
  "life r received = Some l \<Longrightarrow> now \<le> received \<Longrightarrow> now < fresh_until l \<or> now < stale_until l"
  using usable[of r received l] by auto

end

interpretation http: expiry "\<lambda>(cc, ah). lifetime_of cc ah"
  by unfold_locales (auto simp: lifetime_of_spec dest: lifetime_spec_ordered)

subsection \<open>fetch\<close>

lemma referer_slice:
  "str_prefix (length (as_bytes HTTPS_PREFIX) + length (as_bytes domain) + 1) (HTTPS_PREFIX @ domain @ WORKTIME_PATH)
    = Some (HTTPS_PREFIX @ domain @ [47])"
proof -
  define rest where "rest = tl WORKTIME_PATH"
  have w: "WORKTIME_PATH = 47 # rest" by (simp add: WORKTIME_PATH_def chars_def rest_def)
  have "length (as_bytes (HTTPS_PREFIX @ domain @ [47])) = length (as_bytes HTTPS_PREFIX) + length (as_bytes domain) + 1"
    by (simp add: utf8_char_def)
  then show ?thesis using str_prefix_append[of "HTTPS_PREFIX @ domain @ [47]" rest] by (simp add: w)
qed

text \<open>A response is accepted: its status, its type, its body and what the pipeline made of it.\<close>

definition accepted :: "('p, 'x) net \<Rightarrow> response \<Rightarrow> 'x \<Rightarrow> bool" where
  "accepted net resp x \<longleftrightarrow>
     200 \<le> rs_status resp \<and> rs_status resp < 300
     \<and> (\<exists>ct. rs_content_type resp = Some ct \<and> length JAVASCRIPT_CONTENT_TYPE \<le> length ct
           \<and> eq_ignore_ascii_case (take (length JAVASCRIPT_CONTENT_TYPE) ct) JAVASCRIPT_CONTENT_TYPE)
     \<and> (\<exists>source. list_all scalar source \<and> source \<noteq> [] \<and> rs_body resp = Inr (as_bytes source)
           \<and> pipeline net source = Inr x)"

lemma is_javascript_iff: "is_javascript ct \<longleftrightarrow> length JAVASCRIPT_CONTENT_TYPE \<le> length ct
    \<and> eq_ignore_ascii_case (take (length JAVASCRIPT_CONTENT_TYPE) ct) JAVASCRIPT_CONTENT_TYPE"
  by (simp add: is_javascript_def get_range_def)

lemma not_javascript_Nil: "\<not> is_javascript []"
  by (simp add: is_javascript_iff JAVASCRIPT_CONTENT_TYPE_def bytes_def)

lemma read_response_Inr:
  "read_response (pipeline net) resp = Inr f \<longleftrightarrow>
     accepted net resp (fd_extracted f)
     \<and> fd_lifetime f = lifetime_of (rs_cache_control resp) (rs_age resp) (rs_received resp)"
proof
  assume "read_response (pipeline net) resp = Inr f"
  then show "accepted net resp (fd_extracted f)
     \<and> fd_lifetime f = lifetime_of (rs_cache_control resp) (rs_age resp) (rs_received resp)"
    using not_javascript_Nil
    by (auto simp: read_response_def accepted_def is_success_def is_javascript_iff Let_def
        split: if_splits sum.splits option.splits dest!: from_utf8_sound)
next
  assume r: "accepted net resp (fd_extracted f)
     \<and> fd_lifetime f = lifetime_of (rs_cache_control resp) (rs_age resp) (rs_received resp)"
  then obtain ct source where "200 \<le> rs_status resp" "rs_status resp < 300" "rs_content_type resp = Some ct"
      "is_javascript ct" "list_all scalar source" "source \<noteq> []" "rs_body resp = Inr (as_bytes source)"
      "pipeline net source = Inr (fd_extracted f)"
    by (auto simp: accepted_def is_javascript_iff)
  moreover have "as_bytes source \<noteq> []"
    using \<open>source \<noteq> []\<close> utf8_char_nonempty by (cases source) auto
  ultimately show "read_response (pipeline net) resp = Inr f"
    using r by (simp add: read_response_def is_success_def from_utf8_as_bytes)
qed

lemma read_response_gateway: "read_response ex resp = Inl (FetchError s m) \<Longrightarrow> s = BadGateway"
  by (auto simp: read_response_def Let_def split: if_splits sum.splits option.splits)

text \<open>What \<open>fetch\<close> may return, in terms of what it called.\<close>

definition fetch_outcome :: "('p, 'x) net \<Rightarrow> str \<Rightarrow> 'p fetch_error + 'x fetched \<Rightarrow> bool" where
  "fetch_outcome net domain r \<longleftrightarrow>
     (let url = url_parse net (HTTPS_PREFIX @ domain @ WORKTIME_PATH); referer = HTTPS_PREFIX @ domain @ [47] in
      case r of
        Inr f \<Rightarrow> \<exists>u resp. url = Inr u \<and> header_value net referer = Inr () \<and> send net u referer = Inr resp
          \<and> accepted net resp (fd_extracted f)
          \<and> fd_lifetime f = lifetime_of (rs_cache_control resp) (rs_age resp) (rs_received resp)
      | Inl (FetchError BadRequest m) \<Rightarrow>
          (\<exists>e. url = Inl e \<or> (\<exists>u. url = Inr u \<and> (header_value net referer = Inl e \<or> send net u referer = Inl (True, e))))
      | Inl (FetchError BadGateway m) \<Rightarrow>
          (\<exists>u. url = Inr u \<and> header_value net referer = Inr ()
            \<and> ((\<exists>e. send net u referer = Inl (False, e))
              \<or> (\<exists>resp. send net u referer = Inr resp \<and> {x. accepted net resp x} = {}))))"

lemma fetch_sent:
  assumes "url_parse net (HTTPS_PREFIX @ domain @ WORKTIME_PATH) = Inr u"
    and "header_value net (HTTPS_PREFIX @ domain @ [47]) = Inr ()"
  shows "fetch net domain = Some (case send net u (HTTPS_PREFIX @ domain @ [47]) of
      Inl (builder, e) \<Rightarrow> Inl (if builder then bad_request (M_Text e) else bad_gateway (M_Text e))
    | Inr resp \<Rightarrow> read_response (pipeline net) resp)"
  using assms by (simp only: fetch_def Let_def referer_slice option.case sum.case split: sum.split prod.split) simp

lemma read_response_rejected:
  assumes "read_response (pipeline net) resp = Inl e"
  shows "{x. accepted net resp x} = {}"
proof -
  have "\<not> accepted net resp x" for x
    using read_response_Inr[of net resp "\<lparr>fd_extracted = x,
      fd_lifetime = lifetime_of (rs_cache_control resp) (rs_age resp) (rs_received resp)\<rparr>"] assms by simp
  then show ?thesis by simp
qed

subsection \<open>Properties\<close>

text \<open>C16: The directive loop computes the lifetime that the headers mean: the first
  \<open>s-maxage\<close>, else the first \<open>max-age\<close>, less the age already spent, plus the first readable
  \<open>stale-while-revalidate\<close>; nothing when caching is forbidden, an age is unreadable or the
  result is stale on arrival. Neither the saturation nor the order of the directives matters.\<close>

theorem lifetime_exact:
  "lifetime_of cache_control age_header received = lifetime_spec cache_control age_header received"
  by (rule lifetime_of_spec)

text \<open>C17: A lifetime is ordered and bounded: usable on arrival, fresh no longer than stale,
  and at most 2^32 seconds long, whatever the headers say.\<close>

theorem lifetime_bounds:
  assumes "lifetime_of cache_control age_header received = Some l"
  shows "received \<le> fresh_until l \<and> fresh_until l \<le> stale_until l \<and> received < stale_until l
    \<and> stale_until l \<le> received + 2 ^ 32 * 10 ^ 9"
  using assms unfolding lifetime_of_spec by (rule lifetime_spec_ordered)

lemma sample_directives:
  "directives [bytes ''max-age=60, stale-while-revalidate=30''] =
    [(bytes ''max-age'', Some (bytes ''60'')), (bytes ''stale-while-revalidate'', Some (bytes ''30''))]"
  by (simp add: directives_def directive_parts_def bytes_def trim_ascii_def trim_both_def trim_end_def
      is_ascii_space_def unquote_def Let_def)

lemma sample_lifetime:
  "lifetime_of [bytes ''max-age=60, stale-while-revalidate=30''] (Some (bytes '' 10'')) 5 =
    Some \<lparr>fresh_until = 50000000005, stale_until = 80000000005\<rparr>"
proof -
  have sec: "delta_seconds (Some (bytes ''60'')) = Some 60" "delta_seconds (Some (bytes ''30'')) = Some 30"
    "seconds_spec (Some (trim_ascii (bytes '' 10''))) = Some 10"
    by (simp_all add: delta_seconds_spec seconds_spec_def bytes_def is_ascii_digit_def undec_def trim_ascii_def
        trim_both_def trim_end_def is_ascii_space_def)
  show ?thesis
    by (simp add: lifetime_of_spec lifetime_spec_def sample_directives seconds_named_def forbids_def sec
        eq_ignore_ascii_case_def S_MAXAGE_def MAX_AGE_def STALE_WHILE_REVALIDATE_def NO_STORE_def NO_CACHE_def
        PRIVATE_def bytes_def[of "''max-age''"] bytes_def[of "''stale-while-revalidate''"]
        bytes_def[of "''s-maxage''"] bytes_def[of "''no-store''"] bytes_def[of "''no-cache''"]
        bytes_def[of "''private''"] lower_byte_def default_0_def)
qed

lemma lifetime_bounds_witness:
  "fresh_until \<lparr>fresh_until = 50000000005, stale_until = 80000000005\<rparr> \<le> (80000000005 :: nat)
   \<and> (5 :: nat) < stale_until \<lparr>fresh_until = 50000000005, stale_until = 80000000005\<rparr>"
  using lifetime_bounds[OF sample_lifetime] by simp

text \<open>C18: \<open>fetch\<close> never panics on the slice of the referer; it blames the request exactly
  when nothing was sent, and returns an extraction exactly when the response has a success
  status, the JavaScript type and a non-empty UTF-8 body that the pipeline accepts.\<close>

theorem fetch_classified: "\<exists>r. fetch net domain = Some r \<and> fetch_outcome net domain r"
proof (cases "url_parse net (HTTPS_PREFIX @ domain @ WORKTIME_PATH)")
  case (Inl e)
  then show ?thesis by (simp add: fetch_def fetch_outcome_def)
next
  case u: (Inr u)
  show ?thesis
  proof (cases "header_value net (HTTPS_PREFIX @ domain @ [47])")
    case (Inl e)
    have "fetch net domain = Some (Inl (bad_request (M_Text e)))"
      by (simp only: fetch_def Let_def referer_slice u Inl option.case sum.case)
    then show ?thesis using u Inl by (auto simp: fetch_outcome_def Let_def)
  next
    case (Inr w)
    then have h: "header_value net (HTTPS_PREFIX @ domain @ [47]) = Inr ()" by simp
    note eq = fetch_sent[OF u h]
    show ?thesis
    proof (cases "send net u (HTTPS_PREFIX @ domain @ [47])")
      case (Inl be)
      then show ?thesis using eq u h by (cases be) (auto simp: fetch_outcome_def Let_def)
    next
      case (Inr resp)
      then show ?thesis
        using eq u h read_response_Inr[of net resp] read_response_rejected[of net resp]
          read_response_gateway[of "pipeline net" resp]
        by (cases "read_response (pipeline net) resp")
          (auto simp: fetch_outcome_def Let_def split: fetch_error.split fetch_status.split)
    qed
  qed
qed

end
