(* ===== verification/Cache.thy ===== *)
theory Cache
  imports Fetch
begin

text \<open>
  \<open>src/worktime/cache.rs\<close>: the shared cache of extracted scripts. A table maps a host in
  lower case to a slot with an entry, a running download, or both. \<open>plan\<close> decides from a slot
  and a time, \<open>claim\<close> and \<open>settle\<close> change the table under the write lock, \<open>run\<close> downloads and
  settles, \<open>wait\<close> reads the channel of a download.

  The operations are functions. The interleaving of callers and downloads is the step relation
  \<open>cstep\<close>: each rule is what happens under one lock or between two awaits. A channel is named
  by the number of channels opened before it; a generation is a \<open>u64\<close>. Values have the type
  \<open>'v\<close> and download errors the type \<open>'p fetch_error\<close>; what a download may answer is a
  parameter \<open>answers\<close>.
\<close>

subsection \<open>Types\<close>

abbreviation KEY_STACK :: nat where "KEY_STACK \<equiv> 256"

definition ABORTED :: str where "ABORTED = chars ''p.js fetch aborted''"

record 'v entry =
  en_value :: 'v
  en_fresh_until :: instant
  en_stale_until :: instant
  en_generation :: nat

record flight =
  fl_generation :: nat
  fl_rx :: nat

record 'v cache_slot =
  sl_entry :: "'v entry option"
  sl_flight :: "flight option"

record 'v table =
  slots :: "str \<Rightarrow> 'v cache_slot option"
  next_generation :: nat

datatype 'v planned = PlanServe 'v | PlanJoin nat | PlanRefresh 'v | PlanFetch

datatype 'v claimed =
    ClaimServe 'v
  | ClaimJoin nat
  | ClaimRefresh 'v nat nat
  | ClaimFetch nat nat nat

datatype 'v settled = Cached 'v lifetime | Uncached | Failed

type_synonym ('p, 'v) outcome = "'p fetch_error + 'v"

subsection \<open>Operations\<close>

text \<open>A host is copied to the stack when it fits; the \<open>from_utf8\<close> there cannot fail.\<close>

definition to_ascii_lowercase :: "str \<Rightarrow> str" where
  "to_ascii_lowercase = map lower_char"

definition lower :: "str \<Rightarrow> str" where
  "lower domain =
     (if KEY_STACK < length (as_bytes domain) then to_ascii_lowercase domain
      else case from_utf8 (map lower_byte (as_bytes domain)) of
        Some s \<Rightarrow> s | None \<Rightarrow> to_ascii_lowercase domain)"

definition new_table :: "'v table" where
  "new_table = \<lparr>slots = (\<lambda>_. None), next_generation = 0\<rparr>"

definition plan_flight :: "'v cache_slot \<Rightarrow> 'v planned" where
  "plan_flight s = (case sl_flight s of Some f \<Rightarrow> PlanJoin (fl_rx f) | None \<Rightarrow> PlanFetch)"

definition plan :: "'v cache_slot \<Rightarrow> instant \<Rightarrow> 'v planned" where
  "plan s now =
     (case sl_entry s of
        Some e \<Rightarrow>
          if now < en_fresh_until e then PlanServe (en_value e)
          else if now < en_stale_until e
            then (case sl_flight s of Some _ \<Rightarrow> PlanServe (en_value e) | None \<Rightarrow> PlanRefresh (en_value e))
          else plan_flight s
      | None \<Rightarrow> plan_flight s)"

text \<open>\<open>open\<close>: the new channel \<open>ch\<close> carries the flight; the generation counter is a \<open>u64\<close>.\<close>

definition open_flight :: "nat \<Rightarrow> 'v cache_slot \<Rightarrow> nat \<Rightarrow> 'v cache_slot \<times> nat" where
  "open_flight ch s generation =
     (s\<lparr>sl_flight := Some \<lparr>fl_generation = generation, fl_rx = ch\<rparr>\<rparr>, (generation + 1) mod 2 ^ 64)"

definition claim :: "nat \<Rightarrow> 'v table \<Rightarrow> str \<Rightarrow> instant \<Rightarrow> 'v claimed \<times> 'v table" where
  "claim ch t key now =
     (let generation = next_generation t;
          s = (case slots t key of Some s \<Rightarrow> s | None \<Rightarrow> \<lparr>sl_entry = None, sl_flight = None\<rparr>);
          opened = open_flight ch s generation;
          t' = t\<lparr>slots := (slots t)(key \<mapsto> fst opened), next_generation := snd opened\<rparr>
      in case plan s now of
           PlanServe v \<Rightarrow> (ClaimServe v, t\<lparr>slots := (slots t)(key \<mapsto> s)\<rparr>)
         | PlanJoin rx \<Rightarrow> (ClaimJoin rx, t\<lparr>slots := (slots t)(key \<mapsto> s)\<rparr>)
         | PlanRefresh v \<Rightarrow> (ClaimRefresh v generation ch, t')
         | PlanFetch \<Rightarrow> (ClaimFetch ch generation ch, t'))"

definition settle_entry :: "'v entry option \<Rightarrow> nat \<Rightarrow> 'v settled \<Rightarrow> instant \<Rightarrow> 'v entry option" where
  "settle_entry entry generation settled now =
     (let newer = (case entry of Some e \<Rightarrow> generation < en_generation e | None \<Rightarrow> False) in
      case settled of
        Cached v l \<Rightarrow>
          if \<not> newer then Some \<lparr>en_value = v, en_fresh_until = fresh_until l, en_stale_until = stale_until l,
                              en_generation = generation\<rparr>
          else entry
      | Uncached \<Rightarrow> if \<not> newer then None else entry
      | Failed \<Rightarrow> (case entry of Some e \<Rightarrow> if en_stale_until e \<le> now then None else Some e | None \<Rightarrow> None))"

definition settle :: "'v table \<Rightarrow> str \<Rightarrow> nat \<Rightarrow> 'v settled \<Rightarrow> instant \<Rightarrow> 'v table" where
  "settle t key generation settled now =
     (case slots t key of
        None \<Rightarrow> t
      | Some s \<Rightarrow>
          let flight = (case sl_flight s of
                Some f \<Rightarrow> if fl_generation f = generation then None else Some f | None \<Rightarrow> None);
              entry = settle_entry (sl_entry s) generation settled now
          in if entry = None \<and> flight = None then t\<lparr>slots := (slots t)(key := None)\<rparr>
             else t\<lparr>slots := (slots t)(key \<mapsto> \<lparr>sl_entry = entry, sl_flight = flight\<rparr>)\<rparr>)"

text \<open>What \<open>run\<close> settles and sends for the result of the download.\<close>

definition settled_of :: "'p fetch_error + 'v fetched \<Rightarrow> 'v settled" where
  "settled_of r =
     (case r of
        Inr f \<Rightarrow> (case fd_lifetime f of Some l \<Rightarrow> Cached (fd_extracted f) l | None \<Rightarrow> Uncached)
      | Inl _ \<Rightarrow> Failed)"

definition outcome_of :: "'p fetch_error + 'v fetched \<Rightarrow> ('p, 'v) outcome" where
  "outcome_of r = (case r of Inr f \<Rightarrow> Inr (fd_extracted f) | Inl e \<Rightarrow> Inl e)"

text \<open>A channel: the sender lives, has sent, or was dropped without sending.\<close>

datatype ('p, 'v) chan = Pending | Sent "('p, 'v) outcome" | Closed

definition wait :: "('p, 'v) chan \<Rightarrow> ('p, 'v) outcome option" where
  "wait c =
     (case c of Pending \<Rightarrow> None | Sent r \<Rightarrow> Some r | Closed \<Rightarrow> Some (Inl (bad_gateway (M_Text ABORTED))))"

subsection \<open>Callers and downloads\<close>

text \<open>
  A download fetches, then has settled and holds its outcome, or was dropped at its await and
  has settled as failed (\<open>Abandon\<close>). A caller has read the clock, has planned a claim, waits,
  or has returned.
\<close>

datatype ('p, 'v) phase = Fetching | Sending "('p, 'v) outcome" | Dropping

record ('p, 'v) task =
  tk_key :: str
  tk_domain :: str
  tk_generation :: nat
  tk_phase :: "('p, 'v) phase"

datatype ('p, 'v) caller =
    Started str instant
  | Claiming str instant
  | Waiting str nat
  | Returned str "('p, 'v) outcome"

record ('p, 'v) sys =
  tbl :: "'v table"
  chans :: "nat \<Rightarrow> ('p, 'v) chan"
  chan_count :: nat
  tasks :: "nat \<Rightarrow> ('p, 'v) task option"
  callers :: "nat \<Rightarrow> ('p, 'v) caller option"
  clock :: instant

definition init_sys :: "('p, 'v) sys" where
  "init_sys = \<lparr>tbl = new_table, chans = (\<lambda>_. Pending), chan_count = 0, tasks = (\<lambda>_. None),
     callers = (\<lambda>_. None), clock = 0\<rparr>"

text \<open>The read section of \<open>resolve\<close>, and the claim section with the launch.\<close>

definition resolve_read :: "('p, 'v) sys \<Rightarrow> nat \<Rightarrow> str \<Rightarrow> instant \<Rightarrow> ('p, 'v) sys" where
  "resolve_read s i domain now =
     (let planned = (case slots (tbl s) (lower domain) of Some sl \<Rightarrow> plan sl now | None \<Rightarrow> PlanFetch) in
      s\<lparr>callers := (callers s)(i \<mapsto> (case planned of
          PlanServe v \<Rightarrow> Returned domain (Inr v)
        | PlanJoin rx \<Rightarrow> Waiting domain rx
        | _ \<Rightarrow> Claiming domain now))\<rparr>)"

definition launch :: "('p, 'v) sys \<Rightarrow> str \<Rightarrow> nat \<Rightarrow> nat \<Rightarrow> ('p, 'v) sys" where
  "launch s domain generation tx =
     s\<lparr>chan_count := chan_count s + 1, chans := (chans s)(tx := Pending),
       tasks := (tasks s)(tx \<mapsto> \<lparr>tk_key = lower domain, tk_domain = domain, tk_generation = generation,
         tk_phase = Fetching\<rparr>)\<rparr>"

definition resolve_claim :: "('p, 'v) sys \<Rightarrow> nat \<Rightarrow> str \<Rightarrow> instant \<Rightarrow> ('p, 'v) sys" where
  "resolve_claim s i domain now =
     (let c = claim (chan_count s) (tbl s) (lower domain) now; s' = s\<lparr>tbl := snd c\<rparr> in
      case fst c of
        ClaimServe v \<Rightarrow> s'\<lparr>callers := (callers s)(i \<mapsto> Returned domain (Inr v))\<rparr>
      | ClaimJoin rx \<Rightarrow> s'\<lparr>callers := (callers s)(i \<mapsto> Waiting domain rx)\<rparr>
      | ClaimRefresh v generation tx \<Rightarrow>
          (launch s' domain generation tx)\<lparr>callers := (callers s)(i \<mapsto> Returned domain (Inr v))\<rparr>
      | ClaimFetch rx generation tx \<Rightarrow>
          (launch s' domain generation tx)\<lparr>callers := (callers s)(i \<mapsto> Waiting domain rx)\<rparr>)"

text \<open>The rest of \<open>run\<close> after the download, up to the send; and the drop at the await.\<close>

definition run_settle :: "('p, 'v) sys \<Rightarrow> nat \<Rightarrow> ('p, 'v) task \<Rightarrow> 'p fetch_error + 'v fetched \<Rightarrow> ('p, 'v) sys" where
  "run_settle s c t r =
     s\<lparr>tbl := settle (tbl s) (tk_key t) (tk_generation t) (settled_of r) (clock s),
       tasks := (tasks s)(c \<mapsto> t\<lparr>tk_phase := Sending (outcome_of r)\<rparr>)\<rparr>"

definition run_abandon :: "('p, 'v) sys \<Rightarrow> nat \<Rightarrow> ('p, 'v) task \<Rightarrow> ('p, 'v) sys" where
  "run_abandon s c t =
     s\<lparr>tbl := settle (tbl s) (tk_key t) (tk_generation t) Failed (clock s),
       tasks := (tasks s)(c \<mapsto> t\<lparr>tk_phase := Dropping\<rparr>)\<rparr>"

inductive cstep ::
  "(str \<Rightarrow> 'p fetch_error + 'v fetched \<Rightarrow> bool) \<Rightarrow> ('p, 'v) sys \<Rightarrow> ('p, 'v) sys \<Rightarrow> bool"
  for answers where
  tick: "clock s \<le> now \<Longrightarrow> cstep answers s (s\<lparr>clock := now\<rparr>)"
| start: "callers s i = None \<Longrightarrow> cstep answers s (s\<lparr>callers := (callers s)(i \<mapsto> Started domain (clock s))\<rparr>)"
| reads: "callers s i = Some (Started domain now) \<Longrightarrow> cstep answers s (resolve_read s i domain now)"
| claims: "callers s i = Some (Claiming domain now) \<Longrightarrow> cstep answers s (resolve_claim s i domain now)"
| wakes: "callers s i = Some (Waiting domain c) \<Longrightarrow> wait (chans s c) = Some r
    \<Longrightarrow> cstep answers s (s\<lparr>callers := (callers s)(i \<mapsto> Returned domain r)\<rparr>)"
| cancels: "cstep answers s (s\<lparr>callers := (callers s)(i := None)\<rparr>)"
| finishes: "tasks s c = Some t \<Longrightarrow> tk_phase t = Fetching \<Longrightarrow> answers (tk_domain t) r
    \<Longrightarrow> cstep answers s (run_settle s c t r)"
| sends: "tasks s c = Some t \<Longrightarrow> tk_phase t = Sending r
    \<Longrightarrow> cstep answers s (s\<lparr>chans := (chans s)(c := Sent r), tasks := (tasks s)(c := None)\<rparr>)"
| aborts: "tasks s c = Some t \<Longrightarrow> tk_phase t = Fetching \<Longrightarrow> cstep answers s (run_abandon s c t)"
| closes: "tasks s c = Some t \<Longrightarrow> tk_phase t = Dropping
    \<Longrightarrow> cstep answers s (s\<lparr>chans := (chans s)(c := Closed), tasks := (tasks s)(c := None)\<rparr>)"

inductive reachable ::
  "(str \<Rightarrow> 'p fetch_error + 'v fetched \<Rightarrow> bool) \<Rightarrow> ('p, 'v) sys \<Rightarrow> bool"
  for answers where
  init: "reachable answers init_sys"
| further: "reachable answers s \<Longrightarrow> cstep answers s s' \<Longrightarrow> reachable answers s'"

subsection \<open>The invariant\<close>

text \<open>What a value, an entry or an outcome for a key may be: the result of a download for that key.\<close>

definition supplied :: "(str \<Rightarrow> 'p fetch_error + 'v fetched \<Rightarrow> bool) \<Rightarrow> str \<Rightarrow> 'v \<Rightarrow> bool" where
  "supplied answers k v \<longleftrightarrow> (\<exists>d f. lower d = k \<and> answers d (Inr f) \<and> fd_extracted f = v)"

definition entry_from :: "(str \<Rightarrow> 'p fetch_error + 'v fetched \<Rightarrow> bool) \<Rightarrow> str \<Rightarrow> 'v entry \<Rightarrow> bool" where
  "entry_from answers k e \<longleftrightarrow>
     (\<exists>d f. lower d = k \<and> answers d (Inr f) \<and> fd_extracted f = en_value e
        \<and> fd_lifetime f = Some \<lparr>fresh_until = en_fresh_until e, stale_until = en_stale_until e\<rparr>)"

definition outcome_from :: "(str \<Rightarrow> 'p fetch_error + 'v fetched \<Rightarrow> bool) \<Rightarrow> str \<Rightarrow> ('p, 'v) outcome \<Rightarrow> bool" where
  "outcome_from answers k r \<longleftrightarrow>
     (case r of Inr v \<Rightarrow> supplied answers k v
      | Inl e \<Rightarrow> e = bad_gateway (M_Text ABORTED) \<or> (\<exists>d. lower d = k \<and> answers d (Inl e)))"

definition slot_ok :: "(str \<Rightarrow> 'p fetch_error + 'v fetched \<Rightarrow> bool) \<Rightarrow> ('p, 'v) sys \<Rightarrow> str \<Rightarrow> 'v cache_slot \<Rightarrow> bool" where
  "slot_ok answers s k sl \<longleftrightarrow>
     (sl_entry sl \<noteq> None \<or> sl_flight sl \<noteq> None)
     \<and> (\<forall>e. sl_entry sl = Some e \<longrightarrow> en_generation e < chan_count s \<and> entry_from answers k e)
     \<and> (\<forall>f. sl_flight sl = Some f \<longrightarrow> fl_generation f = fl_rx f
         \<and> (\<exists>t. tasks s (fl_rx f) = Some t \<and> tk_phase t = Fetching \<and> tk_key t = k)
         \<and> (\<forall>e. sl_entry sl = Some e \<longrightarrow> en_generation e < fl_generation f))"

definition task_ok ::
  "(str \<Rightarrow> 'p fetch_error + 'v fetched \<Rightarrow> bool) \<Rightarrow> (nat \<Rightarrow> str) \<Rightarrow> ('p, 'v) sys \<Rightarrow> nat \<Rightarrow> ('p, 'v) task \<Rightarrow> bool"
where
  "task_ok answers ck s c t \<longleftrightarrow>
     c < chan_count s \<and> tk_generation t = c \<and> tk_key t = lower (tk_domain t) \<and> ck c = tk_key t \<and> chans s c = Pending
     \<and> (tk_phase t = Fetching \<longrightarrow>
         (\<exists>sl f. slots (tbl s) (tk_key t) = Some sl \<and> sl_flight sl = Some f \<and> fl_rx f = c))
     \<and> (\<forall>r. tk_phase t = Sending r \<longrightarrow> outcome_from answers (tk_key t) r)"

definition chan_ok ::
  "(str \<Rightarrow> 'p fetch_error + 'v fetched \<Rightarrow> bool) \<Rightarrow> (nat \<Rightarrow> str) \<Rightarrow> ('p, 'v) sys \<Rightarrow> nat \<Rightarrow> bool" where
  "chan_ok answers ck s c \<longleftrightarrow>
     (chans s c = Pending \<longrightarrow> tasks s c \<noteq> None) \<and> (\<forall>r. chans s c = Sent r \<longrightarrow> outcome_from answers (ck c) r)"

fun caller_ok ::
  "(str \<Rightarrow> 'p fetch_error + 'v fetched \<Rightarrow> bool) \<Rightarrow> (nat \<Rightarrow> str) \<Rightarrow> ('p, 'v) sys \<Rightarrow> ('p, 'v) caller \<Rightarrow> bool" where
  "caller_ok answers ck s (Waiting d c) \<longleftrightarrow> c < chan_count s \<and> ck c = lower d"
| "caller_ok answers ck s (Returned d r) \<longleftrightarrow> outcome_from answers (lower d) r"
| "caller_ok answers ck s _ \<longleftrightarrow> True"

definition cinv :: "(str \<Rightarrow> 'p fetch_error + 'v fetched \<Rightarrow> bool) \<Rightarrow> (nat \<Rightarrow> str) \<Rightarrow> ('p, 'v) sys \<Rightarrow> bool" where
  "cinv answers ck s \<longleftrightarrow>
     next_generation (tbl s) = chan_count s
     \<and> (\<forall>k sl. slots (tbl s) k = Some sl \<longrightarrow> slot_ok answers s k sl)
     \<and> (\<forall>c t. tasks s c = Some t \<longrightarrow> task_ok answers ck s c t)
     \<and> (\<forall>c < chan_count s. chan_ok answers ck s c)
     \<and> (\<forall>i x. callers s i = Some x \<longrightarrow> caller_ok answers ck s x)"

lemma cinvD:
  assumes "cinv answers ck s"
  shows "next_generation (tbl s) = chan_count s"
    and "slots (tbl s) k = Some sl \<Longrightarrow> slot_ok answers s k sl"
    and "tasks s c = Some t \<Longrightarrow> task_ok answers ck s c t"
    and "c < chan_count s \<Longrightarrow> chan_ok answers ck s c"
    and "callers s i = Some x \<Longrightarrow> caller_ok answers ck s x"
  using assms by (auto simp: cinv_def)

lemma cinv_init: "cinv answers ck init_sys"
  by (simp add: cinv_def init_sys_def new_table_def)

text \<open>The callers and the clock do not matter to slots, tasks and channels.\<close>

lemma frame_ok [simp]:
  "slot_ok answers (s\<lparr>callers := cs\<rparr>) k sl = slot_ok answers s k sl"
  "slot_ok answers (s\<lparr>clock := now\<rparr>) k sl = slot_ok answers s k sl"
  "task_ok answers ck (s\<lparr>callers := cs\<rparr>) c t = task_ok answers ck s c t"
  "task_ok answers ck (s\<lparr>clock := now\<rparr>) c t = task_ok answers ck s c t"
  "chan_ok answers ck (s\<lparr>callers := cs\<rparr>) c = chan_ok answers ck s c"
  "chan_ok answers ck (s\<lparr>clock := now\<rparr>) c = chan_ok answers ck s c"
  by (simp_all add: slot_ok_def task_ok_def chan_ok_def)

lemma caller_frame:
  "chan_count s' = chan_count s \<Longrightarrow> caller_ok answers ck s' x = caller_ok answers ck s x"
  by (cases x) auto

text \<open>A step that only replaces a caller keeps the invariant when the new caller is all right.\<close>

lemma cinv_callers:
  "cinv answers ck s \<Longrightarrow> (\<And>x. new = Some x \<Longrightarrow> caller_ok answers ck s x)
    \<Longrightarrow> cinv answers ck (s\<lparr>callers := (callers s)(i := new)\<rparr>)"
  by (simp add: cinv_def caller_frame[of "s\<lparr>callers := cs\<rparr>" s for cs])

lemma cinv_clock: "cinv answers ck s \<Longrightarrow> cinv answers ck (s\<lparr>clock := now\<rparr>)"
  by (simp add: cinv_def caller_frame[of "s\<lparr>clock := now\<rparr>" s])

text \<open>What a plan says about the slot.\<close>

lemma plan_entry:
  "plan sl now = PlanServe v \<or> plan sl now = PlanRefresh v \<Longrightarrow>
    \<exists>e. sl_entry sl = Some e \<and> en_value e = v \<and> (now < en_fresh_until e \<or> now < en_stale_until e)"
  by (auto simp: plan_def plan_flight_def split: option.splits if_splits)

lemma plan_join: "plan sl now = PlanJoin rx \<Longrightarrow> \<exists>f. sl_flight sl = Some f \<and> fl_rx f = rx"
  by (auto simp: plan_def plan_flight_def split: option.splits if_splits)

lemma plan_opens: "plan sl now = PlanRefresh v \<or> plan sl now = PlanFetch \<Longrightarrow> sl_flight sl = None"
  by (auto simp: plan_def plan_flight_def split: option.splits if_splits)

lemma entry_supplied: "entry_from answers k e \<Longrightarrow> outcome_from answers k (Inr (en_value e))"
  by (auto simp: entry_from_def outcome_from_def supplied_def)

lemma slot_serves:
  "slot_ok answers s k sl \<Longrightarrow> plan sl now = PlanServe v \<or> plan sl now = PlanRefresh v
    \<Longrightarrow> outcome_from answers k (Inr v)"
  using plan_entry[of sl now v] entry_supplied by (fastforce simp: slot_ok_def)

lemma slot_joins:
  "cinv answers ck s \<Longrightarrow> slots (tbl s) k = Some sl \<Longrightarrow> plan sl now = PlanJoin rx
    \<Longrightarrow> rx < chan_count s \<and> ck rx = k"
  using plan_join[of sl now rx] cinvD(2,3)[of answers ck s] by (fastforce simp: slot_ok_def task_ok_def)

lemma cinv_read:
  assumes "cinv answers ck s"
  shows "cinv answers ck (resolve_read s i domain now)"
proof (cases "slots (tbl s) (lower domain)")
  case None
  then show ?thesis unfolding resolve_read_def Let_def by (intro cinv_callers assms) auto
next
  case (Some sl)
  have "slot_ok answers s (lower domain) sl" using cinvD(2)[OF assms Some] .
  then show ?thesis
    using slot_serves[of answers s "lower domain" sl now] slot_joins[OF assms Some, of now] Some
    unfolding resolve_read_def Let_def by (intro cinv_callers assms) (auto split: planned.splits)
qed

subsection \<open>Settling keeps the invariant\<close>

text \<open>
  A download that settles finds its own slot, with its own flight, and an entry that is
  older: the guard \<open>newer\<close> is never true.
\<close>

lemma own_slot:
  assumes "cinv answers ck s" "tasks s c = Some t" "tk_phase t = Fetching"
  obtains sl f where "slots (tbl s) (tk_key t) = Some sl" "sl_flight sl = Some f" "fl_rx f = c"
    "fl_generation f = tk_generation t" "tk_generation t = c"
    "\<And>e. sl_entry sl = Some e \<Longrightarrow> en_generation e < tk_generation t \<and> entry_from answers (tk_key t) e"
proof -
  have t: "task_ok answers ck s c t" using cinvD(3)[OF assms(1,2)] .
  then obtain sl f where *: "slots (tbl s) (tk_key t) = Some sl" "sl_flight sl = Some f" "fl_rx f = c"
    using assms(3) by (auto simp: task_ok_def)
  have "slot_ok answers s (tk_key t) sl" using cinvD(2)[OF assms(1) *(1)] .
  then show thesis using * t by (intro that[of sl f]) (auto simp: slot_ok_def task_ok_def)
qed

lemma settle_own:
  assumes "slots tb k = Some sl" "sl_flight sl = Some f" "fl_generation f = g"
  shows "settle tb k g st now =
    tb\<lparr>slots := (slots tb)(k := (case settle_entry (sl_entry sl) g st now of
        None \<Rightarrow> None | Some e \<Rightarrow> Some \<lparr>sl_entry = Some e, sl_flight = None\<rparr>))\<rparr>"
  using assms by (simp add: settle_def Let_def split: option.splits)

lemma settle_entry_older:
  assumes "\<And>e. entry = Some e \<Longrightarrow> en_generation e < g"
  shows "settle_entry entry g st now =
    (case st of
       Cached v l \<Rightarrow> Some \<lparr>en_value = v, en_fresh_until = fresh_until l, en_stale_until = stale_until l, en_generation = g\<rparr>
     | Uncached \<Rightarrow> None
     | Failed \<Rightarrow> (case entry of Some e \<Rightarrow> if en_stale_until e \<le> now then None else Some e | None \<Rightarrow> None))"
  using assms by (fastforce simp: settle_entry_def Let_def split: settled.splits option.splits)

lemma settled_of_entry:
  assumes "answers d r" "lower d = k" "entry = settle_entry entry0 g (settled_of r) now"
    and "\<And>e. entry0 = Some e \<Longrightarrow> en_generation e < g \<and> entry_from answers k e" "entry = Some e"
  shows "en_generation e \<le> g \<and> entry_from answers k e"
proof -
  have e: "settle_entry entry0 g (settled_of r) now = Some e" using assms(3,5) by simp
  have g: "\<And>e. entry0 = Some e \<Longrightarrow> en_generation e < g" using assms(4) by blast
  show ?thesis
  proof (cases "settled_of r")
    case (Cached v l)
    then obtain f where f: "r = Inr f" "fd_lifetime f = Some l" "fd_extracted f = v"
      by (auto simp: settled_of_def split: sum.splits option.splits)
    then show ?thesis using e Cached assms(1,2)
      by (auto simp: settle_entry_older[OF g] entry_from_def intro!: exI[of _ d] exI[of _ f])
  next
    case Uncached
    then show ?thesis using e by (simp add: settle_entry_older[OF g])
  next
    case Failed
    then show ?thesis using e assms(4) by (fastforce simp: settle_entry_older[OF g] split: option.splits if_splits)
  qed
qed

text \<open>The common part of \<open>run_settle\<close> and \<open>run_abandon\<close>: the flight ends, the task leaves \<open>Fetching\<close>.\<close>

lemma cinv_end_flight:
  assumes inv: "cinv answers ck s" and t: "tasks s c = Some t" "tk_phase t = Fetching"
    and entry: "\<And>e. settle_entry (sl_entry (the (slots (tbl s) (tk_key t)))) (tk_generation t) st (clock s) = Some e
        \<Longrightarrow> en_generation e \<le> tk_generation t \<and> entry_from answers (tk_key t) e"
    and ph: "ph \<noteq> Fetching" "\<And>r. ph = Sending r \<Longrightarrow> outcome_from answers (tk_key t) r"
  shows "cinv answers ck (s\<lparr>tbl := settle (tbl s) (tk_key t) (tk_generation t) st (clock s),
       tasks := (tasks s)(c \<mapsto> t\<lparr>tk_phase := ph\<rparr>)\<rparr>)" (is "cinv answers ck ?s")
proof -
  obtain sl f where sl: "slots (tbl s) (tk_key t) = Some sl" "sl_flight sl = Some f" "fl_rx f = c"
      "fl_generation f = tk_generation t" "tk_generation t = c"
    using own_slot[OF inv t] by metis
  define en where "en = settle_entry (sl_entry sl) (tk_generation t) st (clock s)"
  have tbl: "tbl ?s = (tbl s)\<lparr>slots := (slots (tbl s))(tk_key t := (case en of
        None \<Rightarrow> None | Some e \<Rightarrow> Some \<lparr>sl_entry = Some e, sl_flight = None\<rparr>))\<rparr>"
    using settle_own[OF sl(1,2,4)] by (simp add: en_def)
  have en: "en = Some e \<Longrightarrow> en_generation e \<le> c \<and> entry_from answers (tk_key t) e" for e
    using entry[of e] sl by (simp add: en_def)
  have tk: "task_ok answers ck s c t" using cinvD(3)[OF inv t(1)] .
  have slots': "slot_ok answers ?s k sl'" if "slots (tbl ?s) k = Some sl'" for k sl'
  proof (cases "k = tk_key t")
    case True
    then show ?thesis using that en tk by (auto simp: tbl slot_ok_def task_ok_def split: option.splits)
  next
    case False
    then have "slots (tbl s) k = Some sl'" using that by (simp add: tbl)
    from cinvD(2)[OF inv this] show ?thesis using t(1) False by (auto simp: slot_ok_def)
  qed
  have tasks': "task_ok answers ck ?s c' t'" if "tasks ?s c' = Some t'" for c' t'
  proof (cases "c' = c")
    case True
    then show ?thesis using that tk ph by (auto simp: task_ok_def)
  next
    case False
    then have t': "tasks s c' = Some t'" using that by simp
    have "tk_key t' \<noteq> tk_key t" if "tk_phase t' = Fetching"
      using own_slot[OF inv t' that] sl False by (metis option.inject)
    then show ?thesis using cinvD(3)[OF inv t'] by (auto simp: task_ok_def tbl)
  qed
  have "chan_ok answers ck ?s c'" if "c' < chan_count s" for c'
    using cinvD(4)[OF inv that] by (auto simp: chan_ok_def)
  moreover have "caller_ok answers ck ?s x" if "callers s i = Some x" for i x
    using cinvD(5)[OF inv that] by (simp add: caller_frame[of ?s s])
  moreover have "next_generation (tbl ?s) = chan_count ?s"
    unfolding tbl using cinvD(1)[OF inv] by simp
  ultimately show ?thesis using slots' tasks' by (simp add: cinv_def)
qed

lemma cinv_settle:
  assumes inv: "cinv answers ck s" and t: "tasks s c = Some t" "tk_phase t = Fetching" and r: "answers (tk_domain t) r"
  shows "cinv answers ck (run_settle s c t r)"
proof -
  obtain sl where sl: "slots (tbl s) (tk_key t) = Some sl"
      "\<And>e. sl_entry sl = Some e \<Longrightarrow> en_generation e < tk_generation t \<and> entry_from answers (tk_key t) e"
    using own_slot[OF inv t] by metis
  have k: "lower (tk_domain t) = tk_key t" using cinvD(3)[OF inv t(1)] by (simp add: task_ok_def)
  have "outcome_from answers (tk_key t) (outcome_of r)"
    using r k by (auto simp: outcome_of_def outcome_from_def supplied_def split: sum.split)
  then show ?thesis
    unfolding run_settle_def
    using settled_of_entry[OF r k refl sl(2), of "sl_entry sl"] sl
    by (intro cinv_end_flight[OF inv t]) auto
qed

lemma cinv_abandon:
  assumes inv: "cinv answers ck s" and t: "tasks s c = Some t" "tk_phase t = Fetching"
  shows "cinv answers ck (run_abandon s c t)"
proof -
  obtain sl where sl: "slots (tbl s) (tk_key t) = Some sl"
      "\<And>e. sl_entry sl = Some e \<Longrightarrow> en_generation e < tk_generation t \<and> entry_from answers (tk_key t) e"
    using own_slot[OF inv t] by metis
  show ?thesis
    unfolding run_abandon_def using sl
    by (intro cinv_end_flight[OF inv t])
      (fastforce simp: settle_entry_def split: option.splits if_splits)+
qed

lemma cinv_leave:
  assumes inv: "cinv answers ck s" and t: "tasks s c = Some t" "tk_phase t \<noteq> Fetching"
    and new: "new \<noteq> Pending" "\<And>r. new = Sent r \<Longrightarrow> outcome_from answers (tk_key t) r"
  shows "cinv answers ck (s\<lparr>chans := (chans s)(c := new), tasks := (tasks s)(c := None)\<rparr>)" (is "cinv answers ck ?s")
proof -
  have tk: "task_ok answers ck s c t" using cinvD(3)[OF inv t(1)] .
  have "slot_ok answers ?s k sl" if "slots (tbl s) k = Some sl" for k sl
    using cinvD(2)[OF inv that] t by (auto simp: slot_ok_def)
  moreover have "task_ok answers ck ?s c' t'" if "tasks ?s c' = Some t'" for c' t'
    using that cinvD(3)[OF inv, of c' t'] by (auto simp: task_ok_def split: if_splits)
  moreover have "chan_ok answers ck ?s c'" if "c' < chan_count s" for c'
    using cinvD(4)[OF inv that] new tk by (auto simp: chan_ok_def task_ok_def)
  moreover have "caller_ok answers ck ?s x" if "callers s i = Some x" for i x
    using cinvD(5)[OF inv that] by (simp add: caller_frame[of ?s s])
  ultimately show ?thesis using cinvD(1)[OF inv] by (simp add: cinv_def)
qed

subsection \<open>Claiming keeps the invariant\<close>

text \<open>A download opens: a new channel, a new generation, a new task.\<close>

lemma cinv_opens:
  assumes inv: "cinv answers ck s" and room: "chan_count s + 1 < 2 ^ 64"
    and sl: "slots (tbl s) (lower domain) = Some sl \<or> slots (tbl s) (lower domain) = None \<and> sl_entry sl = None"
    and idle: "sl_flight sl = None"
    and opened: "opened = open_flight (chan_count s) sl (next_generation (tbl s))"
  shows "cinv answers (ck(chan_count s := lower domain))
    (launch (s\<lparr>tbl := (tbl s)\<lparr>slots := (slots (tbl s))(lower domain \<mapsto> fst opened), next_generation := snd opened\<rparr>\<rparr>)
       domain (next_generation (tbl s)) (chan_count s))" (is "cinv answers ?ck ?s")
proof -
  define n where "n = chan_count s"
  have gen: "next_generation (tbl s) = n" using cinvD(1)[OF inv] by (simp add: n_def)
  have o: "opened = (sl\<lparr>sl_flight := Some \<lparr>fl_generation = n, fl_rx = n\<rparr>\<rparr>, n + 1)"
    using room by (simp add: opened open_flight_def gen n_def)
  have entry: "\<And>e. sl_entry sl = Some e \<Longrightarrow> en_generation e < n \<and> entry_from answers (lower domain) e"
    using sl cinvD(2)[OF inv] by (auto simp: slot_ok_def n_def)
  have old: "c < n" if "tasks s c = Some t" for c t
    using cinvD(3)[OF inv that] by (simp add: task_ok_def n_def)
  have slots': "slot_ok answers ?s k sl'" if "slots (tbl ?s) k = Some sl'" for k sl'
  proof (cases "k = lower domain")
    case True
    then show ?thesis using that entry by (auto simp: slot_ok_def launch_def o gen n_def less_Suc_eq)
  next
    case False
    then have k: "slots (tbl s) k = Some sl'" using that by (simp add: launch_def)
    show ?thesis using cinvD(2)[OF inv k] old
      by (fastforce simp: slot_ok_def launch_def n_def less_Suc_eq)
  qed
  have tasks': "task_ok answers ?ck ?s c t" if "tasks ?s c = Some t" for c t
  proof (cases "c = n")
    case True
    then show ?thesis using that by (auto simp: task_ok_def launch_def o gen n_def)
  next
    case False
    then have t: "tasks s c = Some t" using that by (simp add: launch_def n_def)
    have "tk_key t \<noteq> lower domain" if "tk_phase t = Fetching"
      using own_slot[OF inv t that] sl idle by (metis option.inject option.distinct(1))
    then show ?thesis using cinvD(3)[OF inv t] old[OF t] False by (auto simp: task_ok_def launch_def n_def)
  qed
  have "chan_ok answers ?ck ?s c" if "c < chan_count ?s" for c
    using that cinvD(4)[OF inv, of c] by (auto simp: chan_ok_def launch_def less_Suc_eq)
  moreover have "caller_ok answers ?ck ?s x" if "callers s i = Some x" for i x
    using cinvD(5)[OF inv that] by (cases x) (auto simp: launch_def)
  moreover have "next_generation (tbl ?s) = chan_count ?s" by (simp add: launch_def o n_def)
  ultimately show ?thesis using slots' tasks' by (simp add: cinv_def launch_def)
qed

definition claim_slot :: "'v table \<Rightarrow> str \<Rightarrow> 'v cache_slot" where
  "claim_slot t key = (case slots t key of Some s \<Rightarrow> s | None \<Rightarrow> \<lparr>sl_entry = None, sl_flight = None\<rparr>)"

lemma claim_slot_cases:
  "slots t key = Some (claim_slot t key) \<or> slots t key = None \<and> sl_entry (claim_slot t key) = None"
  by (auto simp: claim_slot_def split: option.split)

text \<open>A slot that does not open a download was there before, so nothing is written.\<close>

lemma claim_slot_kept:
  "plan (claim_slot t key) now \<noteq> PlanFetch \<Longrightarrow> slots t key = Some (claim_slot t key)"
  by (auto simp: claim_slot_def plan_def plan_flight_def split: option.splits)

lemma claim_cases:
  obtains
    (serves) v where "claim ch t key now = (ClaimServe v, t)" "plan (claim_slot t key) now = PlanServe v"
  | (joins) rx where "claim ch t key now = (ClaimJoin rx, t)" "plan (claim_slot t key) now = PlanJoin rx"
  | (refreshes) v opened where "opened = open_flight ch (claim_slot t key) (next_generation t)"
      "claim ch t key now = (ClaimRefresh v (next_generation t) ch,
         t\<lparr>slots := (slots t)(key \<mapsto> fst opened), next_generation := snd opened\<rparr>)"
      "plan (claim_slot t key) now = PlanRefresh v"
  | (fetches) opened where "opened = open_flight ch (claim_slot t key) (next_generation t)"
      "claim ch t key now = (ClaimFetch ch (next_generation t) ch,
         t\<lparr>slots := (slots t)(key \<mapsto> fst opened), next_generation := snd opened\<rparr>)"
      "plan (claim_slot t key) now = PlanFetch"
proof (cases "plan (claim_slot t key) now")
  case (PlanServe v)
  then have "(slots t)(key \<mapsto> claim_slot t key) = slots t" using claim_slot_kept[of t key now] by auto
  then show ?thesis using PlanServe
    by (intro serves) (simp_all add: claim_def claim_slot_def[symmetric] Let_def)
next
  case (PlanJoin rx)
  then have "(slots t)(key \<mapsto> claim_slot t key) = slots t" using claim_slot_kept[of t key now] by auto
  then show ?thesis using PlanJoin
    by (intro joins) (simp_all add: claim_def claim_slot_def[symmetric] Let_def)
next
  case (PlanRefresh v)
  then show ?thesis by (intro refreshes[OF refl]) (simp_all add: claim_def claim_slot_def[symmetric] Let_def)
next
  case PlanFetch
  then show ?thesis by (intro fetches[OF refl]) (simp_all add: claim_def claim_slot_def[symmetric] Let_def)
qed

lemma cinv_claim:
  assumes inv: "cinv answers ck s" and room: "chan_count (resolve_claim s i domain now) < 2 ^ 64"
  shows "\<exists>ck'. cinv answers ck' (resolve_claim s i domain now)"
proof (cases rule: claim_cases[of "chan_count s" "tbl s" "lower domain" now])
  case (serves v)
  have "slot_ok answers s (lower domain) (claim_slot (tbl s) (lower domain))"
    using serves claim_slot_kept[of "tbl s" "lower domain" now] by (intro cinvD(2)[OF inv]) auto
  then show ?thesis using serves slot_serves[of answers s "lower domain" _ now v]
    by (intro exI[of _ ck]) (auto simp: resolve_claim_def Let_def intro!: cinv_callers[OF inv])
next
  case (joins rx)
  then have "rx < chan_count s \<and> ck rx = lower domain"
    using claim_slot_kept[of "tbl s" "lower domain" now] by (intro slot_joins[OF inv]) auto
  then show ?thesis using joins
    by (intro exI[of _ ck]) (auto simp: resolve_claim_def Let_def intro!: cinv_callers[OF inv])
next
  case (refreshes v opened)
  have sl: "slots (tbl s) (lower domain) = Some (claim_slot (tbl s) (lower domain))"
    using refreshes(3) claim_slot_kept[of "tbl s" "lower domain" now] by simp
  have served: "outcome_from answers (lower domain) (Inr v)"
    using slot_serves[OF cinvD(2)[OF inv sl], of now v] refreshes(3) by simp
  have count: "chan_count s + 1 < 2 ^ 64"
    using room refreshes(2) by (simp add: resolve_claim_def Let_def launch_def)
  have idle: "sl_flight (claim_slot (tbl s) (lower domain)) = None"
    using plan_opens[of "claim_slot (tbl s) (lower domain)" now v] refreshes(3) by simp
  note opens = cinv_opens[OF inv count disjI1[OF sl] idle refreshes(1)]
  show ?thesis
    unfolding resolve_claim_def Let_def refreshes(2) fst_conv snd_conv claimed.case
    using cinv_callers[OF opens, of "Some (Returned domain (Inr v))" i] served
    by (intro exI) (auto simp: launch_def)
next
  case (fetches opened)
  have count: "chan_count s + 1 < 2 ^ 64"
    using room fetches(2) by (simp add: resolve_claim_def Let_def launch_def)
  have idle: "sl_flight (claim_slot (tbl s) (lower domain)) = None"
    using plan_opens[of "claim_slot (tbl s) (lower domain)" now] fetches(3) by simp
  note opens = cinv_opens[OF inv count claim_slot_cases idle fetches(1)]
  show ?thesis
    unfolding resolve_claim_def Let_def fetches(2) fst_conv snd_conv claimed.case
    using cinv_callers[OF opens, of "Some (Waiting domain (chan_count s))" i]
    by (intro exI) (auto simp: launch_def)
qed

subsection \<open>Every reachable state\<close>

lemma chan_count_grows: "cstep answers s s' \<Longrightarrow> chan_count s \<le> chan_count s'"
  by (induction rule: cstep.induct)
    (auto simp: resolve_read_def resolve_claim_def run_settle_def run_abandon_def launch_def Let_def split: claimed.split)

lemma cinv_wakes:
  assumes inv: "cinv answers ck s" and w: "callers s i = Some (Waiting domain c)" "wait (chans s c) = Some r"
  shows "cinv answers ck (s\<lparr>callers := (callers s)(i \<mapsto> Returned domain r)\<rparr>)"
proof -
  have c: "c < chan_count s" "ck c = lower domain" using cinvD(5)[OF inv w(1)] by simp_all
  have "outcome_from answers (lower domain) r"
    using cinvD(4)[OF inv c(1)] w(2) c(2) by (cases "chans s c") (auto simp: wait_def chan_ok_def outcome_from_def)
  then show ?thesis using cinv_callers[OF inv, of "Some (Returned domain r)" i] by force
qed

lemma cinv_step:
  assumes "cstep answers s s'" "cinv answers ck s" "chan_count s' < 2 ^ 64"
  shows "\<exists>ck'. cinv answers ck' s'"
  using assms
proof (cases rule: cstep.cases)
  case (tick now)
  then show ?thesis using cinv_clock assms(2) by blast
next
  case (start i domain)
  then show ?thesis using cinv_callers[OF assms(2), of "Some (Started domain (clock s))" i] by auto
next
  case (reads i domain now)
  then show ?thesis using cinv_read assms(2) by blast
next
  case (claims i domain now)
  then show ?thesis using cinv_claim assms(2,3) by blast
next
  case (wakes i domain c r)
  then show ?thesis using cinv_wakes assms(2) by blast
next
  case (cancels i)
  then show ?thesis using cinv_callers[OF assms(2), of None i] by auto
next
  case (finishes c t r)
  then show ?thesis using cinv_settle assms(2) by blast
next
  case (sends c t r)
  have "task_ok answers ck s c t" using cinvD(3)[OF assms(2) sends(2)] .
  then show ?thesis using cinv_leave[OF assms(2) sends(2), of "Sent r"] sends by (auto simp: task_ok_def)
next
  case (aborts c t)
  then show ?thesis using cinv_abandon assms(2) by blast
next
  case (closes c t)
  then show ?thesis using cinv_leave[OF assms(2) closes(2), of Closed] by auto
qed

lemma reachable_cinv:
  "reachable answers s \<Longrightarrow> chan_count s < 2 ^ 64 \<Longrightarrow> \<exists>ck. cinv answers ck s"
proof (induction rule: reachable.induct)
  case init
  then show ?case using cinv_init by blast
next
  case (further s s')
  have "chan_count s < 2 ^ 64" using chan_count_grows[OF further.hyps(2)] further.prems by simp
  then show ?case using further.IH cinv_step[OF further.hyps(2)] further.prems by blast
qed

text \<open>A waiting caller can be answered by the steps of its own download and its own.\<close>

lemma answered_in_steps:
  assumes inv: "cinv answers ck s" and w: "callers s i = Some (Waiting domain c)"
    and ans: "\<And>d. \<exists>r. answers d r"
  shows "\<exists>s' r. (cstep answers)\<^sup>*\<^sup>* s s' \<and> callers s' i = Some (Returned domain r)"
proof -
  have wake: "\<exists>s' r. (cstep answers)\<^sup>*\<^sup>* u s' \<and> callers s' i = Some (Returned domain r)"
    if "callers u i = Some (Waiting domain c)" "chans u c \<noteq> Pending" for u
  proof -
    note u = that
    obtain r where "wait (chans u c) = Some r" using u(2) by (cases "chans u c") (auto simp: wait_def)
    with u(1) have "cstep answers u (u\<lparr>callers := (callers u)(i \<mapsto> Returned domain r)\<rparr>)"
      by (rule cstep.wakes)
    then show ?thesis by (intro exI[of _ "u\<lparr>callers := (callers u)(i \<mapsto> Returned domain r)\<rparr>"]) auto
  qed
  have send: "\<exists>s' r. (cstep answers)\<^sup>*\<^sup>* u s' \<and> callers s' i = Some (Returned domain r)"
    if "callers u i = Some (Waiting domain c)" "tasks u c = Some t" "tk_phase t \<noteq> Fetching" for u t
  proof -
    define ch where "ch = (case tk_phase t of Sending r \<Rightarrow> Sent r | _ \<Rightarrow> Closed)"
    define u' where "u' = u\<lparr>chans := (chans u)(c := ch), tasks := (tasks u)(c := None)\<rparr>"
    have "cstep answers u u'"
      using that(2,3) unfolding u'_def ch_def by (cases "tk_phase t") (auto intro: cstep.sends cstep.closes)
    moreover have "chans u' c \<noteq> Pending" by (simp add: u'_def ch_def split: phase.split)
    moreover have "callers u' i = Some (Waiting domain c)" using that(1) by (simp add: u'_def)
    ultimately show ?thesis using wake[of u'] by (meson converse_rtranclp_into_rtranclp)
  qed
  show ?thesis
  proof (cases "chans s c = Pending")
    case False
    then show ?thesis using wake[OF w] by blast
  next
    case True
    have "c < chan_count s" using cinvD(5)[OF inv w] by simp
    then obtain t where t: "tasks s c = Some t" using cinvD(4)[OF inv] True by (auto simp: chan_ok_def)
    show ?thesis
    proof (cases "tk_phase t = Fetching")
      case False
      then show ?thesis using send[OF w t] by blast
    next
      case True
      obtain r where r: "answers (tk_domain t) r" using ans by blast
      have "cstep answers s (run_settle s c t r)" using t True r by (rule cstep.finishes)
      moreover have "callers (run_settle s c t r) i = Some (Waiting domain c)" using w by (simp add: run_settle_def)
      moreover have "tasks (run_settle s c t r) c = Some (t\<lparr>tk_phase := Sending (outcome_of r)\<rparr>)"
        by (simp add: run_settle_def)
      ultimately show ?thesis
        using send[of "run_settle s c t r"] by (metis converse_rtranclp_into_rtranclp phase.distinct(1)
            task.select_convs(4) task.surjective task.update_convs(4))
    qed
  qed
qed

subsection \<open>The lifetime of an entry\<close>

text \<open>
  The lemmas of the interface \<open>expiry\<close> carry over to plans: an entry made from a lifetime
  is served while it is fresh, refreshed while it is stale, and fetched again afterwards.
\<close>

context expiry begin

lemma plan_lifetime:
  assumes "life r received = Some l"
    and "e = \<lparr>en_value = v, en_fresh_until = fresh_until l, en_stale_until = stale_until l, en_generation = g\<rparr>"
  shows "plan \<lparr>sl_entry = Some e, sl_flight = None\<rparr> now =
    (if now < fresh_until l then PlanServe v else if now < stale_until l then PlanRefresh v else PlanFetch)"
    and "stale_until l \<le> now \<Longrightarrow> plan \<lparr>sl_entry = Some e, sl_flight = None\<rparr> now = PlanFetch"
    and "now \<le> received \<Longrightarrow> plan \<lparr>sl_entry = Some e, sl_flight = None\<rparr> now \<noteq> PlanFetch"
  using periods[OF assms(1), of now] served_on_arrival[OF assms(1), of now] assms(2)
  by (auto simp: plan_def plan_flight_def)

end

subsection \<open>A sample run\<close>

text \<open>A caller for a host that is not cached: it reads, claims, and waits for a download.\<close>

definition sample_answers :: "str \<Rightarrow> str fetch_error + nat fetched \<Rightarrow> bool" where
  "sample_answers d r \<longleftrightarrow> r = Inr \<lparr>fd_extracted = 7, fd_lifetime = Some \<lparr>fresh_until = 5, stale_until = 9\<rparr>\<rparr>"

definition sample_waiting :: "(str, nat) sys" where
  "sample_waiting = resolve_claim (resolve_read (init_sys\<lparr>callers := (callers init_sys)(0 \<mapsto> Started [97] 0)\<rparr>) 0 [97] 0) 0 [97] 0"

definition sample_task :: "(str, nat) task" where
  "sample_task = \<lparr>tk_key = [97], tk_domain = [97], tk_generation = 0, tk_phase = Fetching\<rparr>"

lemma lower_sample: "lower [97] = [97]"
  by (simp add: lower_def from_utf8.simps(2) utf8_char_def utf8_width_def utf8_value_def lower_byte_def scalar_def Let_def)

lemma sample_waiting_eval:
  "callers sample_waiting 0 = Some (Waiting [97] 0)" "tasks sample_waiting 0 = Some sample_task"
  "chan_count sample_waiting = 1" "slots (tbl sample_waiting) [97] = Some \<lparr>sl_entry = None, sl_flight = Some \<lparr>fl_generation = 0, fl_rx = 0\<rparr>\<rparr>"
  by (simp_all add: sample_waiting_def resolve_claim_def resolve_read_def init_sys_def new_table_def claim_def
      lower_sample plan_def plan_flight_def open_flight_def launch_def Let_def sample_task_def)

lemma sample_waiting_reachable: "reachable sample_answers sample_waiting"
proof -
  define s1 :: "(str, nat) sys" where "s1 = init_sys\<lparr>callers := (callers init_sys)(0 \<mapsto> Started [97] 0)\<rparr>"
  define s2 where "s2 = resolve_read s1 0 [97] 0"
  have "cstep sample_answers init_sys s1"
    using cstep.start[of init_sys 0 sample_answers "[97]"] by (simp add: s1_def init_sys_def)
  moreover have "cstep sample_answers s1 s2"
    unfolding s2_def by (rule cstep.reads) (simp add: s1_def)
  moreover have "cstep sample_answers s2 sample_waiting"
    unfolding sample_waiting_def s2_def s1_def
    by (rule cstep.claims) (simp add: resolve_read_def init_sys_def new_table_def)
  ultimately show ?thesis by (blast intro: reachable.init reachable.further)
qed

subsection \<open>Properties\<close>

text \<open>The key of a host is the host in ASCII lower case, whether or not it fits the
  buffer on the stack; the UTF-8 check there never fails.\<close>

theorem lower_exact:
  assumes "list_all scalar domain"
  shows "lower domain = map lower_char domain"
proof -
  have "list_all scalar (map lower_char domain)" using assms by (auto simp: list_all_iff)
  then show ?thesis using assms
    by (simp add: lower_def to_ascii_lowercase_def lower_as_bytes from_utf8_as_bytes)
qed

lemma lower_exact_witness: "lower [87, 0xE9] = [119, 0xE9]"
  using lower_exact[of "[87, 0xE9]"] by (simp add: scalar_def lower_char_def)



text \<open>C20: A finished download decides its key: it finds its own slot with its own flight and
  only an older entry, so the guard against newer entries never holds; a cacheable result
  becomes the entry, an uncacheable one empties the slot, and a failure keeps an entry
  exactly until it is stale.\<close>

theorem cache_settles_newest:
  assumes "reachable answers s" "chan_count s < 2 ^ 64"
    and "tasks s c = Some t" "tk_phase t = Fetching" "answers (tk_domain t) r"
  shows "\<exists>sl. slots (tbl s) (tk_key t) = Some sl
    \<and> sl_flight sl = Some \<lparr>fl_generation = tk_generation t, fl_rx = c\<rparr>
    \<and> (\<forall>e. sl_entry sl = Some e \<longrightarrow> en_generation e < tk_generation t)
    \<and> slots (tbl (run_settle s c t r)) (tk_key t) =
        (case r of
           Inr f \<Rightarrow> map_option (\<lambda>l. \<lparr>sl_entry = Some \<lparr>en_value = fd_extracted f, en_fresh_until = fresh_until l,
                en_stale_until = stale_until l, en_generation = tk_generation t\<rparr>, sl_flight = None\<rparr>) (fd_lifetime f)
         | Inl _ \<Rightarrow> (case sl_entry sl of None \<Rightarrow> None
             | Some e \<Rightarrow> if clock s < en_stale_until e then Some \<lparr>sl_entry = Some e, sl_flight = None\<rparr> else None))"
proof -
  obtain ck where inv: "cinv answers ck s" using reachable_cinv[OF assms(1,2)] by blast
  obtain sl f where sl: "slots (tbl s) (tk_key t) = Some sl" "sl_flight sl = Some f" "fl_rx f = c"
      "fl_generation f = tk_generation t"
      "\<And>e. sl_entry sl = Some e \<Longrightarrow> en_generation e < tk_generation t"
    using own_slot[OF inv assms(3,4)] by metis
  have "f = \<lparr>fl_generation = tk_generation t, fl_rx = c\<rparr>" using sl(3,4) by simp
  moreover have "slots (tbl (run_settle s c t r)) (tk_key t) =
      (case settle_entry (sl_entry sl) (tk_generation t) (settled_of r) (clock s) of
        None \<Rightarrow> None | Some e \<Rightarrow> Some \<lparr>sl_entry = Some e, sl_flight = None\<rparr>)"
    by (simp add: run_settle_def settle_own[OF sl(1,2,4)])
  ultimately show ?thesis using sl
    by (intro exI[of _ sl]) (auto simp: settle_entry_older[OF sl(5)] settled_of_def
        split: sum.splits option.splits if_splits)
qed

lemma cache_settles_newest_witness:
  "slots (tbl (run_settle sample_waiting 0 sample_task
      (Inr \<lparr>fd_extracted = 7, fd_lifetime = Some \<lparr>fresh_until = 5, stale_until = 9\<rparr>\<rparr>))) [97]
    = Some \<lparr>sl_entry = Some \<lparr>en_value = 7, en_fresh_until = 5, en_stale_until = 9, en_generation = 0\<rparr>, sl_flight = None\<rparr>"
  using cache_settles_newest[OF sample_waiting_reachable, of 0 sample_task
      "Inr \<lparr>fd_extracted = 7, fd_lifetime = Some \<lparr>fresh_until = 5, stale_until = 9\<rparr>\<rparr>"]
  by (auto simp: sample_waiting_eval sample_answers_def sample_task_def)

text \<open>C21: A caller only ever gets what a download for its own key returned: the value of a
  successful one, the error of a failed one, or the error of an aborted one.\<close>

theorem cache_provenance:
  assumes "reachable answers s" "chan_count s < 2 ^ 64" "callers s i = Some (Returned domain r)"
  shows "case r of
      Inr v \<Rightarrow> \<exists>d f. lower d = lower domain \<and> answers d (Inr f) \<and> fd_extracted f = v
    | Inl e \<Rightarrow> e = bad_gateway (M_Text ABORTED) \<or> (\<exists>d. lower d = lower domain \<and> answers d (Inl e))"
proof -
  obtain ck where "cinv answers ck s" using reachable_cinv[OF assms(1,2)] by blast
  from cinvD(5)[OF this assms(3)] show ?thesis
    by (cases r) (simp_all add: outcome_from_def supplied_def)
qed

text \<open>The sample run goes on: the download is cached, and a later caller is served.\<close>

definition sample_served :: "(str, nat) sys" where
  "sample_served =
     (let s = run_settle sample_waiting 0 sample_task
            (Inr \<lparr>fd_extracted = 7, fd_lifetime = Some \<lparr>fresh_until = 5, stale_until = 9\<rparr>\<rparr>);
          s' = s\<lparr>callers := (callers s)(1 \<mapsto> Started [97] (clock s))\<rparr>
      in resolve_read s' 1 [97] (clock s))"

lemma sample_served_reachable: "reachable sample_answers sample_served"
  unfolding sample_served_def Let_def
  by (rule reachable.further[OF reachable.further[OF reachable.further[OF sample_waiting_reachable
        cstep.finishes[of _ 0]] cstep.start] cstep.reads])
    (simp_all add: sample_waiting_eval sample_task_def sample_answers_def run_settle_def,
     simp add: sample_waiting_def resolve_claim_def resolve_read_def init_sys_def new_table_def claim_def
      lower_sample plan_def plan_flight_def open_flight_def launch_def Let_def)

lemma sample_served_eval: "callers sample_served 1 = Some (Returned [97] (Inr 7))" "chan_count sample_served = 1"
  by (simp_all add: sample_served_def sample_waiting_def resolve_claim_def resolve_read_def init_sys_def
      new_table_def claim_def lower_sample plan_def plan_flight_def open_flight_def launch_def Let_def
      run_settle_def settle_def settle_entry_def settled_of_def sample_task_def)

lemma cache_provenance_witness:
  "\<exists>d f. lower d = lower [97] \<and> sample_answers d (Inr f) \<and> fd_extracted f = 7"
  using cache_provenance[OF sample_served_reachable _ sample_served_eval(1)] sample_served_eval(2) by simp

text \<open>C22: No wake-up is lost: from every reachable state, a caller that waits returns after
  finitely many steps, provided that a download, once started, answers something.\<close>

theorem waiting_returns:
  assumes "reachable answers s" "chan_count s < 2 ^ 64" "callers s i = Some (Waiting domain c)"
    and "\<And>d. \<exists>r. answers d r"
  shows "\<exists>s' r. (cstep answers)\<^sup>*\<^sup>* s s' \<and> callers s' i = Some (Returned domain r)"
proof -
  obtain ck where "cinv answers ck s" using reachable_cinv[OF assms(1,2)] by blast
  from answered_in_steps[OF this assms(3,4)] show ?thesis .
qed

lemma waiting_returns_witness:
  "\<exists>s' r. (cstep sample_answers)\<^sup>*\<^sup>* sample_waiting s' \<and> callers s' 0 = Some (Returned [97] r)"
  using waiting_returns[OF sample_waiting_reachable _ sample_waiting_eval(1)]
  by (simp add: sample_waiting_eval sample_answers_def)



end
