(* ===== verification/FcLattice.thy ===== *)
theory FcLattice
  imports Prelude
begin

text \<open>
  \<open>src/worktime/fc.rs\<close>, the values of the flow analysis: a taint is a clean value, a path
  into the \<open>x-kpsdk-fc\<close> document (possibly through a derivation) or opaque, coded in a
  \<open>u32\<close>; a tag is bottom, a payload, or a conflict, coded in a \<open>u32\<close>; a value is one taint
  and three tags. The lemmas show that every \<open>join\<close> is a semilattice of finite height, which
  is what the termination of the solver rests on.
\<close>

subsection \<open>The interface of a join\<close>

text \<open>A join with a bottom and a rank that strictly grows whenever joining changes a value.\<close>

locale ranked_join =
  fixes jn :: "'a \<Rightarrow> 'a \<Rightarrow> 'a"
    and bot :: 'a
    and rank :: "'a \<Rightarrow> nat"
    and top_rank :: nat
  assumes join_assoc: "jn (jn x y) z = jn x (jn y z)"
    and join_comm: "jn x y = jn y x"
    and join_idem: "jn x x = x"
    and join_bot: "jn bot x = x"
    and rank_grows: "jn x y \<noteq> x \<Longrightarrow> rank x < rank (jn x y)"
    and rank_top: "rank x \<le> top_rank"
begin

definition below :: "'a \<Rightarrow> 'a \<Rightarrow> bool" where
  "below x y \<longleftrightarrow> jn x y = y"

lemma below_refl: "below x x"
  by (simp add: below_def join_idem)

lemma below_trans: "below x y \<Longrightarrow> below y z \<Longrightarrow> below x z"
  unfolding below_def by (metis join_assoc)

lemma below_antisym: "below x y \<Longrightarrow> below y x \<Longrightarrow> x = y"
  unfolding below_def by (metis join_comm)

lemma join_upper: "below x (jn x y)" "below y (jn x y)"
  unfolding below_def by (metis join_assoc join_idem, metis join_assoc join_comm join_idem)

lemma join_least: "below x z \<Longrightarrow> below y z \<Longrightarrow> below (jn x y) z"
  unfolding below_def by (metis join_assoc)

text \<open>How far a value still is from the top, which a changing join uses up.\<close>

definition room :: "'a \<Rightarrow> nat" where
  "room x = top_rank - rank x"

lemma room_shrinks: "jn x y \<noteq> x \<Longrightarrow> room (jn x y) < room x"
  using rank_grows[of x y] rank_top[of "jn x y"] by (simp add: room_def)

lemma room_le: "room (jn x y) \<le> room x"
  using room_shrinks[of x y] by (cases "jn x y = x") auto

text \<open>The room in a list of values, and what updating one position does to it.\<close>

definition rooms :: "'a list \<Rightarrow> nat" where
  "rooms xs = sum_list (map room xs)"

lemma rooms_update:
  "i < length xs \<Longrightarrow> rooms (xs[i := y]) + room (xs ! i) = rooms xs + room y"
proof (induction xs arbitrary: i)
  case (Cons x xs)
  then show ?case by (cases i) (auto simp: rooms_def)
qed simp

lemma rooms_shrink:
  "i < length xs \<Longrightarrow> jn (xs ! i) y \<noteq> xs ! i \<Longrightarrow> rooms (xs[i := jn (xs ! i) y]) < rooms xs"
  using rooms_update[of i xs "jn (xs ! i) y"] room_shrinks[of "xs ! i" y] by simp

lemma rooms_append: "rooms (xs @ ys) = rooms xs + rooms ys"
  by (simp add: rooms_def)

lemma rooms_zip:
  "length xs = length ys \<Longrightarrow> map2 jn xs ys \<noteq> xs \<Longrightarrow> rooms (map2 jn xs ys) < rooms xs"
proof (induction xs ys rule: list_induct2)
  case (Cons x xs y ys)
  show ?case
  proof (cases "map2 jn xs ys = xs")
    case True
    then show ?thesis using Cons.prems room_shrinks[of x y] by (simp add: rooms_def)
  next
    case False
    then show ?thesis using Cons.IH room_le[of x y] by (simp add: rooms_def)
  qed
qed (simp add: rooms_def)

end

subsection \<open>Taint\<close>

datatype taint = Taint (raw_taint: u32)

definition CLEAN :: taint where "CLEAN = Taint 0"
definition OPAQUE :: taint where "OPAQUE = Taint (- 1)"

definition taint_path :: "nat \<Rightarrow> bool \<Rightarrow> taint" where
  "taint_path i derived = Taint ((push_bit 1 (of_nat i) OR of_bool derived) + 1)"

definition split_taint :: "taint \<Rightarrow> (nat \<times> bool) option" where
  "split_taint t =
     (if t = CLEAN \<or> t = OPAQUE then None
      else let v = raw_taint t - 1 in Some (unat (drop_bit 1 v), v AND 1 = 1))"

definition taint_join :: "taint \<Rightarrow> taint \<Rightarrow> taint" where
  "taint_join x y =
     (if x = y \<or> y = CLEAN then x
      else if x = CLEAN then y
      else case (split_taint x, split_taint y) of
        (Some (a, d), Some (b, e)) \<Rightarrow> if a = b then taint_path a (d \<or> e) else OPAQUE
      | _ \<Rightarrow> OPAQUE)"

definition taint_derive :: "taint \<Rightarrow> taint" where
  "taint_derive t = (case split_taint t of Some (i, _) \<Rightarrow> taint_path i True | None \<Rightarrow> t)"

lemma taint_path_code:
  assumes "i < 2 ^ 31 - 1"
  shows "raw_taint (taint_path i d) - 1 = of_nat (2 * i + of_bool d)"
    and "unat (raw_taint (taint_path i d)) = 2 * i + of_bool d + 1"
proof -
  have "push_bit 1 (of_nat i) OR of_bool d = (of_nat (2 * i + of_bool d) :: u32)"
    by (cases d) (simp_all add: push_bit_double or_one_eq)
  then have r: "raw_taint (taint_path i d) = of_nat (2 * i + of_bool d) + 1" by (simp add: taint_path_def)
  then show "raw_taint (taint_path i d) - 1 = of_nat (2 * i + of_bool d)" by simp
  have "raw_taint (taint_path i d) = of_nat (2 * i + of_bool d + 1)" using r by simp
  moreover have "2 * i + of_bool d + 1 < 2 ^ LENGTH(32)" using assms by (cases d) simp_all
  ultimately show "unat (raw_taint (taint_path i d)) = 2 * i + of_bool d + 1"
    by (metis unat_of_nat_small)
qed

lemma taint_path_neq:
  "i < 2 ^ 31 - 1 \<Longrightarrow> taint_path i d \<noteq> CLEAN" "i < 2 ^ 31 - 1 \<Longrightarrow> taint_path i d \<noteq> OPAQUE"
proof -
  assume i: "i < 2 ^ 31 - 1"
  have "unat (raw_taint CLEAN) = 0" "unat (raw_taint OPAQUE) = 2 ^ 32 - 1"
    by (simp_all add: CLEAN_def OPAQUE_def unsigned_minus_1_eq_mask mask_eq_exp_minus_1)
  then show "taint_path i d \<noteq> CLEAN" "taint_path i d \<noteq> OPAQUE"
    using taint_path_code(2)[OF i, of d] i by (cases d; force)+
qed

lemma split_path: "i < 2 ^ 31 - 1 \<Longrightarrow> split_taint (taint_path i d) = Some (i, d)"
proof -
  assume i: "i < 2 ^ 31 - 1"
  have n: "2 * i + of_bool d < 2 ^ LENGTH(32)" using i by (cases d) simp_all
  have u: "unat (of_nat (2 * i + of_bool d) :: u32) = 2 * i + of_bool d" by (rule unat_of_nat_small[OF n])
  have half: "unat (drop_bit 1 w) = unat w div 2" for w :: u32
    by (simp add: drop_bit_eq_div unat_div)
  have "unat (drop_bit 1 (of_nat (2 * i + of_bool d) :: u32)) = (2 * i + of_bool d) div 2"
    by (simp only: half u)
  moreover have "(of_nat (2 * i + of_bool d) :: u32) AND 1 = 1 \<longleftrightarrow> d"
  proof -
    have "w AND 1 = 1 \<longleftrightarrow> odd w" for w :: u32 by (simp add: and_one_eq odd_iff_mod_2_eq_one)
    then show ?thesis by (cases d) simp_all
  qed
  ultimately show ?thesis
    using taint_path_neq[OF i, of d] by (cases d) (simp_all add: split_taint_def taint_path_code(1)[OF i])
qed

lemma taint_cases:
  obtains (clean) "t = CLEAN" | (opaque) "t = OPAQUE" | (path) i d where "t = taint_path i d" "i < 2 ^ 31 - 1"
proof -
  define n where "n = unat (raw_taint t)"
  have n: "n < 2 ^ 32" using unat_bound[of "raw_taint t"] by (simp add: n_def)
  have eqI: "t = u" if "unat (raw_taint u) = n" for u
    using that by (metis n_def taint.expand word_unat_eq_iff)
  consider "n = 0" | "n = 2 ^ 32 - 1" | "0 < n" "n < 2 ^ 32 - 1" using n by linarith
  then show thesis
  proof cases
    case 1
    then show thesis using clean eqI[of CLEAN] by (simp add: CLEAN_def)
  next
    case 2
    then show thesis using opaque eqI[of OPAQUE] by (simp add: OPAQUE_def unsigned_minus_1_eq_mask mask_eq_exp_minus_1)
  next
    case 3
    define i where "i = (n - 1) div 2"
    have i: "i < 2 ^ 31 - 1" using 3 by (simp add: i_def)
    have "unat (raw_taint (taint_path i (odd (n - 1)))) = n"
    proof -
      have "2 * i + of_bool (odd (n - 1)) + 1 = n" using 3 unfolding i_def by (cases "odd (n - 1)"; simp; presburger)
      then show ?thesis by (simp only: taint_path_code(2)[OF i])
    qed
    then show thesis using path i eqI by blast
  qed
qed

lemma split_simps [simp]:
  "split_taint CLEAN = None" "split_taint OPAQUE = None"
  by (simp_all add: split_taint_def)

lemma clean_opaque [simp]: "CLEAN \<noteq> OPAQUE" "OPAQUE \<noteq> CLEAN"
  by (simp_all add: CLEAN_def OPAQUE_def)

lemma taint_path_inject:
  "i < 2 ^ 31 - 1 \<Longrightarrow> j < 2 ^ 31 - 1 \<Longrightarrow> taint_path i d = taint_path j e \<longleftrightarrow> i = j \<and> d = e"
proof -
  assume i: "i < 2 ^ 31 - 1" and j: "j < 2 ^ 31 - 1"
  have "taint_path i d = taint_path j e \<Longrightarrow> Some (i, d) = Some (j, e)"
    unfolding split_path[OF i, symmetric] split_path[OF j, symmetric] by (rule arg_cong)
  then show "taint_path i d = taint_path j e \<longleftrightarrow> i = j \<and> d = e" by auto
qed

lemmas taint_simps = split_path taint_path_neq taint_path_neq[symmetric] taint_path_inject

definition taint_rank :: "taint \<Rightarrow> nat" where
  "taint_rank t = (if t = CLEAN then 0 else if t = OPAQUE then 3 else case split_taint t of Some (_, d) \<Rightarrow> 1 + of_bool d | None \<Rightarrow> 0)"

lemma taint_join_assoc: "taint_join (taint_join x y) z = taint_join x (taint_join y z)"
  by (cases x rule: taint_cases; cases y rule: taint_cases; cases z rule: taint_cases)
    (auto simp: taint_join_def taint_simps)

lemma taint_join_comm: "taint_join x y = taint_join y x"
  by (cases x rule: taint_cases; cases y rule: taint_cases) (auto simp: taint_join_def taint_simps)

lemma taint_join_clean: "taint_join CLEAN x = x" "taint_join x CLEAN = x"
  by (auto simp: taint_join_def)

lemma taint_rank_grows: "taint_join x y \<noteq> x \<Longrightarrow> taint_rank x < taint_rank (taint_join x y)"
  by (cases x rule: taint_cases; cases y rule: taint_cases)
    (auto simp: taint_join_def taint_rank_def taint_simps split: if_splits)

lemma taint_rank_top: "taint_rank x \<le> 3"
  by (cases x rule: taint_cases) (auto simp: taint_rank_def taint_simps)

interpretation taint: ranked_join taint_join CLEAN taint_rank 3
proof
  show "taint_join x x = x" for x by (simp add: taint_join_def)
qed (fact taint_join_assoc taint_join_comm taint_join_clean taint_rank_grows taint_rank_top)+

subsection \<open>Tag\<close>

datatype tag = Tag (raw_tag: u32)

definition TAG_BOTTOM :: tag where "TAG_BOTTOM = Tag 0"
definition TAG_CONFLICT :: tag where "TAG_CONFLICT = Tag 1"
definition TAG_YES :: tag where "TAG_YES = Tag 2"

abbreviation (input) ENTRY :: nat where "ENTRY \<equiv> 0"
abbreviation (input) VAR :: nat where "VAR \<equiv> 1"
abbreviation (input) METHOD :: nat where "METHOD \<equiv> 2"

definition tag_of :: "nat \<Rightarrow> tag" where
  "tag_of v = Tag (of_nat v + 2)"

definition tag_callee :: "nat \<Rightarrow> nat \<Rightarrow> tag" where
  "tag_callee kind payload = Tag ((push_bit 2 (of_nat payload) OR of_nat kind) + 2)"

definition tag_get :: "tag \<Rightarrow> nat option" where
  "tag_get g = (if 2 \<le> raw_tag g then Some (unat (raw_tag g - 2)) else None)"

definition is_method :: "tag \<Rightarrow> bool" where
  "is_method g = (case tag_get g of Some v \<Rightarrow> v mod 4 = METHOD | None \<Rightarrow> False)"

definition tag_join :: "tag \<Rightarrow> tag \<Rightarrow> tag" where
  "tag_join x y = (if x = y \<or> y = TAG_BOTTOM then x else if x = TAG_BOTTOM then y else TAG_CONFLICT)"

definition tag_live :: "tag \<Rightarrow> tag" where
  "tag_live x = (if x = TAG_BOTTOM then TAG_CONFLICT else x)"

definition tag_rank :: "tag \<Rightarrow> nat" where
  "tag_rank x = (if x = TAG_BOTTOM then 0 else if x = TAG_CONFLICT then 2 else 1)"

lemma tag_distinct [simp]:
  "TAG_BOTTOM \<noteq> TAG_CONFLICT" "TAG_CONFLICT \<noteq> TAG_BOTTOM" "TAG_YES \<noteq> TAG_BOTTOM" "TAG_YES \<noteq> TAG_CONFLICT"
  by (simp_all add: TAG_BOTTOM_def TAG_CONFLICT_def TAG_YES_def)

interpretation tag: ranked_join tag_join TAG_BOTTOM tag_rank 2
  by unfold_locales (auto simp: tag_join_def tag_rank_def split: if_splits)

text \<open>A tag that carries a payload gives it back, as long as the payload fits.\<close>

lemma tag_get_of: "v < 2 ^ 32 - 2 \<Longrightarrow> tag_get (tag_of v) = Some v"
proof -
  assume v: "v < 2 ^ 32 - 2"
  have "(of_nat v + 2 :: u32) = of_nat (v + 2)" by simp
  moreover have "unat (of_nat (v + 2) :: u32) = v + 2" using v by (intro unat_of_nat_small) simp
  ultimately have "unat (of_nat v + 2 :: u32) = v + 2" by (simp only:)
  moreover have "unat (of_nat v :: u32) = v" using v by (intro unat_of_nat_small) simp
  ultimately show ?thesis by (simp add: tag_get_def tag_of_def word_le_nat_alt)
qed

subsection \<open>Val\<close>

record aval =
  vt :: taint
  vc :: tag
  va :: tag
  vh :: tag

definition VBOTTOM :: aval where
  "VBOTTOM = \<lparr>vt = CLEAN, vc = TAG_BOTTOM, va = TAG_BOTTOM, vh = TAG_BOTTOM\<rparr>"

definition PLAIN :: aval where
  "PLAIN = \<lparr>vt = CLEAN, vc = TAG_CONFLICT, va = TAG_CONFLICT, vh = TAG_CONFLICT\<rparr>"

definition val_join :: "aval \<Rightarrow> aval \<Rightarrow> aval" where
  "val_join x y = \<lparr>vt = taint_join (vt x) (vt y), vc = tag_join (vc x) (vc y), va = tag_join (va x) (va y),
     vh = tag_join (vh x) (vh y)\<rparr>"

definition val_taint :: "taint \<Rightarrow> aval" where
  "val_taint t = PLAIN\<lparr>vt := t\<rparr>"

definition val_field :: "taint \<Rightarrow> aval" where
  "val_field t = VBOTTOM\<lparr>vt := t\<rparr>"

definition val_live :: "aval \<Rightarrow> aval" where
  "val_live x = \<lparr>vt = vt x, vc = tag_live (vc x), va = tag_live (va x), vh = tag_live (vh x)\<rparr>"

definition val_rank :: "aval \<Rightarrow> nat" where
  "val_rank x = taint_rank (vt x) + tag_rank (vc x) + tag_rank (va x) + tag_rank (vh x)"

lemma tag_rank_le: "tag_rank x \<le> tag_rank (tag_join x y)"
  using tag.rank_grows[of x y] by (cases "tag_join x y = x") auto

lemma taint_rank_le: "taint_rank x \<le> taint_rank (taint_join x y)"
  using taint.rank_grows[of x y] by (cases "taint_join x y = x") auto

lemma val_rank_grows:
  assumes "val_join x y \<noteq> x"
  shows "val_rank x < val_rank (val_join x y)"
proof -
  have "taint_join (vt x) (vt y) \<noteq> vt x \<or> tag_join (vc x) (vc y) \<noteq> vc x \<or> tag_join (va x) (va y) \<noteq> va x
      \<or> tag_join (vh x) (vh y) \<noteq> vh x"
    using assms by (auto simp: val_join_def)
  then have "taint_rank (vt x) < taint_rank (taint_join (vt x) (vt y)) \<or> tag_rank (vc x) < tag_rank (tag_join (vc x) (vc y))
      \<or> tag_rank (va x) < tag_rank (tag_join (va x) (va y)) \<or> tag_rank (vh x) < tag_rank (tag_join (vh x) (vh y))"
    using taint.rank_grows tag.rank_grows by blast
  then show ?thesis
    using taint_rank_le[of "vt x" "vt y"] tag_rank_le[of "vc x" "vc y"] tag_rank_le[of "va x" "va y"]
      tag_rank_le[of "vh x" "vh y"]
    by (auto simp: val_rank_def val_join_def)
qed

interpretation val: ranked_join val_join VBOTTOM val_rank 9
proof
  show "val_join (val_join x y) z = val_join x (val_join y z)" for x y z
    by (simp add: val_join_def taint.join_assoc tag.join_assoc)
  show "val_join x y = val_join y x" for x y
    by (simp add: val_join_def taint.join_comm[of "vt x"] tag.join_comm[of "vc x"] tag.join_comm[of "va x"]
        tag.join_comm[of "vh x"])
  show "val_join x x = x" "val_join VBOTTOM x = x" for x
    by (simp_all add: val_join_def VBOTTOM_def taint.join_idem tag.join_idem taint.join_bot tag.join_bot)
  show "val_rank x \<le> 9" for x
    using taint.rank_top[of "vt x"] tag.rank_top[of "vc x"] tag.rank_top[of "va x"] tag.rank_top[of "vh x"]
    by (simp add: val_rank_def)
qed (fact val_rank_grows)

subsection \<open>Properties\<close>

text \<open>The join of taints on their \<open>u32\<close> codes is the least upper bound: associative,
  commutative, idempotent with the clean taint as unit; two paths join to the path when they
  agree (derived as soon as one is) and to the opaque taint otherwise, and reading a coded
  path gives it back.\<close>

theorem taint_join_semilattice:
  "taint_join (taint_join x y) z = taint_join x (taint_join y z) \<and> taint_join x y = taint_join y x
   \<and> taint_join x x = x \<and> taint_join CLEAN x = x \<and> taint_join OPAQUE x = OPAQUE
   \<and> (i \<ge> 2 ^ 31 - 1 \<or> split_taint (taint_path i d) = Some (i, d))
   \<and> (i \<ge> 2 ^ 31 - 1 \<or> j \<ge> 2 ^ 31 - 1
      \<or> taint_join (taint_path i d) (taint_path j e) = (if i = j then taint_path i (d \<or> e) else OPAQUE))"
proof -
  have "taint_join OPAQUE x = OPAQUE" by (auto simp: taint_join_def)
  moreover have "taint_join (taint_path i d) (taint_path j e) = (if i = j then taint_path i (d \<or> e) else OPAQUE)"
    if "i < 2 ^ 31 - 1" "j < 2 ^ 31 - 1"
    using that by (auto simp: taint_join_def taint_simps)
  ultimately show ?thesis
    using taint_join_assoc[of x y z] taint_join_comm[of x y] taint_join_clean split_path[of i d]
      taint.join_idem[of x]
    by (metis not_le)
qed

text \<open>Joining values only moves up, at most nine times: whenever a join changes a value its
  rank grows, and no rank exceeds nine.\<close>

theorem val_join_ranked:
  "(val_join x y = x \<or> val_rank x < val_rank (val_join x y)) \<and> val_rank (val_join x y) \<le> 9
   \<and> val_join (val_join x y) z = val_join x (val_join y z) \<and> val_join x y = val_join y x \<and> val_join x x = x"
  using val.rank_grows[of x y] val.rank_top[of "val_join x y"] val.join_assoc[of x y z] val.join_comm[of x y]
    val.join_idem[of x] by blast

end
