(* ===== verification/Parse.thy ===== *)
theory Parse
  imports F64 Strings
begin

text \<open>
  \<open>str::parse\<close> for the number types that the sources parse: \<open>usize\<close> with its overflow check,
  and \<open>f64\<close> with the grammar of the standard library, rounded once from the exact decimal.
\<close>

definition digit :: "nat \<Rightarrow> bool" where
  "digit c \<longleftrightarrow> 48 \<le> c \<and> c \<le> 57"

text \<open>An optional sign, and whether it was a minus.\<close>

definition parse_sign :: "str \<Rightarrow> bool \<times> str" where
  "parse_sign s =
     (if s \<noteq> [] \<and> hd s = 45 then (True, tl s) else if s \<noteq> [] \<and> hd s = 43 then (False, tl s) else (False, s))"

definition parse_usize :: "str \<Rightarrow> nat option" where
  "parse_usize s =
     (let ds = (if s \<noteq> [] \<and> hd s = 43 then tl s else s) in
      if ds \<noteq> [] \<and> list_all digit ds \<and> undec ds < 2 ^ 64 then Some (undec ds) else None)"

text \<open>The double nearest to \<open>n / d\<close>, with 64 quotient bits and a sticky bit.\<close>

definition f64_ratio :: "bool \<Rightarrow> nat \<Rightarrow> nat \<Rightarrow> f64" where
  "f64_ratio s n d =
     (let k = 64 + floorlog 2 d; q = n * 2 ^ k div d; r = n * 2 ^ k mod d
      in f64_round s (2 * q + (if r = 0 then 0 else 1)) (- int k - 1))"

text \<open>The double nearest to \<open>m * 10 ^ e\<close>.\<close>

definition f64_decimal :: "bool \<Rightarrow> nat \<Rightarrow> int \<Rightarrow> f64" where
  "f64_decimal s m e = (if 0 \<le> e then f64_round s (m * 10 ^ nat e) 0 else f64_ratio s m (10 ^ nat (- e)))"

definition parse_exponent :: "str \<Rightarrow> int option" where
  "parse_exponent s =
     (let (neg, ds) = parse_sign s in
      if ds \<noteq> [] \<and> list_all digit ds then Some (if neg then - int (undec ds) else int (undec ds)) else None)"

definition parse_unsigned :: "bool \<Rightarrow> str \<Rightarrow> f64 option" where
  "parse_unsigned neg s =
     (let whole = takeWhile digit s; r1 = dropWhile digit s;
          (frac, r2) = (if r1 \<noteq> [] \<and> hd r1 = 46 then (takeWhile digit (tl r1), dropWhile digit (tl r1)) else ([], r1));
          value = (\<lambda>e. f64_decimal neg (undec (whole @ frac)) (e - int (length frac))) in
      if whole = [] \<and> frac = [] then None
      else case r2 of
        [] \<Rightarrow> Some (value 0)
      | c # t \<Rightarrow> if c = 101 \<or> c = 69 then map_option value (parse_exponent t) else None)"

definition parse_f64 :: "str \<Rightarrow> f64 option" where
  "parse_f64 s =
     (let (neg, t) = parse_sign s;
          l = map lower_char t in
      if l = chars ''nan'' then Some FNan
      else if l = chars ''inf'' \<or> l = chars ''infinity'' then Some (FInf neg)
      else parse_unsigned neg t)"

lemma dec_digit: "list_all digit (dec n)"
  using dec_digits[of _ n] by (fastforce simp: list_all_iff digit_def)

lemma dec_head: "\<exists>c cs. dec n = c # cs \<and> 48 \<le> c \<and> c \<le> 57"
  using dec_nonempty[of n] dec_digit[of n] by (cases "dec n") (auto simp: digit_def)

lemma parse_usize_dec: "n < 2 ^ 64 \<Longrightarrow> parse_usize (dec n) = Some n"
proof -
  assume n: "n < 2 ^ 64"
  obtain c cs where c: "dec n = c # cs" "48 \<le> c" using dec_head by blast
  then have "(if dec n \<noteq> [] \<and> hd (dec n) = 43 then tl (dec n) else dec n) = dec n" by simp
  then show ?thesis using n dec_digit[of n] dec_nonempty[of n] undec_dec[of n]
    by (simp only: parse_usize_def Let_def) simp
qed

lemma parse_usize_bound: "parse_usize s = Some n \<Longrightarrow> n < 2 ^ 64"
  by (auto simp: parse_usize_def Let_def split: if_splits)

lemma parse_f64_dec: "parse_f64 (dec n) = Some (f64_of_int (int n))"
proof -
  obtain c cs where c: "dec n = c # cs" "48 \<le> c" "c \<le> 57" using dec_head by blast
  have tw: "takeWhile digit (dec n) = dec n" "dropWhile digit (dec n) = []"
    using dec_digit[of n] by (auto simp: list_all_iff takeWhile_eq_all_conv dropWhile_eq_Nil_conv)
  have "parse_unsigned False (dec n) = Some (f64_decimal False (undec (dec n)) 0)"
    by (simp add: parse_unsigned_def tw)
  moreover have "f64_decimal False n 0 = f64_of_int (int n)"
    by (simp add: f64_decimal_def f64_of_int_def)
  moreover have "parse_sign (dec n) = (False, dec n)"
    using c by (simp add: parse_sign_def)
  moreover have "map lower_char (dec n) \<noteq> chars ''nan''" "map lower_char (dec n) \<noteq> chars ''inf''"
    "map lower_char (dec n) \<noteq> chars ''infinity''"
    using c by (auto simp: chars_def lower_char_def)
  ultimately show ?thesis by (simp only: parse_f64_def Let_def prod.case undec_dec if_False simp_thms)
qed

end
