(* ===== verification/FcApply.thy ===== *)
theory FcApply
  imports Parse
begin

text \<open>
  \<open>src/worktime/fc.rs\<close>, the use of the analysis: the overrides name, for each parameter of the
  proof of work, a path into the JSON document that the \<open>x-kpsdk-fc\<close> header carries in base64;
  \<open>apply\<close> reads the values there and checks them.

  The base64 decoder and the JSON parser are parameters. A JSON document is the tree that
  \<open>serde_json\<close> builds, whose objects keep the last value of a repeated key.
\<close>

datatype json_number = PosInt nat | NegInt int | Float f64

datatype json =
    JNull
  | JBool bool
  | JNumber json_number
  | JString str
  | JArray "json list"
  | JObject "(str \<times> json) list"

fun as_f64 :: "json_number \<Rightarrow> f64" where
  "as_f64 (PosInt n) = f64_of_int (int n)"
| "as_f64 (NegInt i) = f64_of_int i"
| "as_f64 (Float x) = x"

fun as_u64 :: "json_number \<Rightarrow> nat option" where
  "as_u64 (PosInt n) = Some n"
| "as_u64 _ = None"

definition PARAMS :: "str list" where
  "PARAMS = [chars ''difficulty'', chars ''sub_count'', chars ''seed_suffix'', chars ''seed_phrase'']"

record fc_path =
  fp_steps :: "str list"
  fp_derived :: bool

text \<open>\<open>impl Display for FcPath\<close>.\<close>

fun join_steps :: "str list \<Rightarrow> str" where
  "join_steps [] = []"
| "join_steps [s] = s"
| "join_steps (s # t # ss) = s @ [46] @ join_steps (t # ss)"

definition path_string :: "fc_path \<Rightarrow> str" where
  "path_string p = (if fp_steps p = [] then chars ''<root>'' else join_steps (fp_steps p))"

record fc_overrides =
  ov_difficulty :: "fc_path option"
  ov_sub_count :: "fc_path option"
  ov_seed_suffix :: "fc_path option"
  ov_seed_phrase :: "fc_path option"

datatype fc_usage = Independent | Dependent fc_overrides

record fc_values =
  fv_difficulty :: "f64 option"
  fv_sub_count :: "nat option"
  fv_seed_suffix :: "str option"
  fv_seed_phrase :: "str option"

definition default_values :: fc_values where
  "default_values = \<lparr>fv_difficulty = None, fv_sub_count = None, fv_seed_suffix = None, fv_seed_phrase = None\<rparr>"

datatype fc_apply_error =
    ApplyEmpty
  | ApplyBase64 str
  | ApplyJson str
  | ApplyMissing str str
  | ApplyWrongType str str str

subsection \<open>Reading a path\<close>

definition json_child :: "json \<Rightarrow> str \<Rightarrow> json option" where
  "json_child node step =
     (case node of
        JObject m \<Rightarrow> map_of m step
      | JArray items \<Rightarrow> (case parse_usize step of Some i \<Rightarrow> get items i | None \<Rightarrow> None)
      | _ \<Rightarrow> None)"

fun walk_from :: "json \<Rightarrow> str list \<Rightarrow> json option" where
  "walk_from node [] = Some node"
| "walk_from node (step # steps) =
     (case json_child node step of Some v \<Rightarrow> walk_from v steps | None \<Rightarrow> None)"

definition walk_path :: "json \<Rightarrow> fc_path \<Rightarrow> str \<Rightarrow> fc_apply_error + json" where
  "walk_path doc p param = opt_res (ApplyMissing param (path_string p)) (walk_from doc (fp_steps p))"


definition read_sub_count :: "json \<Rightarrow> fc_path \<Rightarrow> fc_apply_error + nat" where
  "read_sub_count doc p =
     res_bind (walk_path doc p (PARAMS ! 1)) (\<lambda>v.
       let value = (case v of
             JNumber n \<Rightarrow>
               (case as_u64 n of
                  Some k \<Rightarrow> Some k
                | None \<Rightarrow>
                    let x = as_f64 n in
                    if f64_integral x \<and> f64_le (f64_of_int 1) x \<and> f64_le x (f64_of_int (2 ^ 32 - 1))
                    then Some (nat (f64_sat 0 (2 ^ 64 - 1) x)) else None)
           | _ \<Rightarrow> None);
         wrong = Inl (ApplyWrongType (PARAMS ! 1) (path_string p) (chars ''an integer in 1..=4294967295''))
       in case value of
            Some k \<Rightarrow> if k < 2 ^ 32 \<and> 1 \<le> k then Inr k else wrong
          | None \<Rightarrow> wrong)"




subsection \<open>What the readers guarantee\<close>

lemma walk_path_Inr [res_simps]: "walk_path doc p param = Inr v \<longleftrightarrow> walk_from doc (fp_steps p) = Some v"
  by (simp add: walk_path_def opt_res_Inr)

lemma walk_append: "walk_from doc (xs @ ys) = (case walk_from doc xs of Some v \<Rightarrow> walk_from v ys | None \<Rightarrow> None)"
  by (induction xs arbitrary: doc) (auto split: option.splits)



lemma read_sub_count_int:
  "walk_from doc (fp_steps p) = Some (JNumber (PosInt k)) \<Longrightarrow> 1 \<le> k \<Longrightarrow> k < 2 ^ 32
    \<Longrightarrow> read_sub_count doc p = Inr k"
  by (simp add: read_sub_count_def walk_path_def)

text \<open>A float that holds an integer in the range reads as that integer.\<close>

lemma read_sub_count_float:
  assumes "walk_from doc (fp_steps p) = Some (JNumber (Float (f64_of_int (int k))))" "1 \<le> k" "k < 2 ^ 32"
  shows "read_sub_count doc p = Inr k"
proof -
  have e: "f64_exact (int k)" "f64_exact 1" "f64_exact (2 ^ 32 - 1)"
    using assms(3) by (auto intro!: f64_exact_small)
  have le: "f64_le (f64_of_int 1) (f64_of_int (int k))" "f64_le (f64_of_int (int k)) (f64_of_int (2 ^ 32 - 1))"
    using assms(2,3) e by (auto simp: f64_le_def f64_lt_of_int f64_eq_of_int)
  have sat: "f64_sat 0 (2 ^ 64 - 1) (f64_of_int (int k)) = int k"
    using f64_sat_of_int[OF e(1), of 0 "2 ^ 64 - 1"] assms(3) by simp
  have int: "f64_integral (f64_of_int (int k))" by (rule f64_trunc_of_int(2)[OF e(1)])
  show ?thesis using assms le sat int
    by (simp add: read_sub_count_def walk_path_def Let_def)
qed





subsection \<open>Properties\<close>






text \<open>A count is accepted in both number forms that JSON has for it: an integer in
  1..2^32-1 reads as itself, whether the document holds it as an integer or as a float.\<close>

theorem sub_count_both_forms:
  assumes "walk_from doc (fp_steps p) = Some (JNumber n)" "n = PosInt k \<or> n = Float (f64_of_int (int k))"
    and "1 \<le> k" "k < 2 ^ 32"
  shows "read_sub_count doc p = Inr k"
  using assms read_sub_count_int[of doc p k] read_sub_count_float[of doc p k] by auto

lemma sub_count_both_forms_witness:
  "read_sub_count (JNumber (Float (f64_of_int 7))) \<lparr>fp_steps = [], fp_derived = False\<rparr> = Inr 7"
  using sub_count_both_forms[of "JNumber (Float (f64_of_int 7))" "\<lparr>fp_steps = [], fp_derived = False\<rparr>" _ 7] by simp

end
