(* ===== verification/FcProgram.thy ===== *)
theory FcProgram
  imports Model FcLattice Strings
begin

text \<open>
  \<open>src/worktime/fc.rs\<close>, \<open>Program::build\<close>: the disassembled script as the flow analysis reads
  it. One pass interns the property names, numbers the allocation sites and the functions,
  and finds the successors and leaders of instructions; then come the basic blocks, the
  blocks of every function by a depth-first search, the functions that are bound to
  variables and properties, and two tables in compressed rows (\<open>csr\<close>).

  The sentinel \<open>NONE\<close> is \<open>None\<close>. A hash map is a partial function.
\<close>

subsection \<open>Constants and errors\<close>

definition FC_HEADER :: "u8 list" where "FC_HEADER = bytes ''x-kpsdk-fc''"
definition DYNAMIC_CONFIG :: "u8 list" where "DYNAMIC_CONFIG = bytes ''dynamicConfig''"
definition FEATURE_FLAGS :: "u8 list" where "FEATURE_FLAGS = bytes ''featureFlags''"
abbreviation (input) MAX_INSTRS :: nat where "MAX_INSTRS \<equiv> 268435456"
abbreviation (input) MAX_REGISTER :: nat where "MAX_REGISTER \<equiv> 4096"
abbreviation (input) MAX_VARIABLE :: int where "MAX_VARIABLE \<equiv> 1048576"
abbreviation (input) MAX_INDEX :: int where "MAX_INDEX \<equiv> 4096"
abbreviation (input) BIND_SCAN :: nat where "BIND_SCAN \<equiv> 256"

datatype fc_error =
    FcEmpty
  | FcTooLarge nat
  | FcTarget nat int
  | FcEntry nat int
  | FcRegister nat nat
  | FcVariable nat int
  | FcUntrackable str

subsection \<open>Property names\<close>

datatype keyname = KUnits "u16 list" | KIndex int | KLit nat

text \<open>A property name that is the canonical decimal of an integer of at most 15 digits.\<close>

fun digits_value :: "u16 list \<Rightarrow> int \<Rightarrow> int option" where
  "digits_value [] v = Some v"
| "digits_value (d # ds) v =
     (if 0x30 \<le> d \<and> d \<le> 0x39 then digits_value ds (v * 10 + uint (d - 0x30)) else None)"

definition canonical_index :: "u16 list \<Rightarrow> int option" where
  "canonical_index u =
     (let neg = (u \<noteq> [] \<and> hd u = 0x2d); digits = (if neg then tl u else u) in
      if digits = [] \<or> 15 < length digits then None
      else if hd digits = 0x30 \<and> (1 < length digits \<or> neg) then None
      else case digits_value digits 0 of None \<Rightarrow> None | Some v \<Rightarrow> Some (if neg then - v else v))"

definition key_name :: "operand \<Rightarrow> u16 list \<Rightarrow> keyname option" where
  "key_name opd pool =
     (case opd of
        Opd_Str r \<Rightarrow>
          let u = units pool r in
          Some (case canonical_index u of Some i \<Rightarrow> KIndex i | None \<Rightarrow> KUnits u)
      | Opd_Int i \<Rightarrow> Some (KIndex (sint i))
      | Opd_Dbl d \<Rightarrow>
          if is_finite d \<and> f64_integral d \<and> f64_lt (f64_abs d) (f64_of_int (2 ^ 53))
          then Some (KIndex (f64_sat (- (2 ^ 63)) (2 ^ 63 - 1) d)) else None
      | Opd_True \<Rightarrow> Some (KLit 0)
      | Opd_False \<Rightarrow> Some (KLit 1)
      | Opd_Null \<Rightarrow> Some (KLit 2)
      | Opd_Undef \<Rightarrow> Some (KLit 3)
      | Opd_Reg _ \<Rightarrow> None)"

subsection \<open>Compressed rows\<close>

definition csr_count :: "(nat \<times> nat) list \<Rightarrow> nat \<Rightarrow> nat list" where
  "csr_count pairs keys = foldl (\<lambda>off (k, _). off[k := off ! k + 1]) (replicate (keys + 1) 0) pairs"

definition csr_sum :: "nat \<Rightarrow> nat list \<Rightarrow> nat list" where
  "csr_sum keys off = foldl (\<lambda>off i. off[i := off ! i + off ! (i - 1)]) off [1..<keys + 1]"

definition csr_place :: "nat list \<times> nat list \<Rightarrow> nat \<times> nat \<Rightarrow> nat list \<times> nat list" where
  "csr_place oi kv =
     (let off = fst oi; items = snd oi; k = fst kv; p = off ! k - 1 in (off[k := p], items[p := snd kv]))"

definition csr :: "(nat \<times> nat) list \<Rightarrow> nat \<Rightarrow> nat list \<times> nat list" where
  "csr pairs keys =
     foldl csr_place (csr_sum keys (csr_count pairs keys), replicate (length pairs) 0) (rev pairs)"

subsection \<open>The program\<close>

record aux =
  ax_key :: "nat option"
  ax_hdr :: u8
  ax_site :: "nat option"

type_synonym succs = "nat option \<times> nat option"

record bblock =
  bk_start :: nat
  bk_end :: nat
  bk_succ :: succs
  bk_max_reg :: nat
  bk_reg_pc :: nat
  bk_has_self :: bool

record func =
  fn_first :: nat
  fn_count :: nat
  fn_entry :: nat
  fn_nregs :: nat

record program =
  p_instrs :: "instr list"
  p_aux :: "aux list"
  p_names :: "keyname list"
  p_wild :: nat
  p_blocks :: "bblock list"
  p_fblocks :: "nat list"
  p_fsucc :: "succs list"
  p_funcs :: "func list"
  p_nvars :: nat
  p_var_off :: "nat list"
  p_var_items :: "nat list"
  p_method_off :: "nat list"
  p_method_items :: "nat list"
  p_ids :: "nat list"
  p_site_len :: "nat list"
  p_nallocs :: nat
  p_pow :: "nat option list"
  p_dyn_key :: "nat option"
  p_ff_key :: "nat option"
  p_hdr_key :: "nat option"
  p_seeded :: bool

subsection \<open>Targets\<close>

definition branch_target :: "instr list \<Rightarrow> instr \<Rightarrow> fc_error + nat" where
  "branch_target instrs ins =
     (let raw = (case op_flow (in_op ins) of Flow_Jump \<Rightarrow> in_arg ins 0 | _ \<Rightarrow> in_arg ins 1);
          tgt = (case raw of Opd_Int t \<Rightarrow> sint t | _ \<Rightarrow> -1)
      in opt_res (FcTarget (in_pc ins) tgt)
           (case target ins of Some pc \<Rightarrow> instr_index instrs pc | None \<Rightarrow> None))"

definition handler_target :: "instr list \<Rightarrow> instr \<Rightarrow> fc_error + nat option" where
  "handler_target instrs ins =
     (case in_arg ins 0 of
        Opd_Int t \<Rightarrow>
          if 0 \<le> sint t
          then (case instr_index instrs (idx t) of
                  Some i \<Rightarrow> Inr (Some i) | None \<Rightarrow> Inl (FcTarget (in_pc ins) (sint t)))
          else Inl (FcTarget (in_pc ins) (sint t))
      | _ \<Rightarrow> Inr None)"

subsection \<open>The first pass\<close>

record pass =
  sc_aux :: "aux list"
  sc_succ :: "succs list"
  sc_lead :: "bool list"
  sc_by_ref :: "pool_ref \<Rightarrow> nat option"
  sc_by_name :: "keyname \<Rightarrow> nat option"
  sc_names :: "keyname list"
  sc_entries :: "nat list"
  sc_entry_of :: "nat \<Rightarrow> nat option"
  sc_nvars :: nat
  sc_nallocs :: nat
  sc_site_len :: "nat list"
  sc_dyn_key :: "nat option"
  sc_ff_key :: "nat option"
  sc_hdr_key :: "nat option"
  sc_seeded :: bool

definition scan_init :: "nat \<Rightarrow> pass" where
  "scan_init n =
     \<lparr>sc_aux = [], sc_succ = [], sc_lead = (replicate n False)[0 := True], sc_by_ref = (\<lambda>_. None),
      sc_by_name = (\<lambda>_. None), sc_names = [], sc_entries = [0], sc_entry_of = [0 \<mapsto> 0], sc_nvars = 0,
      sc_nallocs = 0, sc_site_len = [], sc_dyn_key = None, sc_ff_key = None, sc_hdr_key = None,
      sc_seeded = False\<rparr>"

text \<open>The operands that are the header name, as bits.\<close>

definition hdr_mask :: "u16 list \<Rightarrow> instr \<Rightarrow> u8" where
  "hdr_mask pool ins =
     foldl (\<lambda>h (k, opd). case opd of
         Opd_Str r \<Rightarrow> if eq_ascii (units pool r) FC_HEADER then h OR push_bit k 1 else h
       | _ \<Rightarrow> h) 0 (enumerate 0 (operands_of ins))"

definition has_hdr :: "u16 list \<Rightarrow> instr \<Rightarrow> bool" where
  "has_hdr pool ins \<longleftrightarrow>
     list_ex (\<lambda>opd. case opd of Opd_Str r \<Rightarrow> eq_ascii (units pool r) FC_HEADER | _ \<Rightarrow> False) (operands_of ins)"

definition succs_of :: "instr list \<Rightarrow> nat option \<Rightarrow> instr \<Rightarrow> fc_error + succs" where
  "succs_of instrs nxt ins =
     (case op_flow (in_op ins) of
        Flow_Next \<Rightarrow>
          if in_op ins = Op_SetCatch \<or> in_op ins = Op_SetFinally
          then res_bind (handler_target instrs ins) (\<lambda>h. Inr (nxt, h))
          else Inr (nxt, None)
      | Flow_Jump \<Rightarrow> res_bind (branch_target instrs ins) (\<lambda>t. Inr (Some t, None))
      | Flow_BranchIfTrue \<Rightarrow> res_bind (branch_target instrs ins) (\<lambda>t. Inr (nxt, Some t))
      | Flow_BranchIfFalse \<Rightarrow> res_bind (branch_target instrs ins) (\<lambda>t. Inr (nxt, Some t))
      | Flow_Exit \<Rightarrow> Inr (None, None))"

definition mark :: "nat option \<Rightarrow> bool list \<Rightarrow> bool list" where
  "mark t lead = (case t of Some i \<Rightarrow> lead[i := True] | None \<Rightarrow> lead)"

definition mark_leaders :: "nat option \<Rightarrow> succs \<Rightarrow> bool list \<Rightarrow> bool list" where
  "mark_leaders nxt s lead =
     (if fst s \<noteq> nxt \<or> snd s \<noteq> None then mark nxt (mark (snd s) (mark (fst s) lead)) else lead)"

definition new_name :: "keyname \<Rightarrow> pass \<Rightarrow> nat \<times> pass" where
  "new_name name st =
     (let i = length (sc_names st);
          st = st\<lparr>sc_by_name := (sc_by_name st)(name \<mapsto> i), sc_names := sc_names st @ [name]\<rparr>
      in (i, case name of
               KUnits u \<Rightarrow>
                 if eq_ascii u DYNAMIC_CONFIG then st\<lparr>sc_dyn_key := Some i\<rparr>
                 else if eq_ascii u FEATURE_FLAGS then st\<lparr>sc_ff_key := Some i\<rparr>
                 else if eq_ascii u FC_HEADER then st\<lparr>sc_hdr_key := Some i\<rparr> else st
             | _ \<Rightarrow> st))"

definition intern_key :: "u16 list \<Rightarrow> operand \<Rightarrow> pass \<Rightarrow> nat option \<times> pass" where
  "intern_key pool opd st =
     (case (case opd of Opd_Str r \<Rightarrow> sc_by_ref st r | _ \<Rightarrow> None) of
        Some i \<Rightarrow> (Some i, st)
      | None \<Rightarrow>
          (case key_name opd pool of
             None \<Rightarrow> (None, st)
           | Some name \<Rightarrow>
               let (i, st) = (case sc_by_name st name of Some i \<Rightarrow> (i, st) | None \<Rightarrow> new_name name st) in
               (Some i, case opd of Opd_Str r \<Rightarrow> st\<lparr>sc_by_ref := (sc_by_ref st)(r \<mapsto> i)\<rparr> | _ \<Rightarrow> st)))"

definition is_var_op :: "op \<Rightarrow> bool" where
  "is_var_op x \<longleftrightarrow> x \<in> {Op_GetVar, Op_AssignVar, Op_SetVar, Op_ClearVar, Op_SetVarSelf, Op_SetVarExc}"

text \<open>What one instruction adds beyond its successors; the result is its \<open>aux\<close> entry.\<close>

definition scan_op :: "instr list \<Rightarrow> u16 list \<Rightarrow> instr \<Rightarrow> aux \<Rightarrow> pass \<Rightarrow> fc_error + aux \<times> pass" where
  "scan_op instrs pool ins a st =
     (if in_op ins = Op_GetProp \<or> in_op ins = Op_SetProp then
        (let (k, st) = intern_key pool (in_arg ins 1) st in
         Inr (a\<lparr>ax_key := k\<rparr>,
              if k \<noteq> None \<and> in_op ins = Op_GetProp \<and> (k = sc_dyn_key st \<or> k = sc_ff_key st)
              then st\<lparr>sc_seeded := True\<rparr> else st))
      else if in_op ins = Op_NewArr \<or> in_op ins = Op_NewArrN then
        Inr (a\<lparr>ax_site := Some (sc_nallocs st)\<rparr>,
             st\<lparr>sc_nallocs := sc_nallocs st + 1,
                sc_site_len := sc_site_len st @
                  [case in_arg ins 0 of
                     Opd_Int k \<Rightarrow> if in_op ins = Op_NewArrN then nat (max 0 (min MAX_INDEX (sint k))) else 0
                   | _ \<Rightarrow> 0]\<rparr>)
      else if in_op ins = Op_Closure then
        (let entry = (case in_arg ins 0 of Opd_Int e \<Rightarrow> sint e | _ \<Rightarrow> -1) in
         case (if 0 \<le> entry then instr_index instrs (nat entry) else None) of
           None \<Rightarrow> Inl (FcEntry (in_pc ins) entry)
         | Some x \<Rightarrow>
             let st = st\<lparr>sc_lead := (sc_lead st)[x := True]\<rparr> in
             (case sc_entry_of st x of
                Some f \<Rightarrow> Inr (a\<lparr>ax_site := Some f\<rparr>, st)
              | None \<Rightarrow>
                  let f = length (sc_entries st) in
                  Inr (a\<lparr>ax_site := Some f\<rparr>,
                       st\<lparr>sc_entries := sc_entries st @ [x], sc_entry_of := (sc_entry_of st)(x \<mapsto> f)\<rparr>)))
      else if is_var_op (in_op ins) then
        (case in_arg ins 0 of
           Opd_Int v \<Rightarrow>
             if MAX_VARIABLE \<le> sint v then Inl (FcVariable (in_pc ins) (sint v))
             else if 0 \<le> sint v then Inr (a, st\<lparr>sc_nvars := max (sc_nvars st) (nat (sint v) + 1)\<rparr>)
             else Inr (a, st)
         | _ \<Rightarrow> Inr (a, st))
      else Inr (a, st))"

definition scan_step :: "instr list \<Rightarrow> u16 list \<Rightarrow> nat \<times> instr \<Rightarrow> pass \<Rightarrow> fc_error + pass" where
  "scan_step instrs pool ii st =
     (let (i, ins) = ii;
          a = \<lparr>ax_key = None, ax_hdr = hdr_mask pool ins, ax_site = None\<rparr>;
          st = (if has_hdr pool ins then st\<lparr>sc_seeded := True\<rparr> else st);
          nxt = (if i + 1 < length instrs then Some (i + 1) else None)
      in res_bind (succs_of instrs nxt ins) (\<lambda>s.
         let st = st\<lparr>sc_lead := mark_leaders nxt s (sc_lead st), sc_succ := sc_succ st @ [s]\<rparr> in
         res_bind (scan_op instrs pool ins a st) (\<lambda>(a, st). Inr (st\<lparr>sc_aux := sc_aux st @ [a]\<rparr>))))"

fun pass_loop :: "instr list \<Rightarrow> u16 list \<Rightarrow> (nat \<times> instr) list \<Rightarrow> pass \<Rightarrow> fc_error + pass" where
  "pass_loop instrs pool [] st = Inr st"
| "pass_loop instrs pool (ii # iis) st = res_bind (scan_step instrs pool ii st) (pass_loop instrs pool iis)"

subsection \<open>Basic blocks\<close>

definition raise_reg :: "nat \<Rightarrow> nat \<Rightarrow> bblock \<Rightarrow> bblock" where
  "raise_reg pc r b = (if bk_max_reg b < r then b\<lparr>bk_max_reg := r, bk_reg_pc := pc\<rparr> else b)"

definition block_operand :: "nat \<Rightarrow> operand \<Rightarrow> bblock \<Rightarrow> bblock" where
  "block_operand pc opd b = (case opd of Opd_Reg r \<Rightarrow> raise_reg pc r b | _ \<Rightarrow> b)"

definition block_extend :: "nat \<Rightarrow> instr \<Rightarrow> bblock \<Rightarrow> bblock" where
  "block_extend i ins b =
     (let b = b\<lparr>bk_end := i + 1\<rparr>;
          b = fold (block_operand (in_pc ins)) (operands_of ins) b;
          b = (case in_dest ins of Some d \<Rightarrow> raise_reg (in_pc ins) d b | None \<Rightarrow> b)
      in if in_op ins = Op_SetVarSelf then b\<lparr>bk_has_self := True\<rparr> else b)"

definition new_block :: "nat \<Rightarrow> nat \<Rightarrow> bblock" where
  "new_block i pc = \<lparr>bk_start = i, bk_end = i, bk_succ = (None, None), bk_max_reg = 3, bk_reg_pc = pc,
     bk_has_self = False\<rparr>"

definition block_step :: "bool list \<Rightarrow> bblock list \<times> nat list \<Rightarrow> nat \<times> instr \<Rightarrow> bblock list \<times> nat list" where
  "block_step lead bs ii =
     (let (i, ins) = ii;
          blocks = (if lead ! i then fst bs @ [new_block i (in_pc ins)] else fst bs);
          b = length blocks - 1
      in (blocks[b := block_extend i ins (blocks ! b)], snd bs @ [b]))"

definition make_blocks :: "instr list \<Rightarrow> bool list \<Rightarrow> bblock list \<times> nat list" where
  "make_blocks instrs lead = foldl (block_step lead) ([], []) (enumerate 0 instrs)"

definition link_block :: "succs list \<Rightarrow> nat list \<Rightarrow> bblock \<Rightarrow> bblock" where
  "link_block succ block_at b =
     (let l = succ ! (bk_end b - 1) in
      b\<lparr>bk_succ := (map_option (\<lambda>t. block_at ! t) (fst l), map_option (\<lambda>t. block_at ! t) (snd l))\<rparr>)"

subsection \<open>The blocks of a function\<close>

text \<open>
  The search over the successors: the head of the list is the top of the stack, and a block
  is stamped when it is pushed.
\<close>

definition visit :: "nat \<Rightarrow> nat option \<Rightarrow> nat list \<times> nat list \<Rightarrow> nat list \<times> nat list" where
  "visit s t sk =
     (case t of
        Some b \<Rightarrow> if b < length (snd sk) \<and> snd sk ! b \<noteq> s then (b # fst sk, (snd sk)[b := s]) else sk
      | None \<Rightarrow> sk)"

definition unstamped :: "nat \<Rightarrow> nat list \<Rightarrow> nat" where
  "unstamped s stamp = length (filter (\<lambda>x. x \<noteq> s) stamp)"

lemma unstamped_update:
  "b < length stamp \<Longrightarrow> stamp ! b \<noteq> s \<Longrightarrow> Suc (unstamped s (stamp[b := s])) = unstamped s stamp"
proof (induction stamp arbitrary: b)
  case (Cons x stamp)
  then show ?case by (cases b) (auto simp: unstamped_def)
qed simp

lemma visit_measure:
  "length (fst (visit s t sk)) + 2 * unstamped s (snd (visit s t sk)) \<le> length (fst sk) + 2 * unstamped s (snd sk)"
  using unstamped_update[of _ "snd sk" s] by (fastforce simp: visit_def split: option.split)

function dfs :: "bblock list \<Rightarrow> nat \<Rightarrow> nat list \<Rightarrow> nat list \<Rightarrow> nat list \<Rightarrow> nat list \<times> nat list" where
  "dfs blocks s [] stamp out = (out, stamp)"
| "dfs blocks s (b # stack) stamp out =
     (let (stack', stamp') = visit s (snd (bk_succ (blocks ! b))) (visit s (fst (bk_succ (blocks ! b))) (stack, stamp))
      in dfs blocks s stack' stamp' (out @ [b]))"
  by pat_completeness auto
termination
proof (relation "measure (\<lambda>(blocks, s, stack, stamp, out). length stack + 2 * unstamped s stamp)", simp_all)
  fix blocks :: "bblock list" and s b and stack stamp stack' stamp' :: "nat list"
  define p where "p = visit s (fst (bk_succ (blocks ! b))) (stack, stamp)"
  define q where "q = visit s (snd (bk_succ (blocks ! b))) p"
  assume "(stack', stamp') = visit s (snd (bk_succ (blocks ! b))) (visit s (fst (bk_succ (blocks ! b))) (stack, stamp))"
  then have "(stack', stamp') = q" by (simp only: p_def q_def)
  then have "stack' = fst q" "stamp' = snd q" by auto
  then show "length stack' + 2 * unstamped s stamp' < Suc (length stack + 2 * unstamped s stamp)"
    using visit_measure[of s "snd (bk_succ (blocks ! b))" p]
      visit_measure[of s "fst (bk_succ (blocks ! b))" "(stack, stamp)"]
    by (simp add: p_def[symmetric] q_def[symmetric])
qed

record funcs_state =
  fs_funcs :: "func list"
  fs_fblocks :: "nat list"
  fs_fsucc :: "succs list"
  fs_stamp :: "nat list"
  fs_local :: "nat list"
  fs_var_pairs :: "(nat \<times> nat) list"

text \<open>The variables that a block of function \<open>f\<close> binds to the function itself.\<close>

definition self_pairs :: "instr list \<Rightarrow> nat \<Rightarrow> bblock \<Rightarrow> (nat \<times> nat) list" where
  "self_pairs instrs f b =
     (if bk_has_self b
      then concat (map (\<lambda>ins. case in_arg ins 0 of
             Opd_Int v \<Rightarrow> if in_op ins = Op_SetVarSelf \<and> 0 \<le> sint v then [(idx v, f)] else [] | _ \<Rightarrow> [])
           (take (bk_end b - bk_start b) (drop (bk_start b) instrs)))
      else [])"

text \<open>The loop over the sorted blocks: local numbers, the register limit, the pairs.\<close>

fun number_blocks ::
  "instr list \<Rightarrow> bblock list \<Rightarrow> nat \<Rightarrow> (nat \<times> nat) list \<Rightarrow> nat list \<times> nat \<times> (nat \<times> nat) list
    \<Rightarrow> fc_error + nat list \<times> nat \<times> (nat \<times> nat) list"
where
  "number_blocks instrs blocks f [] acc = Inr acc"
| "number_blocks instrs blocks f ((k, b) # kbs) (local, max_reg, pairs) =
     (let blk = blocks ! b in
      if MAX_REGISTER \<le> bk_max_reg blk then Inl (FcRegister (bk_reg_pc blk) (bk_max_reg blk))
      else number_blocks instrs blocks f kbs
             (local[b := k], max max_reg (bk_max_reg blk), pairs @ self_pairs instrs f blk))"

definition func_step ::
  "instr list \<Rightarrow> bblock list \<Rightarrow> nat list \<Rightarrow> nat \<times> nat \<Rightarrow> funcs_state \<Rightarrow> fc_error + funcs_state" where
  "func_step instrs blocks block_at fe st =
     (let (f, entry) = fe; s = f + 1; first = length (fs_fblocks st); eb = block_at ! entry;
          (found, stamp) = dfs blocks s [eb] ((fs_stamp st)[eb := s]) [];
          bs = sort found
      in res_bind (number_blocks instrs blocks f (enumerate 0 bs) (fs_local st, 3, fs_var_pairs st))
           (\<lambda>(local, max_reg, pairs).
             let succ = (\<lambda>b. (map_option (\<lambda>t. local ! t) (fst (bk_succ (blocks ! b))),
                              map_option (\<lambda>t. local ! t) (snd (bk_succ (blocks ! b))))) in
             Inr \<lparr>fs_funcs = fs_funcs st @ [\<lparr>fn_first = first, fn_count = length bs, fn_entry = local ! eb,
                    fn_nregs = max_reg + 1\<rparr>],
                  fs_fblocks = fs_fblocks st @ bs, fs_fsucc = fs_fsucc st @ map succ bs, fs_stamp = stamp,
                  fs_local = local, fs_var_pairs = pairs\<rparr>))"

fun func_loop ::
  "instr list \<Rightarrow> bblock list \<Rightarrow> nat list \<Rightarrow> (nat \<times> nat) list \<Rightarrow> funcs_state \<Rightarrow> fc_error + funcs_state" where
  "func_loop instrs blocks block_at [] st = Inr st"
| "func_loop instrs blocks block_at (fe # fes) st =
     res_bind (func_step instrs blocks block_at fe st) (func_loop instrs blocks block_at fes)"

subsection \<open>What closures are bound to\<close>

datatype binding = BindVar nat | BindMethod nat | BindNone

text \<open>
  From the instruction after a closure, at most 256 instructions along the straight line:
  the first one that reads the register decides, and an overwritten register ends the scan.
\<close>

definition bind_use :: "keyname list \<Rightarrow> nat \<Rightarrow> instr \<Rightarrow> aux \<Rightarrow> binding" where
  "bind_use names r cur a =
     (if (in_op cur = Op_AssignVar \<or> in_op cur = Op_SetVar) \<and> in_arg cur 1 = Opd_Reg r
      then (case in_arg cur 0 of Opd_Int v \<Rightarrow> if 0 \<le> sint v then BindVar (idx v) else BindNone | _ \<Rightarrow> BindNone)
      else if in_op cur = Op_SetProp \<and> in_arg cur 2 = Opd_Reg r \<and> in_arg cur 0 \<noteq> Opd_Reg r
      then (case ax_key a of
              Some k \<Rightarrow> (case names ! k of KIndex _ \<Rightarrow> BindNone | _ \<Rightarrow> BindMethod k) | None \<Rightarrow> BindNone)
      else BindNone)"

fun bind_scan :: "instr list \<Rightarrow> aux list \<Rightarrow> succs list \<Rightarrow> keyname list \<Rightarrow> nat \<Rightarrow> nat option \<Rightarrow> nat \<Rightarrow> binding" where
  "bind_scan instrs auxs succ names r j 0 = BindNone"
| "bind_scan instrs auxs succ names r None (Suc n) = BindNone"
| "bind_scan instrs auxs succ names r (Some j) (Suc n) =
     (let cur = instrs ! j in
      if Opd_Reg r \<in> set (operands_of cur) then bind_use names r cur (auxs ! j)
      else if in_dest cur = Some r \<or> in_op cur = Op_CallM \<and> r = 2 then BindNone
      else case op_flow (in_op cur) of
        Flow_Next \<Rightarrow> bind_scan instrs auxs succ names r (fst (succ ! j)) n
      | Flow_Jump \<Rightarrow> bind_scan instrs auxs succ names r (fst (succ ! j)) n
      | _ \<Rightarrow> BindNone)"

definition bind_step ::
  "instr list \<Rightarrow> aux list \<Rightarrow> succs list \<Rightarrow> keyname list \<Rightarrow> (nat \<times> nat) list \<times> (nat \<times> nat) list \<Rightarrow> nat \<times> instr
    \<Rightarrow> (nat \<times> nat) list \<times> (nat \<times> nat) list"
where
  "bind_step instrs auxs succ names vm ii =
     (let (i, ins) = ii in
      case (in_op ins = Op_Closure, in_dest ins, ax_site (auxs ! i)) of
        (True, Some r, Some f) \<Rightarrow>
          (case bind_scan instrs auxs succ names r (fst (succ ! i)) BIND_SCAN of
             BindVar v \<Rightarrow> (fst vm @ [(v, f)], snd vm)
           | BindMethod k \<Rightarrow> (fst vm, snd vm @ [(k, f)])
           | BindNone \<Rightarrow> vm)
      | _ \<Rightarrow> vm)"

subsection \<open>Program::build\<close>

definition lookup_key :: "u16 list \<Rightarrow> pass \<Rightarrow> pool_ref \<Rightarrow> nat option" where
  "lookup_key pool sc r =
     (case key_name (Opd_Str r) pool of Some name \<Rightarrow> sc_by_name sc name | None \<Rightarrow> None)"

definition build_program :: "instr list \<Rightarrow> u16 list \<Rightarrow> pow_keys \<Rightarrow> fc_error + program" where
  "build_program instrs pool keys =
     (let n = length instrs in
      if n = 0 then Inl FcEmpty
      else if MAX_INSTRS \<le> n then Inl (FcTooLarge n)
      else res_bind (pass_loop instrs pool (enumerate 0 instrs) (scan_init n)) (\<lambda>sc.
        let (blocks, block_at) = make_blocks instrs (sc_lead sc);
            blocks = map (link_block (sc_succ sc) block_at) blocks;
            nblocks = length blocks;
            nfuncs = length (sc_entries sc)
        in res_bind (func_loop instrs blocks block_at (enumerate 0 (sc_entries sc))
               \<lparr>fs_funcs = [], fs_fblocks = [], fs_fsucc = [], fs_stamp = replicate nblocks 0,
                fs_local = replicate nblocks 0, fs_var_pairs = []\<rparr>) (\<lambda>fs.
        let (var_pairs, method_pairs) =
              foldl (bind_step instrs (sc_aux sc) (sc_succ sc) (sc_names sc)) (fs_var_pairs fs, []) (enumerate 0 instrs);
            (var_off, var_items) = csr var_pairs (sc_nvars sc);
            (method_off, method_items) = csr method_pairs (length (sc_names sc))
        in Inr \<lparr>p_instrs = instrs, p_aux = sc_aux sc, p_names = sc_names sc, p_wild = length (sc_names sc),
             p_blocks = blocks, p_fblocks = fs_fblocks fs, p_fsucc = fs_fsucc fs, p_funcs = fs_funcs fs,
             p_nvars = sc_nvars sc, p_var_off = var_off, p_var_items = var_items, p_method_off = method_off,
             p_method_items = method_items, p_ids = [0..<nfuncs], p_site_len = sc_site_len sc,
             p_nallocs = sc_nallocs sc,
             p_pow = map (lookup_key pool sc) [pk_difficulty keys, pk_sub_count keys, pk_seed_suffix keys, pk_seed_phrase keys],
             p_dyn_key = sc_dyn_key sc, p_ff_key = sc_ff_key sc, p_hdr_key = sc_hdr_key sc, p_seeded = sc_seeded sc\<rparr>)))"

subsection \<open>Reading the program\<close>

definition row :: "nat list \<Rightarrow> nat list \<Rightarrow> nat \<Rightarrow> nat list option" where
  "row off items x =
     (case (get off x, get off (x + 1)) of (Some a, Some b) \<Rightarrow> get_range items a b | _ \<Rightarrow> None)"

text \<open>\<open>None\<close> is an index out of range.\<close>

definition targets :: "program \<Rightarrow> tag \<Rightarrow> nat list option" where
  "targets p c =
     (case tag_get c of
        None \<Rightarrow> Some []
      | Some v \<Rightarrow>
          let x = v div 4 in
          if v mod 4 = ENTRY then get_range (p_ids p) x (x + 1)
          else if v mod 4 = VAR then row (p_var_off p) (p_var_items p) x
          else row (p_method_off p) (p_method_items p) x)"

definition var_of :: "program \<Rightarrow> operand \<Rightarrow> nat option" where
  "var_of p opd = (case opd of Opd_Int v \<Rightarrow> if 0 \<le> sint v \<and> idx v < p_nvars p then Some (idx v) else None | _ \<Rightarrow> None)"

definition LIT_NAMES :: "str list" where
  "LIT_NAMES = [chars ''true'', chars ''false'', chars ''null'', chars ''undefined'']"

definition key_string :: "keyname \<Rightarrow> str" where
  "key_string k = (case k of KUnits u \<Rightarrow> units_to_string u | KIndex i \<Rightarrow> idec i | KLit l \<Rightarrow> LIT_NAMES ! l)"

end
