(* ===== verification/FcSolver.thy ===== *)
theory FcSolver
  imports FcProgram FcApply "HOL-Library.Monad_Syntax"
begin

text \<open>
  \<open>src/worktime/fc.rs\<close>, \<open>Solver\<close>: the flow analysis. Locations hold a value each: variables,
  fields, one for unknown keys, the results and receivers of functions, the exception, the
  contents of arrays. A run of a function interprets its blocks until its register states
  are stable; a location that changes visibly queues the functions that have read it. The
  solver runs the queued functions until none is left.

  The fields of \<open>Solver\<close> that never change are the record \<open>env\<close>, the others the record
  \<open>sol\<close>. Every operation passes the state on explicitly; \<open>None\<close> is an index out of range.
\<close>

subsection \<open>State\<close>

abbreviation (input) MAX_PATHS :: nat where "MAX_PATHS \<equiv> 1073741824"
abbreviation (input) ROOT :: nat where "ROOT \<equiv> 0"

record env =
  e_p :: program
  e_elem_off :: "nat list"
  e_elem_len :: "nat list"
  e_field_base :: nat
  e_any :: nat
  e_ret_base :: nat
  e_this_base :: nat
  e_exc :: nat
  e_sum_base :: nat
  e_elem_base :: nat

record sol =
  s_vals :: "aval list"
  s_marks :: "nat list"
  s_rhead :: "nat option list"
  s_redge :: "(nat \<times> nat option) list"
  s_seen :: "(nat \<times> nat) set"
  s_paths :: "(nat \<times> nat) option list"
  s_path_ids :: "nat \<times> nat \<Rightarrow> nat option"
  s_queue :: "nat list"
  s_queued :: "bool list"
  s_query :: "taint list"
  s_fired :: "bool list"
  s_cur :: nat
  s_run_id :: nat
  s_dyn_path :: taint
  s_ff_path :: taint

text \<open>A loop that may panic.\<close>

fun foldM :: "('a \<Rightarrow> 's \<Rightarrow> 's option) \<Rightarrow> 'a list \<Rightarrow> 's \<Rightarrow> 's option" where
  "foldM f [] s = Some s"
| "foldM f (x # xs) s = do { s' \<leftarrow> f x s; foldM f xs s' }"

definition set_at :: "'a list \<Rightarrow> nat \<Rightarrow> 'a \<Rightarrow> 'a list option" where
  "set_at xs i x = (if i < length xs then Some (xs[i := x]) else None)"

subsection \<open>Paths\<close>

text \<open>A path is its parent and its last key; the root has neither.\<close>

definition child :: "nat \<Rightarrow> nat \<Rightarrow> bool \<Rightarrow> sol \<Rightarrow> taint \<times> sol" where
  "child parent key derived s =
     (case s_path_ids s (parent, key) of
        Some i \<Rightarrow> (taint_path i derived, s)
      | None \<Rightarrow>
          if MAX_PATHS \<le> length (s_paths s) then (OPAQUE, s)
          else let i = length (s_paths s) in
            (taint_path i derived,
             s\<lparr>s_paths := s_paths s @ [Some (parent, key)], s_path_ids := (s_path_ids s)((parent, key) \<mapsto> i)\<rparr>))"

definition ext :: "taint \<Rightarrow> nat \<Rightarrow> sol \<Rightarrow> taint \<times> sol" where
  "ext t key s =
     (case split_taint t of
        Some (parent, derived) \<Rightarrow> child parent key (derived \<and> parent \<noteq> ROOT) s
      | None \<Rightarrow> (t, s))"

definition from_any :: "env \<Rightarrow> taint \<Rightarrow> nat \<Rightarrow> sol \<Rightarrow> (taint \<times> sol) option" where
  "from_any e any key s =
     (case split_taint any of
        None \<Rightarrow> Some (any, s)
      | Some (i, derived) \<Rightarrow>
          if i = ROOT then Some (any, s)
          else do {
            pk \<leftarrow> get (s_paths s) i;
            case pk of
              Some (parent, k) \<Rightarrow> Some (if k = p_wild (e_p e) then child parent key derived s else (any, s))
            | None \<Rightarrow> Some (any, s) })"

text \<open>The names along a path; the inner \<open>None\<close> is a step by an unknown key.\<close>

function render_from :: "env \<Rightarrow> sol \<Rightarrow> nat \<Rightarrow> str list \<Rightarrow> str list option option" where
  "render_from e s i steps =
     (if i = ROOT then Some (Some steps)
      else case get (s_paths s) i of
        Some (Some (parent, key)) \<Rightarrow>
          if key = p_wild (e_p e) then Some None
          else (case get (p_names (e_p e)) key of
            None \<Rightarrow> None
          | Some name \<Rightarrow> if parent < i then render_from e s parent (key_string name # steps) else None)
      | _ \<Rightarrow> None)"
  by pat_completeness auto
termination
  by (relation "measure (\<lambda>(e, s, i, steps). i)") auto

declare render_from.simps [simp del]

definition render :: "env \<Rightarrow> sol \<Rightarrow> nat \<Rightarrow> str list option option" where
  "render e s i = render_from e s i []"

subsection \<open>Locations\<close>

text \<open>Reading records, once for a run, that the running function reads the location.\<close>

definition rd :: "nat \<Rightarrow> sol \<Rightarrow> (aval \<times> sol) option" where
  "rd loc s = do {
     v \<leftarrow> get (s_vals s) loc;
     mark \<leftarrow> get (s_marks s) loc;
     s' \<leftarrow> (if mark = s_run_id s then Some s
       else do {
         let s = s\<lparr>s_marks := (s_marks s)[loc := s_run_id s]\<rparr>;
         head \<leftarrow> get (s_rhead s) loc;
         other \<leftarrow> (case head of None \<Rightarrow> Some True
                   | Some h \<Rightarrow> do { edge \<leftarrow> get (s_redge s) h; Some (fst edge \<noteq> s_cur s) });
         Some (if other \<and> (loc, s_cur s) \<notin> s_seen s
               then s\<lparr>s_seen := insert (loc, s_cur s) (s_seen s), s_rhead := (s_rhead s)[loc := Some (length (s_redge s))],
                      s_redge := s_redge s @ [(s_cur s, head)]\<rparr>
               else s) });
     Some (v, s') }"

text \<open>The readers of a location are a linked list whose links go to older entries.\<close>

function notify_from :: "nat option \<Rightarrow> sol \<Rightarrow> sol option" where
  "notify_from h s =
     (case h of
        None \<Rightarrow> Some s
      | Some i \<Rightarrow>
          (case get (s_redge s) i of
             None \<Rightarrow> None
           | Some (f, link) \<Rightarrow>
               (case get (s_queued s) f of
                  None \<Rightarrow> None
                | Some q \<Rightarrow>
                    let s' = (if q then s else s\<lparr>s_queued := (s_queued s)[f := True], s_queue := s_queue s @ [f]\<rparr>) in
                    if (case link of Some j \<Rightarrow> j < i | None \<Rightarrow> True) then notify_from link s' else None)))"
  by pat_completeness auto
termination
  by (relation "measure (\<lambda>(h, s). case h of None \<Rightarrow> 0 | Some i \<Rightarrow> Suc i)") (auto split: option.splits)

declare notify_from.simps [simp del]

definition notify :: "nat \<Rightarrow> sol \<Rightarrow> sol option" where
  "notify loc s = do { head \<leftarrow> get (s_rhead s) loc; notify_from head s }"

text \<open>Whether a change of a location can matter to its readers.\<close>

definition observable :: "env \<Rightarrow> nat \<Rightarrow> aval \<Rightarrow> aval \<Rightarrow> bool" where
  "observable e loc old new \<longleftrightarrow>
     (if loc < e_field_base e then val_live new \<noteq> val_live old
      else if e_ret_base e \<le> loc \<and> loc < e_this_base e \<or> e_elem_base e \<le> loc then True
      else vt new \<noteq> vt old)"

definition wr :: "env \<Rightarrow> nat \<Rightarrow> aval \<Rightarrow> sol \<Rightarrow> sol option" where
  "wr e loc v s = do {
     old \<leftarrow> get (s_vals s) loc;
     let new = val_join old v;
     if new = old then Some s
     else do {
       let s = s\<lparr>s_vals := (s_vals s)[loc := new]\<rparr>;
       if observable e loc old new then notify loc s else Some s } }"

definition find_elem :: "env \<Rightarrow> nat \<Rightarrow> int \<Rightarrow> nat option" where
  "find_elem e site i = do {
     off \<leftarrow> get (e_elem_off e) site;
     len \<leftarrow> get (e_elem_len e) site;
     Some (if 0 \<le> i \<and> nat i < len then off + nat i else off + len) }"

definition rd_elem :: "env \<Rightarrow> nat \<Rightarrow> int \<Rightarrow> sol \<Rightarrow> (aval \<times> sol) option" where
  "rd_elem e site i s = do { l \<leftarrow> find_elem e site i; rd l s }"

definition wr_elem :: "env \<Rightarrow> nat \<Rightarrow> int \<Rightarrow> aval \<Rightarrow> sol \<Rightarrow> sol option" where
  "wr_elem e site i v s = do {
     l \<leftarrow> find_elem e site i;
     s \<leftarrow> wr e l v s;
     wr e (e_sum_base e + site) v s }"

abbreviation (input) ANY :: int where "ANY \<equiv> -1"

definition spread :: "env \<Rightarrow> aval \<Rightarrow> sol \<Rightarrow> (taint \<times> sol) option" where
  "spread e v s =
     (case tag_get (va v) of
        Some site \<Rightarrow> do { (w, s) \<leftarrow> rd (e_sum_base e + site) s; Some (taint_join (vt v) (vt w), s) }
      | None \<Rightarrow> Some (vt v, s))"

subsection \<open>Calls\<close>

text \<open>A call with unknown arguments of every function that a value may be.\<close>

definition invoke_one :: "env \<Rightarrow> taint \<Rightarrow> nat \<Rightarrow> taint \<times> sol \<Rightarrow> (taint \<times> sol) option" where
  "invoke_one e input g ts = do {
     s \<leftarrow> wr_elem e (p_nallocs (e_p e) + g) ANY (val_taint input) (snd ts);
     (r, s) \<leftarrow> rd (e_ret_base e + g) s;
     Some (taint_join (fst ts) (taint_derive (vt r)), s) }"

definition invoke :: "env \<Rightarrow> tag \<Rightarrow> taint \<Rightarrow> sol \<Rightarrow> (taint \<times> sol) option" where
  "invoke e c input s = do { gs \<leftarrow> targets (e_p e) c; foldM (invoke_one e input) gs (CLEAN, s) }"

definition callback_elem :: "env \<Rightarrow> taint \<Rightarrow> nat \<Rightarrow> taint \<times> sol \<Rightarrow> (taint \<times> sol) option" where
  "callback_elem e input loc ts = do {
     (w, s) \<leftarrow> rd loc (snd ts);
     (t, s) \<leftarrow> invoke e (vc w) input s;
     Some (taint_join (fst ts) t, s) }"

definition callback :: "env \<Rightarrow> aval \<Rightarrow> taint \<Rightarrow> sol \<Rightarrow> (taint \<times> sol) option" where
  "callback e v input s = do {
     ts \<leftarrow> invoke e (vc v) input s;
     case tag_get (va v) of
       None \<Rightarrow> Some ts
     | Some site \<Rightarrow> do {
         off \<leftarrow> get (e_elem_off e) site;
         len \<leftarrow> get (e_elem_len e) site;
         foldM (callback_elem e input) [off..<off + len + 1] ts } }"

definition call_target :: "env \<Rightarrow> aval option \<Rightarrow> aval list \<Rightarrow> aval \<Rightarrow> nat \<Rightarrow> aval \<times> sol \<Rightarrow> (aval \<times> sol) option" where
  "call_target e thisv args rest g vs = do {
     let site = p_nallocs (e_p e) + g;
     s \<leftarrow> foldM (\<lambda>(k, a) s. wr_elem e site (int k) a s) (enumerate 0 args) (snd vs);
     s \<leftarrow> (if rest \<noteq> VBOTTOM then wr_elem e site ANY rest s else Some s);
     s \<leftarrow> (case thisv of Some th \<Rightarrow> wr e (e_this_base e + g) (val_field (vt th)) s | None \<Rightarrow> Some s);
     (r, s) \<leftarrow> rd (e_ret_base e + g) s;
     Some (val_join (fst vs) r, s) }"

text \<open>A call whose target is not known: everything that goes in may come out or be called back.\<close>

definition call_spread :: "env \<Rightarrow> aval \<Rightarrow> bool \<Rightarrow> aval option \<Rightarrow> aval list \<Rightarrow> aval \<Rightarrow> sol \<Rightarrow> (taint \<times> sol) option" where
  "call_spread e fnv is_meth thisv args rest s = do {
     (t, s) \<leftarrow> (case thisv of
         Some th \<Rightarrow> do { (x, s) \<leftarrow> spread e th s; Some (taint_join (if is_meth then CLEAN else vt fnv) x, s) }
       | None \<Rightarrow> Some (vt fnv, s));
     (t, s) \<leftarrow> foldM (\<lambda>a (t, s). do { (x, s) \<leftarrow> spread e a s; Some (taint_join t x, s) }) args (t, s);
     (x, s) \<leftarrow> spread e rest s;
     Some (taint_derive (taint_join t x), s) }"

definition call_unknown :: "env \<Rightarrow> aval \<Rightarrow> bool \<Rightarrow> aval option \<Rightarrow> aval list \<Rightarrow> aval \<Rightarrow> sol \<Rightarrow> (taint \<times> sol) option" where
  "call_unknown e fnv is_meth thisv args rest s = do {
     (t, s) \<leftarrow> call_spread e fnv is_meth thisv args rest s;
     (r, s) \<leftarrow> (case thisv of
         None \<Rightarrow> Some (t, s)
       | Some th \<Rightarrow> do {
           (x, s) \<leftarrow> callback e th t s;
           s \<leftarrow> (case tag_get (va th) of Some site \<Rightarrow> wr_elem e site ANY (val_taint t) s | None \<Rightarrow> Some s);
           Some (taint_join t x, s) });
     (r, s) \<leftarrow> foldM (\<lambda>a (r, s). do { (x, s) \<leftarrow> callback e a t s; Some (taint_join r x, s) }) args (r, s);
     (x, s) \<leftarrow> callback e rest t s;
     Some (taint_join r x, s) }"

definition call :: "env \<Rightarrow> nat \<Rightarrow> aval \<Rightarrow> aval option \<Rightarrow> aval list \<Rightarrow> aval \<Rightarrow> sol \<Rightarrow> (aval \<times> sol) option" where
  "call e i fnv thisv args rest s = do {
     gs \<leftarrow> targets (e_p e) (vc fnv);
     let is_meth = is_method (vc fnv);
     (out, s) \<leftarrow> foldM (call_target e thisv args rest) gs (VBOTTOM, s);
     let out = val_live out;
     (out, s) \<leftarrow> (if gs = [] \<or> is_meth
       then do {
         (r, s) \<leftarrow> call_unknown e fnv is_meth thisv args rest s;
         Some (if gs = [] then val_taint r else out\<lparr>vt := taint_join (vt out) r\<rparr>, s) }
       else Some (out, s));
     if list_ex (\<lambda>a. vh a = TAG_YES) args \<or> vh rest = TAG_YES
     then do {
       fired \<leftarrow> set_at (s_fired s) i True;
       Some (out\<lparr>vt := taint_join (vt out) (taint_path ROOT False)\<rparr>, s\<lparr>s_fired := fired\<rparr>) }
     else Some (out, s) }"

definition expand_elem :: "nat \<Rightarrow> aval list \<times> sol \<Rightarrow> (aval list \<times> sol) option" where
  "expand_elem loc bs = do { (v, s) \<leftarrow> rd loc (snd bs); Some (fst bs @ [v], s) }"

definition expand :: "env \<Rightarrow> aval \<Rightarrow> sol \<Rightarrow> (aval list \<times> aval \<times> sol) option" where
  "expand e arr s =
     (case tag_get (va arr) of
        Some site \<Rightarrow> do {
          off \<leftarrow> get (e_elem_off e) site;
          len \<leftarrow> get (e_elem_len e) site;
          (buf, s) \<leftarrow> foldM expand_elem [off..<off + len] ([], s);
          (rest, s) \<leftarrow> rd (off + len) s;
          Some (buf, rest, s) }
      | None \<Rightarrow> Some ([], val_taint (vt arr), s))"

subsection \<open>Instructions\<close>

definition opv :: "aval list \<Rightarrow> operand \<Rightarrow> bool \<Rightarrow> aval option" where
  "opv regs opd hdr =
     (case opd of
        Opd_Reg r \<Rightarrow> get regs r
      | _ \<Rightarrow> Some (PLAIN\<lparr>vh := if hdr then TAG_YES else TAG_CONFLICT\<rparr>))"

definition fire :: "nat \<Rightarrow> sol \<Rightarrow> sol option" where
  "fire i s = do { fired \<leftarrow> set_at (s_fired s) i True; Some (s\<lparr>s_fired := fired\<rparr>) }"

text \<open>A read of a property whose name is not known.\<close>

definition get_prop_any :: "env \<Rightarrow> nat \<Rightarrow> instr \<Rightarrow> aval list \<Rightarrow> aval \<Rightarrow> taint \<Rightarrow> sol \<Rightarrow> (aval \<times> sol) option" where
  "get_prop_any e i ins regs obj any s = do {
     let (x, s) = ext (vt obj) (p_wild (e_p e)) s;
     let t = taint_join x any;
     (t, s) \<leftarrow> (case tag_get (va obj) of
         Some site \<Rightarrow> do { (w, s) \<leftarrow> rd (e_sum_base e + site) s; Some (taint_join t (vt w), s) }
       | None \<Rightarrow> Some (t, s));
     (case in_arg ins 1 of
        Opd_Reg k \<Rightarrow> do {
          kv \<leftarrow> get regs k;
          if vh kv = TAG_YES
          then do { s \<leftarrow> fire i s; Some (val_taint (taint_join t (taint_path ROOT False)), s) }
          else Some (val_taint t, s) }
      | _ \<Rightarrow> Some (val_taint t, s)) }"

definition get_prop_named :: "env \<Rightarrow> nat \<Rightarrow> aval \<Rightarrow> taint \<Rightarrow> sol \<Rightarrow> (aval \<times> sol) option" where
  "get_prop_named e kid obj base s = do {
     name \<leftarrow> get (p_names (e_p e)) kid;
     (case (tag_get (va obj), name) of
        (site, KIndex ix) \<Rightarrow>
          (if site \<noteq> None \<and> 0 \<le> ix \<and> ix < MAX_INDEX
           then do {
             (a, s) \<leftarrow> rd_elem e (the site) ix s;
             (b, s) \<leftarrow> rd_elem e (the site) ANY s;
             let w = val_live (val_join a b);
             Some (w\<lparr>vt := taint_join base (vt w)\<rparr>, s) }
           else do {
             (w, s) \<leftarrow> rd (e_field_base e + kid) s;
             Some (val_taint (taint_join base (vt w)), s) })
      | _ \<Rightarrow> do {
          (w, s) \<leftarrow> rd (e_field_base e + kid) s;
          Some (\<lparr>vt = taint_join base (vt w), vc = tag_callee METHOD kid, va = TAG_CONFLICT, vh = TAG_CONFLICT\<rparr>, s) }) }"

text \<open>The keys that start a path into the document, and the header key.\<close>

definition get_prop_source :: "env \<Rightarrow> nat \<Rightarrow> nat \<Rightarrow> aval \<Rightarrow> sol \<Rightarrow> (aval \<times> sol) option" where
  "get_prop_source e i kid v s =
     (if p_dyn_key (e_p e) = Some kid
      then do { s \<leftarrow> fire i s; Some (v\<lparr>vt := taint_join (vt v) (s_dyn_path s)\<rparr>, s) }
      else if p_ff_key (e_p e) = Some kid
      then do { s \<leftarrow> fire i s; Some (v\<lparr>vt := taint_join (vt v) (s_ff_path s)\<rparr>, s) }
      else if p_hdr_key (e_p e) = Some kid
      then do { s \<leftarrow> fire i s; Some (v\<lparr>vt := taint_join (vt v) (taint_path ROOT False)\<rparr>, s) }
      else Some (v, s))"

definition query_keys :: "env \<Rightarrow> nat \<Rightarrow> taint \<Rightarrow> taint list \<Rightarrow> taint list" where
  "query_keys e kid t query =
     foldl (\<lambda>q j. if p_pow (e_p e) ! j = Some kid then q[j := taint_join (q ! j) t] else q) query [0..<4]"

definition get_prop :: "env \<Rightarrow> nat \<Rightarrow> instr \<Rightarrow> aux \<Rightarrow> aval list \<Rightarrow> sol \<Rightarrow> (aval \<times> sol) option" where
  "get_prop e i ins ax regs s = do {
     obj \<leftarrow> opv regs (in_arg ins 0) False;
     (w, s) \<leftarrow> rd (e_any e) s;
     let any = vt w;
     (case ax_key ax of
        None \<Rightarrow> get_prop_any e i ins regs obj any s
      | Some kid \<Rightarrow> do {
          (base, s) \<leftarrow> (if vt obj = CLEAN then from_any e any kid s else Some (ext (vt obj) kid s));
          (v, s) \<leftarrow> get_prop_named e kid obj base s;
          (v, s) \<leftarrow> get_prop_source e i kid v s;
          Some (v, s\<lparr>s_query := query_keys e kid (vt v) (s_query s)\<rparr>) }) }"

definition set_prop :: "env \<Rightarrow> instr \<Rightarrow> aux \<Rightarrow> aval list \<Rightarrow> sol \<Rightarrow> sol option" where
  "set_prop e ins ax regs s = do {
     obj \<leftarrow> opv regs (in_arg ins 0) False;
     v \<leftarrow> opv regs (in_arg ins 2) (bit (ax_hdr ax) 2);
     (case ax_key ax of
        None \<Rightarrow>
          (case tag_get (va obj) of
             Some site \<Rightarrow> wr_elem e site ANY v s
           | None \<Rightarrow> wr e (e_any e) (val_field (vt v)) s)
      | Some kid \<Rightarrow> do {
          name \<leftarrow> get (p_names (e_p e)) kid;
          (case (tag_get (va obj), name) of
             (Some site, KIndex ix) \<Rightarrow>
               if 0 \<le> ix \<and> ix < MAX_INDEX then wr_elem e site ix v s
               else wr e (e_field_base e + kid) (val_field (vt v)) s
           | _ \<Rightarrow> wr e (e_field_base e + kid) (val_field (vt v)) s) }) }"

text \<open>The operands of a call as values.\<close>

fun opvs :: "aval list \<Rightarrow> u8 \<Rightarrow> (nat \<times> operand) list \<Rightarrow> aval list option" where
  "opvs regs hdr [] = Some []"
| "opvs regs hdr ((k, opd) # kos) = do {
     v \<leftarrow> opv regs opd (bit hdr k);
     vs \<leftarrow> opvs regs hdr kos;
     Some (v # vs) }"

fun join_operands :: "aval list \<Rightarrow> operand list \<Rightarrow> taint \<Rightarrow> taint option" where
  "join_operands regs [] t = Some t"
| "join_operands regs (opd # opds) t = do {
     v \<leftarrow> opv regs opd False;
     join_operands regs opds (taint_join t (vt v)) }"

definition read_var :: "env \<Rightarrow> nat \<Rightarrow> sol \<Rightarrow> (aval \<times> sol) option" where
  "read_var e v s = do {
     (w, s) \<leftarrow> rd v s;
     a \<leftarrow> get (p_var_off (e_p e)) v;
     b \<leftarrow> get (p_var_off (e_p e)) (v + 1);
     let w = val_live w;
     Some (w\<lparr>vc := if a = b then vc w else tag_callee VAR v\<rparr>, s) }"

text \<open>What an instruction leaves in its destination (\<open>None\<close> inside: nothing), or \<open>regs[2]\<close> after \<open>CallM\<close>.\<close>

definition transfer_value :: "env \<Rightarrow> nat \<Rightarrow> nat \<Rightarrow> instr \<Rightarrow> aux \<Rightarrow> aval list \<Rightarrow> sol \<Rightarrow> (aval option \<times> sol) option" where
  "transfer_value e f i ins ax regs s =
     (case in_op ins of
        Op_Mov \<Rightarrow> do { v \<leftarrow> opv regs (in_arg ins 0) (bit (ax_hdr ax) 0); Some (Some v, s) }
      | Op_GetVar \<Rightarrow>
          (case var_of (e_p e) (in_arg ins 0) of
             Some v \<Rightarrow> do { (w, s) \<leftarrow> read_var e v s; Some (Some w, s) }
           | None \<Rightarrow> Some (Some PLAIN, s))
      | Op_GetExc \<Rightarrow> do { (w, s) \<leftarrow> rd (e_exc e) s; Some (Some (val_taint (vt w)), s) }
      | Op_This \<Rightarrow> do { (w, s) \<leftarrow> rd (e_this_base e + f) s; Some (Some (val_taint (vt w)), s) }
      | Op_Closure \<Rightarrow> do { site \<leftarrow> ax_site ax; Some (Some (PLAIN\<lparr>vc := tag_callee ENTRY site\<rparr>), s) }
      | Op_NewArr \<Rightarrow> do { site \<leftarrow> ax_site ax; Some (Some (PLAIN\<lparr>va := tag_of site\<rparr>), s) }
      | Op_NewArrN \<Rightarrow> do { site \<leftarrow> ax_site ax; Some (Some (PLAIN\<lparr>va := tag_of site\<rparr>), s) }
      | Op_NewObj \<Rightarrow> Some (Some PLAIN, s)
      | Op_Global \<Rightarrow> Some (Some PLAIN, s)
      | Op_RegenRt \<Rightarrow> Some (Some PLAIN, s)
      | Op_PromiseCtor \<Rightarrow> Some (Some PLAIN, s)
      | Op_GetProp \<Rightarrow> do { (w, s) \<leftarrow> get_prop e i ins ax regs s; Some (Some w, s) }
      | Op_New \<Rightarrow> do {
          fnv \<leftarrow> opv regs (in_arg ins 0) False;
          arr \<leftarrow> opv regs (in_arg ins 1) False;
          (buf, rest, s) \<leftarrow> expand e arr s;
          (r, s) \<leftarrow> call e i fnv None buf rest s;
          Some (Some r, s) }
      | opn \<Rightarrow>
          if opn = Op_Call0 \<or> opn = Op_Call1 \<or> opn = Op_Call2 \<or> opn = Op_Call3
          then do {
            fnv \<leftarrow> opv regs (in_arg ins 0) False;
            buf \<leftarrow> opvs regs (ax_hdr ax) (map (\<lambda>k. (k, in_arg ins k)) [1..<in_argc ins]);
            (r, s) \<leftarrow> call e i fnv None buf VBOTTOM s;
            Some (Some r, s) }
          else if in_dest ins = None then Some (None, s)
          else do {
            t \<leftarrow> join_operands regs (operands_of ins) CLEAN;
            Some (Some (val_taint (taint_derive t)), s) })"

text \<open>The instructions that return early, without a destination.\<close>

definition transfer_effect :: "env \<Rightarrow> nat \<Rightarrow> nat \<Rightarrow> instr \<Rightarrow> aux \<Rightarrow> aval list \<Rightarrow> sol \<Rightarrow> (aval list \<times> sol) option option" where
  "transfer_effect e f i ins ax regs s =
     (case in_op ins of
        Op_SetVarExc \<Rightarrow> Some
          (case var_of (e_p e) (in_arg ins 0) of
             Some v \<Rightarrow> do { (w, s) \<leftarrow> rd (e_exc e) s; s \<leftarrow> wr e v (val_taint (vt w)) s; Some (regs, s) }
           | None \<Rightarrow> Some (regs, s))
      | Op_Throw \<Rightarrow> Some (do {
          v \<leftarrow> opv regs (in_arg ins 0) False; s \<leftarrow> wr e (e_exc e) (val_field (vt v)) s; Some (regs, s) })
      | Op_Ret \<Rightarrow> Some (do {
          v \<leftarrow> opv regs (in_arg ins 0) (bit (ax_hdr ax) 0); s \<leftarrow> wr e (e_ret_base e + f) v s; Some (regs, s) })
      | Op_SetProp \<Rightarrow> Some (do { s \<leftarrow> set_prop e ins ax regs s; Some (regs, s) })
      | Op_CallM \<Rightarrow> Some (do {
          thisv \<leftarrow> opv regs (in_arg ins 0) False;
          fnv \<leftarrow> opv regs (in_arg ins 1) False;
          arr \<leftarrow> opv regs (in_arg ins 2) False;
          (buf, rest, s) \<leftarrow> expand e arr s;
          (r, s) \<leftarrow> call e i fnv (Some thisv) buf rest s;
          regs \<leftarrow> set_at regs 2 r;
          Some (regs, s) })
      | opn \<Rightarrow>
          if opn = Op_AssignVar \<or> opn = Op_SetVar then Some
            (case var_of (e_p e) (in_arg ins 0) of
               Some v \<Rightarrow> do {
                 w \<leftarrow> opv regs (in_arg ins 1) (bit (ax_hdr ax) 1); s \<leftarrow> wr e v w s; Some (regs, s) }
             | None \<Rightarrow> Some (regs, s))
          else None)"

definition transfer :: "env \<Rightarrow> nat \<Rightarrow> nat \<Rightarrow> aval list \<times> sol \<Rightarrow> (aval list \<times> sol) option" where
  "transfer e f i rs = do {
     ins \<leftarrow> get (p_instrs (e_p e)) i;
     ax \<leftarrow> get (p_aux (e_p e)) i;
     (case transfer_effect e f i ins ax (fst rs) (snd rs) of
        Some r \<Rightarrow> r
      | None \<Rightarrow> do {
          (out, s) \<leftarrow> transfer_value e f i ins ax (fst rs) (snd rs);
          (case (out, in_dest ins) of
             (Some v, Some d) \<Rightarrow> do { regs \<leftarrow> set_at (fst rs) d v; Some (regs, s) }
           | _ \<Rightarrow> Some (fst rs, s)) }) }"

subsection \<open>A run of a function\<close>

record flow_state =
  fl_states :: "aval list list"
  fl_reached :: "bool list"
  fl_dirty :: "bool list"

text \<open>The registers at the end of a block flow into a successor.\<close>

definition flow_into :: "aval list \<Rightarrow> nat option \<Rightarrow> flow_state \<Rightarrow> flow_state option" where
  "flow_into regs t fl =
     (case t of
        None \<Rightarrow> Some fl
      | Some b \<Rightarrow> do {
          dst \<leftarrow> get (fl_states fl) b;
          reached \<leftarrow> get (fl_reached fl) b;
          if length dst \<noteq> length regs then None
          else if \<not> reached
          then do {
            dirty \<leftarrow> set_at (fl_dirty fl) b True;
            Some \<lparr>fl_states = (fl_states fl)[b := regs], fl_reached = (fl_reached fl)[b := True], fl_dirty = dirty\<rparr> }
          else let joined = map2 val_join dst regs in
            if joined = dst then Some fl
            else do {
              dirty \<leftarrow> set_at (fl_dirty fl) b True;
              Some (fl\<lparr>fl_states := (fl_states fl)[b := joined], fl_dirty := dirty\<rparr>) } })"

text \<open>One block of a sweep: \<open>progress\<close> says that some block was dirty.\<close>

definition exec_block :: "env \<Rightarrow> nat \<Rightarrow> nat \<Rightarrow> nat \<Rightarrow> bool \<times> flow_state \<times> sol \<Rightarrow> (bool \<times> flow_state \<times> sol) option" where
  "exec_block e f first b pfs = do {
     let (progress, fl, s) = pfs;
     dirty \<leftarrow> get (fl_dirty fl) b;
     if \<not> dirty then Some pfs
     else do {
       let fl = fl\<lparr>fl_dirty := (fl_dirty fl)[b := False]\<rparr>;
       regs \<leftarrow> get (fl_states fl) b;
       fb \<leftarrow> get (p_fblocks (e_p e)) (first + b);
       blk \<leftarrow> get (p_blocks (e_p e)) fb;
       (regs, s) \<leftarrow> foldM (transfer e f) [bk_start blk..<bk_end blk] (regs, s);
       sc \<leftarrow> get (p_fsucc (e_p e)) (first + b);
       fl \<leftarrow> flow_into regs (fst sc) fl;
       fl \<leftarrow> flow_into regs (snd sc) fl;
       Some (True, fl, s) } }"

definition sweep_blocks :: "env \<Rightarrow> nat \<Rightarrow> nat \<Rightarrow> nat \<Rightarrow> flow_state \<Rightarrow> sol \<Rightarrow> (bool \<times> flow_state \<times> sol) option" where
  "sweep_blocks e f first nb fl s = foldM (exec_block e f first) [0..<nb] (False, fl, s)"

text \<open>
  A sweep that makes progress uses something up: a block becomes reached, or a register state
  moves up, or, when neither happens, a dirty block becomes clean.
\<close>

definition unreached :: "flow_state \<Rightarrow> nat" where
  "unreached fl = length (filter Not (fl_reached fl))"

definition state_rooms :: "flow_state \<Rightarrow> nat" where
  "state_rooms fl = sum_list (map val.rooms (fl_states fl))"

definition dirty_count :: "flow_state \<Rightarrow> nat" where
  "dirty_count fl = length (filter id (fl_dirty fl))"

definition moved :: "flow_state \<Rightarrow> flow_state \<Rightarrow> bool" where
  "moved fl fl' \<longleftrightarrow> unreached fl' < unreached fl \<or> unreached fl' = unreached fl \<and> state_rooms fl' < state_rooms fl"

definition used_up :: "flow_state \<Rightarrow> flow_state \<Rightarrow> bool" where
  "used_up fl fl' \<longleftrightarrow> moved fl fl' \<or>
     unreached fl' = unreached fl \<and> state_rooms fl' = state_rooms fl \<and> dirty_count fl' < dirty_count fl"

lemma used_up_trans: "used_up a b \<Longrightarrow> used_up b c \<Longrightarrow> used_up a c"
  by (auto simp: used_up_def moved_def)

lemma moved_trans: "moved a b \<Longrightarrow> moved b c \<Longrightarrow> moved a c"
  by (auto simp: moved_def)

lemma foldM_rel:
  assumes "foldM f xs s = Some s'" "\<And>x s s'. f x s = Some s' \<Longrightarrow> R s s'"
    and "\<And>s. R s s" "\<And>a b c. R a b \<Longrightarrow> R b c \<Longrightarrow> R a c"
  shows "R s s'"
  using assms(1)
proof (induction xs arbitrary: s)
  case Nil
  then show ?case using assms(3) by simp
next
  case (Cons x xs)
  then obtain t where "f x s = Some t" "foldM f xs t = Some s'" by (auto simp: bind_eq_Some_conv)
  then show ?case using Cons.IH assms(2,4) by blast
qed

lemma filter_Not_update:
  "b < length xs \<Longrightarrow> \<not> xs ! b \<Longrightarrow> Suc (length (filter Not (xs[b := True]))) = length (filter Not xs)"
proof (induction xs arbitrary: b)
  case (Cons x xs)
  then show ?case by (cases b) auto
qed simp

lemma filter_id_update:
  "b < length xs \<Longrightarrow> xs ! b \<Longrightarrow> Suc (length (filter id (xs[b := False]))) = length (filter id xs)"
proof (induction xs arbitrary: b)
  case (Cons x xs)
  then show ?case by (cases b) auto
qed simp

lemma sum_list_update_less:
  "i < length xs \<Longrightarrow> f y < f (xs ! i) \<Longrightarrow> sum_list (map f (xs[i := y])) < (sum_list (map f xs) :: nat)"
proof (induction xs arbitrary: i)
  case (Cons x xs)
  then show ?case by (cases i) auto
qed simp

lemma flow_into_moves: "flow_into regs t fl = Some fl' \<Longrightarrow> fl' = fl \<or> moved fl fl'"
proof -
  assume r: "flow_into regs t fl = Some fl'"
  show ?thesis
  proof (cases t)
    case None
    then show ?thesis using r by (simp add: flow_into_def)
  next
    case (Some b)
    then have b: "b < length (fl_states fl)" "b < length (fl_reached fl)" "length (fl_states fl ! b) = length regs"
      using r by (auto simp: flow_into_def bind_eq_Some_conv split: if_splits)
    show ?thesis
    proof (cases "fl_reached fl ! b")
      case False
      then have "unreached fl' < unreached fl"
        using r Some b filter_Not_update[OF b(2)] by (auto simp: flow_into_def bind_eq_Some_conv unreached_def)
      then show ?thesis by (simp add: moved_def)
    next
      case True
      show ?thesis
      proof (cases "map2 val_join (fl_states fl ! b) regs = fl_states fl ! b")
        case True
        then show ?thesis using r Some b \<open>fl_reached fl ! b\<close> by (simp add: flow_into_def Let_def)
      next
        case False
        then have "unreached fl' = unreached fl"
            "fl_states fl' = (fl_states fl)[b := map2 val_join (fl_states fl ! b) regs]"
          using r Some b \<open>fl_reached fl ! b\<close>
          by (auto simp: flow_into_def Let_def bind_eq_Some_conv unreached_def)
        then show ?thesis
          using sum_list_update_less[OF b(1), of val.rooms] val.rooms_zip[OF b(3) False]
          by (simp add: moved_def state_rooms_def)
      qed
    qed
  qed
qed

lemma exec_block_progress:
  assumes "exec_block e f first b (p, fl, s) = Some (p', fl', s')"
  shows "p' = p \<and> fl' = fl \<and> s' = s \<or> p' \<and> used_up fl fl'"
proof -
  define fl0 where "fl0 = fl\<lparr>fl_dirty := (fl_dirty fl)[b := False]\<rparr>"
  show ?thesis
  proof (cases "b < length (fl_dirty fl) \<and> fl_dirty fl ! b")
    case False
    then show ?thesis using assms by (auto simp: exec_block_def bind_eq_Some_conv)
  next
    case True
    then obtain regs sc fl1 where f: "flow_into regs (fst sc) fl0 = Some fl1" "flow_into regs (snd sc) fl1 = Some fl'" "p'"
      using assms by (auto simp: exec_block_def bind_eq_Some_conv fl0_def)
    have "used_up fl fl0"
      using True filter_id_update by (simp add: used_up_def moved_def unreached_def state_rooms_def dirty_count_def fl0_def)
        (metis lessI)
    moreover have "fl' = fl0 \<or> moved fl0 fl'"
      using flow_into_moves[OF f(1)] flow_into_moves[OF f(2)] moved_trans by blast
    ultimately show ?thesis using f(3) used_up_trans[of fl fl0 fl'] by (auto simp: used_up_def)
  qed
qed

lemma sweep_progress:
  assumes "sweep_blocks e f first nb fl s = Some (True, fl', s')"
  shows "used_up fl fl'"
proof -
  define R where "R a c \<longleftrightarrow> fst c = fst a \<and> fst (snd c) = fst (snd a) \<or> fst c \<and> used_up (fst (snd a)) (fst (snd c))"
    for a c :: "bool \<times> flow_state \<times> sol"
  have "R (False, fl, s) (True, fl', s')"
  proof (rule foldM_rel[OF assms[unfolded sweep_blocks_def], where R = R])
    show "R a c" if "exec_block e f first b a = Some c" for a c b
      using that exec_block_progress[of e f first b "fst a" "fst (snd a)" "snd (snd a)" "fst c" "fst (snd c)" "snd (snd c)"]
      by (auto simp: R_def)
    show "R a c" if "R a b" "R b c" for a b c
      using that used_up_trans by (auto simp: R_def)
  qed (simp add: R_def)
  then show ?thesis by (simp add: R_def)
qed

text \<open>Sweeps until nothing is dirty.\<close>

function rounds :: "env \<Rightarrow> nat \<Rightarrow> nat \<Rightarrow> nat \<Rightarrow> flow_state \<Rightarrow> sol \<Rightarrow> (flow_state \<times> sol) option" where
  "rounds e f first nb fl s =
     (case sweep_blocks e f first nb fl s of
        None \<Rightarrow> None
      | Some (progress, fl', s') \<Rightarrow> if progress then rounds e f first nb fl' s' else Some (fl', s'))"
  by pat_completeness auto
termination
proof (relation "measures [\<lambda>(e, f, first, nb, fl, s). unreached fl, \<lambda>(e, f, first, nb, fl, s). state_rooms fl,
    \<lambda>(e, f, first, nb, fl, s). dirty_count fl]", simp)
  fix e f first nb fl s and a :: "bool \<times> flow_state \<times> sol" and progress b fl' s'
  assume "sweep_blocks e f first nb fl s = Some a" "(progress, b) = a" "(fl', s') = b" "progress"
  then have "used_up fl fl'" using sweep_progress[of e f first nb fl s fl' s'] by auto
  then show "((e, f, first, nb, fl', s'), e, f, first, nb, fl, s) \<in> measures [\<lambda>(e, f, first, nb, fl, s). unreached fl,
      \<lambda>(e, f, first, nb, fl, s). state_rooms fl, \<lambda>(e, f, first, nb, fl, s). dirty_count fl]"
    by (auto simp: used_up_def moved_def)
qed

declare rounds.simps [simp del]

definition run_entry_arg :: "nat \<Rightarrow> nat \<Rightarrow> aval list \<times> sol \<Rightarrow> (aval list \<times> sol) option" where
  "run_entry_arg off j rs = do {
     (v, s) \<leftarrow> rd (off + j) (snd rs);
     old \<leftarrow> get (fst rs) (j + 4);
     Some ((fst rs)[j + 4 := val_join old v], s) }"

definition run :: "env \<Rightarrow> nat \<Rightarrow> sol \<Rightarrow> sol option" where
  "run e f s = do {
     func \<leftarrow> get (p_funcs (e_p e)) f;
     let n = fn_nregs func;
     let nb = fn_count func;
     let s = s\<lparr>s_cur := f\<rparr>;
     let site = p_nallocs (e_p e) + f;
     off \<leftarrow> get (e_elem_off e) site;
     len \<leftarrow> get (e_elem_len e) site;
     (rest, s) \<leftarrow> rd (off + len) s;
     if n < 4 \<or> nb \<le> fn_entry func then None
     else do {
       let entry = [PLAIN, PLAIN, PLAIN, PLAIN\<lparr>va := tag_of site\<rparr>] @ replicate (n - 4) VBOTTOM;
       (entry, s) \<leftarrow> foldM (run_entry_arg off) [0..<len] (entry, s);
       let entry = (if rest \<noteq> VBOTTOM then take 4 entry @ map (\<lambda>r. val_join r rest) (drop 4 entry) else entry);
       let fl = \<lparr>fl_states = (replicate nb (replicate n VBOTTOM))[fn_entry func := entry],
                 fl_reached = (replicate nb False)[fn_entry func := True],
                 fl_dirty = (replicate nb False)[fn_entry func := True]\<rparr>;
       (fl, s) \<leftarrow> rounds e f (fn_first func) nb fl s;
       Some s } }"

subsection \<open>The solver\<close>

text \<open>The layout of the locations.\<close>

fun elem_layout :: "nat list \<Rightarrow> nat \<Rightarrow> nat list \<times> nat" where
  "elem_layout [] nxt = ([], nxt)"
| "elem_layout (len # lens) nxt = (let (offs, total) = elem_layout lens (nxt + len + 1) in (nxt # offs, total))"

definition solver_new :: "program \<Rightarrow> env \<times> sol" where
  "solver_new p =
     (let nf = length (p_funcs p);
          field_base = p_nvars p;
          any = field_base + length (p_names p);
          ret_base = any + 1;
          this_base = ret_base + nf;
          exc = this_base + nf;
          sum_base = exc + 1;
          elem_base = sum_base + (p_nallocs p + nf);
          lens = p_site_len p @ map (\<lambda>g. fn_nregs g - 4) (p_funcs p);
          (offs, total) = elem_layout lens elem_base;
          e = \<lparr>e_p = p, e_elem_off = offs, e_elem_len = lens, e_field_base = field_base, e_any = any,
               e_ret_base = ret_base, e_this_base = this_base, e_exc = exc, e_sum_base = sum_base,
               e_elem_base = elem_base\<rparr>;
          s = \<lparr>s_vals = replicate total VBOTTOM, s_marks = replicate total 0, s_rhead = replicate total None,
               s_redge = [], s_seen = {}, s_paths = [None], s_path_ids = (\<lambda>_. None), s_queue = [0..<nf],
               s_queued = replicate nf True, s_query = replicate 4 CLEAN,
               s_fired = replicate (length (p_instrs p)) False, s_cur = 0, s_run_id = 0, s_dyn_path = CLEAN,
               s_ff_path = CLEAN\<rparr>;
          s = (case p_dyn_key p of
                 Some k \<Rightarrow> (let (t, s) = child ROOT k False s in s\<lparr>s_dyn_path := t\<rparr>) | None \<Rightarrow> s);
          s = (case p_ff_key p of
                 Some k \<Rightarrow> (let (t, s) = child ROOT k False s in s\<lparr>s_ff_path := t\<rparr>) | None \<Rightarrow> s)
      in (e, s))"

text \<open>One step of the queue: \<open>Some (False, s)\<close> when it is empty.\<close>

definition solver_step :: "env \<Rightarrow> sol \<Rightarrow> (bool \<times> sol) option" where
  "solver_step e s =
     (case s_queue s of
        [] \<Rightarrow> Some (False, s)
      | f # rest \<Rightarrow> do {
          queued \<leftarrow> set_at (s_queued s) f False;
          s \<leftarrow> run e f (s\<lparr>s_queue := rest, s_queued := queued, s_run_id := s_run_id s + 1\<rparr>);
          Some (True, s) })"

lemma rd_val: "rd loc s = Some (v, s') \<Longrightarrow> v = s_vals s ! loc \<and> s_vals s' = s_vals s"
  by (auto simp: rd_def bind_eq_Some_conv Let_def split: option.splits if_splits)

lemma notify_from_step:
  assumes "notify_from h s = Some s'"
  shows "h = None \<and> s' = s \<or>
    (\<exists>i f link s1. h = Some i \<and> i < length (s_redge s) \<and> s_redge s ! i = (f, link) \<and> f < length (s_queued s)
       \<and> (case link of Some j \<Rightarrow> j < i | None \<Rightarrow> True)
       \<and> s1 = (if s_queued s ! f then s else s\<lparr>s_queued := (s_queued s)[f := True], s_queue := s_queue s @ [f]\<rparr>)
       \<and> notify_from link s1 = Some s')"
  using assms by (subst (asm) notify_from.simps) (fastforce simp: Let_def split: option.splits prod.splits if_splits)

lemma notify_from_vals: "notify_from h s = Some s' \<Longrightarrow> s_vals s' = s_vals s"
proof (induction "case h of None \<Rightarrow> 0 | Some i \<Rightarrow> Suc i" arbitrary: h s rule: less_induct)
  case less
  show ?case using notify_from_step[OF less.prems]
  proof (elim disjE exE conjE)
    fix i f link s1
    assume "h = Some i" "case link of Some j \<Rightarrow> j < i | None \<Rightarrow> True" "notify_from link s1 = Some s'"
      "s1 = (if s_queued s ! f then s else s\<lparr>s_queued := (s_queued s)[f := True], s_queue := s_queue s @ [f]\<rparr>)"
    then show ?thesis using less.hyps[of link s1] by (auto split: option.splits if_splits)
  qed simp
qed

subsection \<open>Relations that every operation respects\<close>

text \<open>
  A property of the solver's progress is a preorder on states that its primitive steps
  respect: a read, a write, a new path, and the updates of the flags and the query. Every
  operation of a run then respects it; a whole run also sets the current function.
\<close>

locale solver_ops =
  fixes R :: "sol \<Rightarrow> sol \<Rightarrow> bool" and e :: env
  assumes R_refl [simp]: "R s s"
    and R_trans: "R s s' \<Longrightarrow> R s' s'' \<Longrightarrow> R s s''"
    and child_R: "child parent key d s = (t, s') \<Longrightarrow> R s s'"
    and rd_R: "rd loc s = Some (v, s') \<Longrightarrow> R s s'"
    and wr_R: "wr e loc v s = Some s' \<Longrightarrow> R s s'"
    and fired_R: "set_at (s_fired s) i True = Some fired \<Longrightarrow> R s (s\<lparr>s_fired := fired\<rparr>)"
    and query_R: "R s (s\<lparr>s_query := query_keys e kid x (s_query s)\<rparr>)"
begin

lemma foldM_R:
  assumes "foldM f xs a = Some b" "\<And>x a b. f x a = Some b \<Longrightarrow> R (st a) (st b)"
  shows "R (st a) (st b)"
  by (rule foldM_rel[OF assms(1), of "\<lambda>a b. R (st a) (st b)"]) (erule assms(2), simp, erule (1) R_trans)

lemma ext_R: "ext t key s = (t', s') \<Longrightarrow> R s s'"
  by (auto simp: ext_def split: option.splits dest: child_R)

lemma from_any_R: "from_any e any key s = Some (t, s') \<Longrightarrow> R s s'"
  by (auto simp: from_any_def bind_eq_Some_conv split: option.splits if_splits) (blast dest: child_R)

lemma rd_elem_R: "rd_elem e site i s = Some (v, s') \<Longrightarrow> R s s'"
  by (auto simp: rd_elem_def bind_eq_Some_conv dest: rd_R)

lemma wr_elem_R: "wr_elem e site i v s = Some s' \<Longrightarrow> R s s'"
  by (auto simp: wr_elem_def bind_eq_Some_conv dest!: wr_R intro: R_trans)

lemma spread_R: "spread e v s = Some (t, s') \<Longrightarrow> R s s'"
  by (auto simp: spread_def bind_eq_Some_conv split: option.splits dest: rd_R)

lemma invoke_R: "invoke e c input s = Some (t, s') \<Longrightarrow> R s s'"
proof -
  have "invoke_one e input g ts = Some ts' \<Longrightarrow> R (snd ts) (snd ts')" for g ts ts'
    by (auto simp: invoke_one_def bind_eq_Some_conv dest!: wr_elem_R rd_R intro: R_trans)
  then show "invoke e c input s = Some (t, s') \<Longrightarrow> ?thesis"
    by (auto simp: invoke_def bind_eq_Some_conv dest!: foldM_R[where st = snd])
qed

lemma callback_R: "callback e v input s = Some (t, s') \<Longrightarrow> R s s'"
proof -
  have "callback_elem e input loc ts = Some ts' \<Longrightarrow> R (snd ts) (snd ts')" for loc ts ts'
    by (auto simp: callback_elem_def bind_eq_Some_conv dest!: invoke_R rd_R intro: R_trans)
  then show "callback e v input s = Some (t, s') \<Longrightarrow> ?thesis"
    by (auto simp: callback_def bind_eq_Some_conv split: option.splits
        dest!: foldM_R[where st = snd] invoke_R) (blast intro: R_trans)
qed


lemma foldM_R_snd:
  "foldM f xs a = Some b \<Longrightarrow> (\<And>x a b. f x a = Some b \<Longrightarrow> R (snd a) (snd b)) \<Longrightarrow> R (snd a) (snd b)"
  by (rule foldM_R[where st = snd])

lemma foldM_R_id:
  "foldM f xs s = Some s' \<Longrightarrow> (\<And>x s s'. f x s = Some s' \<Longrightarrow> R s s') \<Longrightarrow> R s s'"
  using foldM_R[where st = "\<lambda>s. s"] by blast

lemmas bind_obtain = bind_eq_Some_conv Let_def split_paired_Ex prod.case

lemma call_target_R: "call_target e thisv args rest g vs = Some vs' \<Longrightarrow> R (snd vs) (snd vs')"
proof -
  assume "call_target e thisv args rest g vs = Some vs'"
  then obtain s1 s2 s3 r s4 where c:
    "foldM (\<lambda>(k, a) s. wr_elem e (p_nallocs (e_p e) + g) (int k) a s) (enumerate 0 args) (snd vs) = Some s1"
    "(if rest \<noteq> VBOTTOM then wr_elem e (p_nallocs (e_p e) + g) ANY rest s1 else Some s1) = Some s2"
    "(case thisv of Some th \<Rightarrow> wr e (e_this_base e + g) (val_field (vt th)) s2 | None \<Rightarrow> Some s2) = Some s3"
    "rd (e_ret_base e + g) s3 = Some (r, s4)" "snd vs' = s4"
    unfolding call_target_def bind_obtain by (elim exE conjE) (auto simp: prod_eq_iff)
  have "R (snd vs) s1"
    by (rule foldM_R_id[OF c(1)]) (auto split: prod.splits dest: wr_elem_R)
  moreover have "R s1 s2" using c(2) by (auto split: if_splits dest: wr_elem_R)
  moreover have "R s2 s3" using c(3) by (auto split: option.splits dest: wr_R)
  ultimately show ?thesis using rd_R[OF c(4)] c(5) R_trans by metis
qed

lemma call_spread_R: "call_spread e fnv m thisv args rest s = Some (t, s') \<Longrightarrow> R s s'"
proof -
  assume "call_spread e fnv m thisv args rest s = Some (t, s')"
  then obtain t1 s1 t2 s2 x where c:
    "(case thisv of
         Some th \<Rightarrow> do { (x, s) \<leftarrow> spread e th s; Some (taint_join (if m then CLEAN else vt fnv) x, s) }
       | None \<Rightarrow> Some (vt fnv, s)) = Some (t1, s1)"
    "foldM (\<lambda>a (t, s). do { (x, s) \<leftarrow> spread e a s; Some (taint_join t x, s) }) args (t1, s1) = Some (t2, s2)"
    "spread e rest s2 = Some (x, s')"
    by (auto simp: call_spread_def bind_eq_Some_conv)
  have "R s s1" using c(1) by (auto simp: bind_eq_Some_conv split: option.splits dest: spread_R)
  moreover have "R (snd (t1, s1)) (snd (t2, s2))"
    by (rule foldM_R_snd[OF c(2)]) (auto simp: bind_eq_Some_conv split: prod.splits dest: spread_R)
  ultimately show ?thesis using spread_R[OF c(3)] R_trans by (metis snd_conv)
qed

lemma call_unknown_R: "call_unknown e fnv m thisv args rest s = Some (t, s') \<Longrightarrow> R s s'"
proof -
  assume "call_unknown e fnv m thisv args rest s = Some (t, s')"
  then obtain t0 s0 t1 s1 t2 s2 x where c:
    "call_spread e fnv m thisv args rest s = Some (t0, s0)"
    "(case thisv of
         None \<Rightarrow> Some (t0, s0)
       | Some th \<Rightarrow> do {
           (x, s) \<leftarrow> callback e th t0 s0;
           s \<leftarrow> (case tag_get (va th) of Some site \<Rightarrow> wr_elem e site ANY (val_taint t0) s | None \<Rightarrow> Some s);
           Some (taint_join t0 x, s) }) = Some (t1, s1)"
    "foldM (\<lambda>a (r, s). do { (x, s) \<leftarrow> callback e a t0 s; Some (taint_join r x, s) }) args (t1, s1) = Some (t2, s2)"
    "callback e rest t0 s2 = Some (x, s')"
    by (auto simp: call_unknown_def bind_eq_Some_conv)
  have "R s0 s1"
  proof (cases thisv)
    case (Some th)
    then obtain x s2 where d: "callback e th t0 s0 = Some (x, s2)"
        "(case tag_get (va th) of Some site \<Rightarrow> wr_elem e site ANY (val_taint t0) s2 | None \<Rightarrow> Some s2) = Some s1"
      using c(2) by (auto simp: bind_eq_Some_conv)
    then have "R s2 s1" by (auto split: option.splits dest: wr_elem_R)
    then show ?thesis using callback_R[OF d(1)] R_trans by blast
  qed (use c(2) in simp)
  moreover have "R (snd (t1, s1)) (snd (t2, s2))"
    by (rule foldM_R_snd[OF c(3)]) (auto simp: bind_eq_Some_conv split: prod.splits dest: callback_R)
  ultimately show ?thesis using call_spread_R[OF c(1)] callback_R[OF c(4)] R_trans by (metis snd_conv)
qed

lemma call_R: "call e i fnv thisv args rest s = Some (v, s') \<Longrightarrow> R s s'"
proof -
  assume "call e i fnv thisv args rest s = Some (v, s')"
  then obtain gs out1 s1 out2 s2 where c:
    "foldM (call_target e thisv args rest) gs (VBOTTOM, s) = Some (out1, s1)"
    "(if gs = [] \<or> is_method (vc fnv)
       then do {
         (r, s) \<leftarrow> call_unknown e fnv (is_method (vc fnv)) thisv args rest s1;
         Some (if gs = [] then val_taint r else (val_live out1)\<lparr>vt := taint_join (vt (val_live out1)) r\<rparr>, s) }
       else Some (val_live out1, s1)) = Some (out2, s2)"
    "(if list_ex (\<lambda>a. vh a = TAG_YES) args \<or> vh rest = TAG_YES
       then do {
         fired \<leftarrow> set_at (s_fired s2) i True;
         Some (out2\<lparr>vt := taint_join (vt out2) (taint_path ROOT False)\<rparr>, s2\<lparr>s_fired := fired\<rparr>) }
       else Some (out2, s2)) = Some (v, s')"
    unfolding call_def bind_obtain by (elim exE conjE)
  have "R s s1" using foldM_R_snd[OF c(1) call_target_R] by simp
  moreover have "R s1 s2"
    using c(2) by (auto simp: bind_eq_Some_conv split: if_splits dest: call_unknown_R)
  moreover have "R s2 s'" using c(3) fired_R by (auto simp: bind_eq_Some_conv split: if_splits)
  ultimately show ?thesis using R_trans by metis
qed

lemma expand_R: "expand e arr s = Some (buf, rest, s') \<Longrightarrow> R s s'"
proof -
  have w: "expand_elem loc bs = Some bs' \<Longrightarrow> R (snd bs) (snd bs')" for loc bs bs'
    by (auto simp: expand_elem_def bind_eq_Some_conv dest: rd_R)
  show "expand e arr s = Some (buf, rest, s') \<Longrightarrow> ?thesis"
    by (auto simp: expand_def bind_eq_Some_conv split: option.splits
        dest!: foldM_R_snd[OF _ w] rd_R) (auto intro: R_trans)
qed


lemma fire_R: "fire i s = Some s' \<Longrightarrow> R s s'"
  by (auto simp: fire_def bind_eq_Some_conv fired_R)

lemma get_prop_any_R: "get_prop_any e i ins regs obj any s = Some (v, s') \<Longrightarrow> R s s'"
proof -
  assume g: "get_prop_any e i ins regs obj any s = Some (v, s')"
  obtain x s0 where x: "ext (vt obj) (p_wild (e_p e)) s = (x, s0)" by fastforce
  then obtain t1 s1 where c:
    "(case tag_get (va obj) of
         Some site \<Rightarrow> do { (w, s) \<leftarrow> rd (e_sum_base e + site) s0; Some (taint_join (taint_join x any) (vt w), s) }
       | None \<Rightarrow> Some (taint_join x any, s0)) = Some (t1, s1)"
    "(case in_arg ins 1 of
        Opd_Reg k \<Rightarrow> do {
          kv \<leftarrow> get regs k;
          if vh kv = TAG_YES
          then do { s \<leftarrow> fire i s1; Some (val_taint (taint_join t1 (taint_path ROOT False)), s) }
          else Some (val_taint t1, s1) }
      | _ \<Rightarrow> Some (val_taint t1, s1)) = Some (v, s')"
    using g unfolding get_prop_any_def by (auto simp: bind_eq_Some_conv Let_def)
  have "R s s0" using ext_R[OF x] .
  moreover have "R s0 s1" using c(1) by (auto simp: bind_eq_Some_conv split: option.splits dest: rd_R)
  moreover have "R s1 s'"
    using c(2) by (auto simp: bind_eq_Some_conv split: operand.splits if_splits dest: fire_R)
  ultimately show ?thesis using R_trans by metis
qed

lemma get_prop_named_R: "get_prop_named e kid obj base s = Some (v, s') \<Longrightarrow> R s s'"
  by (auto simp: get_prop_named_def bind_eq_Some_conv Let_def split: keyname.splits option.splits if_splits
      dest!: rd_R rd_elem_R) (auto intro: R_trans)

lemma get_prop_source_R: "get_prop_source e i kid v s = Some (v', s') \<Longrightarrow> R s s'"
  by (auto simp: get_prop_source_def bind_eq_Some_conv split: if_splits dest: fire_R)

lemma get_prop_R: "get_prop e i ins ax regs s = Some (v, s') \<Longrightarrow> R s s'"
proof -
  assume g: "get_prop e i ins ax regs s = Some (v, s')"
  then obtain obj w s1 where o: "rd (e_any e) s = Some (w, s1)" "opv regs (in_arg ins 0) False = Some obj"
    by (auto simp: get_prop_def bind_eq_Some_conv)
  have "R s1 s'"
  proof (cases "ax_key ax")
    case None
    then show ?thesis using g o by (auto simp: get_prop_def bind_eq_Some_conv dest: get_prop_any_R)
  next
    case (Some kid)
    then obtain base s2 v1 s3 v2 s4 where c:
      "(if vt obj = CLEAN then from_any e (vt w) kid s1 else Some (ext (vt obj) kid s1)) = Some (base, s2)"
      "get_prop_named e kid obj base s2 = Some (v1, s3)" "get_prop_source e i kid v1 s3 = Some (v2, s4)"
      "s' = s4\<lparr>s_query := query_keys e kid (vt v2) (s_query s4)\<rparr>"
      using g o by (auto simp: get_prop_def bind_eq_Some_conv)
    have "R s1 s2" using c(1) by (auto split: if_splits dest: from_any_R ext_R)
    then have "R s1 s4"
      using get_prop_named_R[OF c(2)] get_prop_source_R[OF c(3)] R_trans by metis
    then show ?thesis using c(4) query_R R_trans by metis
  qed
  then show ?thesis using rd_R[OF o(1)] R_trans by metis
qed

lemma set_prop_R: "set_prop e ins ax regs s = Some s' \<Longrightarrow> R s s'"
proof -
  assume p: "set_prop e ins ax regs s = Some s'"
  then obtain obj v where o: "opv regs (in_arg ins 0) False = Some obj" "opv regs (in_arg ins 2) (bit (ax_hdr ax) 2) = Some v"
    by (auto simp: set_prop_def bind_eq_Some_conv)
  show ?thesis
  proof (cases "ax_key ax")
    case None
    then show ?thesis using p o
      by (auto simp: set_prop_def split: option.splits dest: wr_R wr_elem_R)
  next
    case (Some kid)
    then obtain name where n: "get (p_names (e_p e)) kid = Some name"
      using p o by (auto simp: set_prop_def bind_eq_Some_conv)
    show ?thesis using p o Some n
      by (cases name; cases "tag_get (va obj)")
        (auto simp: set_prop_def split: if_splits dest: wr_R wr_elem_R)
  qed
qed

lemma read_var_R: "read_var e v s = Some (w, s') \<Longrightarrow> R s s'"
  by (auto simp: read_var_def bind_eq_Some_conv Let_def dest: rd_R)


lemma transfer_value_R:
  assumes "transfer_value e f i ins ax regs s = Some (out, s')"
  shows "R s s'"
proof -
  consider (new) "in_op ins = Op_New" | (getprop) "in_op ins = Op_GetProp" | (var) "in_op ins = Op_GetVar"
    | (calls) "in_op ins \<in> {Op_Call0, Op_Call1, Op_Call2, Op_Call3}"
    | (other) "in_op ins \<notin> {Op_New, Op_GetProp, Op_GetVar, Op_Call0, Op_Call1, Op_Call2, Op_Call3}"
    by blast
  then show ?thesis
  proof cases
    case new
    then obtain arr buf rest s1 fnv r where "expand e arr s = Some (buf, rest, s1)" "call e i fnv None buf rest s1 = Some (r, s')"
      using assms by (auto simp: transfer_value_def bind_eq_Some_conv)
    then show ?thesis using expand_R call_R R_trans by metis
  next
    case getprop
    then show ?thesis using assms by (auto simp: transfer_value_def bind_eq_Some_conv dest: get_prop_R)
  next
    case var
    then show ?thesis using assms
      by (auto simp: transfer_value_def bind_eq_Some_conv split: option.splits dest: read_var_R)
  next
    case calls
    then show ?thesis using assms by (auto simp: transfer_value_def bind_eq_Some_conv dest: call_R)
  next
    case other
    then show ?thesis using assms
      by (auto simp: transfer_value_def bind_eq_Some_conv split: op.splits if_splits dest: rd_R)
  qed
qed

lemma transfer_effect_R:
  assumes "transfer_effect e f i ins ax regs s = Some (Some (regs', s'))"
  shows "R s s'"
proof -
  consider (callm) "in_op ins = Op_CallM" | (exc) "in_op ins = Op_SetVarExc"
    | (other) "in_op ins \<noteq> Op_CallM" "in_op ins \<noteq> Op_SetVarExc"
    by blast
  then show ?thesis
  proof cases
    case callm
    then obtain arr buf rest s1 fnv th r where "expand e arr s = Some (buf, rest, s1)" "call e i fnv th buf rest s1 = Some (r, s')"
      using assms by (auto simp: transfer_effect_def bind_eq_Some_conv)
    then show ?thesis using expand_R call_R R_trans by metis
  next
    case exc
    show ?thesis
    proof (cases "var_of (e_p e) (in_arg ins 0)")
      case (Some v)
      then obtain w s1 where "rd (e_exc e) s = Some (w, s1)" "wr e v (val_taint (vt w)) s1 = Some s'"
        using exc assms by (auto simp: transfer_effect_def bind_eq_Some_conv)
      then show ?thesis using rd_R wr_R R_trans by metis
    qed (use exc assms in \<open>simp add: transfer_effect_def\<close>)
  next
    case other
    then show ?thesis using assms
      by (auto simp: transfer_effect_def bind_eq_Some_conv split: op.splits option.splits if_splits
          dest: wr_R set_prop_R)
  qed
qed

lemma transfer_R: "transfer e f i rs = Some rs' \<Longrightarrow> R (snd rs) (snd rs')"
  by (cases rs') (auto simp: transfer_def bind_eq_Some_conv split: option.splits
      dest: transfer_effect_R transfer_value_R)

lemma exec_block_R: "exec_block e f first b pfs = Some pfs' \<Longrightarrow> R (snd (snd pfs)) (snd (snd pfs'))"
proof -
  assume r: "exec_block e f first b pfs = Some pfs'"
  obtain progress fl s where p: "pfs = (progress, fl, s)" by (cases pfs) auto
  show ?thesis
  proof (cases "fl_dirty fl ! b")
    case False
    then show ?thesis using r by (auto simp: exec_block_def p bind_eq_Some_conv)
  next
    case True
    then obtain xs regs regs' s' where "foldM (transfer e f) xs (regs, s) = Some (regs', s')" "snd (snd pfs') = s'"
      using r by (auto simp: exec_block_def p bind_eq_Some_conv Let_def)
    then show ?thesis using foldM_R_snd[of "transfer e f" xs "(regs, s)"] transfer_R by (auto simp: p)
  qed
qed

lemma rounds_R: "rounds e f first nb fl s = Some (fl', s') \<Longrightarrow> R s s'"
proof (induction e'\<equiv>e f first nb fl s rule: rounds.induct)
  case (1 f first nb fl s)
  from "1.prems" obtain progress fl1 s1 where sw: "sweep_blocks e f first nb fl s = Some (progress, fl1, s1)"
      and k: "if progress then rounds e f first nb fl1 s1 = Some (fl', s') else s' = s1"
    by (subst (asm) rounds.simps) (auto split: option.splits if_splits)
  have "R (snd (snd (False, fl, s))) (snd (snd (progress, fl1, s1)))"
    by (rule foldM_R[where st = "\<lambda>x. snd (snd x)", OF sw[unfolded sweep_blocks_def] exec_block_R])
  then have "R s s1" by simp
  then show ?case using "1.hyps"[OF sw refl refl] k R_trans by (metis (full_types))
qed

lemma run_from_R: "run e f s = Some s' \<Longrightarrow> R (s\<lparr>s_cur := f\<rparr>) s'"
proof -
  assume r: "run e f s = Some s'"
  have w: "run_entry_arg off j rs = Some rs' \<Longrightarrow> R (snd rs) (snd rs')" for off j rs rs'
    by (auto simp: run_entry_arg_def bind_eq_Some_conv dest: rd_R)
  from r obtain off len rest s1 en en' s2 fl fl' nb first where c:
    "rd (off + len) (s\<lparr>s_cur := f\<rparr>) = Some (rest, s1)"
    "foldM (run_entry_arg off) [0..<len] (en, s1) = Some (en', s2)"
    "rounds e f first nb fl s2 = Some (fl', s')"
    by (auto simp: run_def bind_eq_Some_conv Let_def split: if_splits)
  have "R (snd (en, s1)) (snd (en', s2))" by (rule foldM_R_snd[OF c(2) w])
  then show ?thesis using rd_R[OF c(1)] rounds_R[OF c(3)] R_trans by (metis snd_conv)
qed

end

locale solver_preorder = solver_ops +
  assumes cur_R: "R s (s\<lparr>s_cur := f\<rparr>)"
begin

lemma run_R: "run e f s = Some s' \<Longrightarrow> R s s'"
  using cur_R run_from_R by (rule R_trans)

end

subsection \<open>Every operation uses up room or leaves the queue alone\<close>

definition grows :: "sol \<Rightarrow> sol \<Rightarrow> bool" where
  "grows s s' \<longleftrightarrow> val.rooms (s_vals s') < val.rooms (s_vals s) \<or> s_vals s' = s_vals s \<and> s_queue s' = s_queue s"

lemma child_grows: "child parent key d s = (t, s') \<Longrightarrow> grows s s'"
  by (auto simp: child_def Let_def grows_def split: option.splits if_splits)

lemma rd_grows: "rd loc s = Some (v, s') \<Longrightarrow> grows s s'"
  by (auto simp: rd_def bind_eq_Some_conv grows_def Let_def split: option.splits if_splits)

lemma wr_grows: "wr e loc v s = Some s' \<Longrightarrow> grows s s'"
proof -
  assume w: "wr e loc v s = Some s'"
  show ?thesis
  proof (cases "val_join (s_vals s ! loc) v = s_vals s ! loc")
    case True
    then show ?thesis using w by (auto simp: wr_def bind_eq_Some_conv Let_def grows_def)
  next
    case False
    then have "loc < length (s_vals s)" "s_vals s' = (s_vals s)[loc := val_join (s_vals s ! loc) v]"
      using w notify_from_vals by (fastforce simp: wr_def notify_def bind_eq_Some_conv Let_def split: if_splits)+
    then show ?thesis using val.rooms_shrink[OF _ False] by (simp add: grows_def)
  qed
qed

interpretation room: solver_preorder grows e for e
  by unfold_locales (auto simp: grows_def child_grows[unfolded grows_def] dest: rd_grows[unfolded grows_def] wr_grows[unfolded grows_def])

subsection \<open>Running until the queue is empty\<close>

function solve :: "env \<Rightarrow> sol \<Rightarrow> sol option" where
  "solve e s =
     (case solver_step e s of
        None \<Rightarrow> None
      | Some (running, s') \<Rightarrow> if running then solve e s' else Some s')"
  by pat_completeness auto
termination
proof (relation "measures [\<lambda>(e, s). val.rooms (s_vals s), \<lambda>(e, s). length (s_queue s)]", simp)
  fix e s and a :: "bool \<times> sol" and running s'
  assume a: "solver_step e s = Some a" "(running, s') = a" running
  then obtain f rest queued where "s_queue s = f # rest"
      "run e f (s\<lparr>s_queue := rest, s_queued := queued, s_run_id := s_run_id s + 1\<rparr>) = Some s'"
    by (auto simp: solver_step_def bind_eq_Some_conv split: list.splits)
  then show "((e, s'), e, s) \<in> measures [\<lambda>(e, s). val.rooms (s_vals s), \<lambda>(e, s). length (s_queue s)]"
    using room.run_R by (fastforce simp: grows_def)
qed

declare solve.simps [simp del]


subsection \<open>Everything only moves up\<close>

text \<open>
  Values and queries only move up in their semilattices, paths are only appended (so the
  number of a path keeps its meaning), flags are only set, and the links between the readers
  of a location always go to older entries, so the guard of \<open>notify_from\<close> holds.
\<close>

definition links_ok :: "sol \<Rightarrow> bool" where
  "links_ok s \<longleftrightarrow> (\<forall>i < length (s_redge s). \<forall>j. snd (s_redge s ! i) = Some j \<longrightarrow> j < i)
     \<and> (\<forall>h \<in> set (s_rhead s). \<forall>j. h = Some j \<longrightarrow> j < length (s_redge s))"

definition climbs :: "sol \<Rightarrow> sol \<Rightarrow> bool" where
  "climbs s s' \<longleftrightarrow> list_all2 val.below (s_vals s) (s_vals s')
     \<and> list_all2 taint.below (s_query s) (s_query s')
     \<and> (\<exists>ps. s_paths s' = s_paths s @ ps)
     \<and> s_path_ids s \<subseteq>\<^sub>m s_path_ids s'
     \<and> list_all2 (\<longrightarrow>) (s_fired s) (s_fired s')
     \<and> s_seen s \<subseteq> s_seen s'
     \<and> (links_ok s \<longrightarrow> links_ok s')"

lemma list_all2_refl': "(\<And>x. P x x) \<Longrightarrow> list_all2 P xs xs"
  by (simp add: list_all2_conv_all_nth)

lemma list_all2_update: "(\<And>x. P x x) \<Longrightarrow> P (xs ! i) y \<Longrightarrow> list_all2 P xs (xs[i := y])"
  by (cases "i < length xs") (auto simp: list_all2_conv_all_nth nth_list_update)

lemma climbs_refl: "climbs s s"
  by (auto simp: climbs_def list_all2_refl' val.below_refl taint.below_refl)

lemma climbs_trans: "climbs a b \<Longrightarrow> climbs b c \<Longrightarrow> climbs a c"
  unfolding climbs_def
  by (auto elim: list_all2_trans[rotated] intro: val.below_trans taint.below_trans map_le_trans)

lemma climbs_child: "child parent key d s = (t, s') \<Longrightarrow> climbs s s'"
  by (auto simp: child_def Let_def climbs_def list_all2_refl' val.below_refl taint.below_refl map_le_def links_ok_def
      split: option.splits if_splits)

lemma rd_effect:
  "rd loc s = Some (v, s') \<Longrightarrow> s_vals s' = s_vals s \<and> s_query s' = s_query s \<and> s_paths s' = s_paths s
    \<and> s_path_ids s' = s_path_ids s \<and> s_fired s' = s_fired s \<and> s_seen s \<subseteq> s_seen s'
    \<and> (s_rhead s' = s_rhead s \<and> s_redge s' = s_redge s
       \<or> loc < length (s_rhead s) \<and> s_rhead s' = (s_rhead s)[loc := Some (length (s_redge s))]
          \<and> s_redge s' = s_redge s @ [(s_cur s, s_rhead s ! loc)])"
  by (auto simp: rd_def bind_eq_Some_conv Let_def split: option.splits if_splits)

lemma links_ok_append:
  assumes "links_ok s" "loc < length (s_rhead s)" "s_rhead s' = (s_rhead s)[loc := Some (length (s_redge s))]"
    and "s_redge s' = s_redge s @ [(f, s_rhead s ! loc)]"
  shows "links_ok s'"
proof -
  have "j < length (s_redge s)" if "s_rhead s ! loc = Some j" for j
    using assms(1,2) that by (auto simp: links_ok_def) (metis nth_mem)
  then show ?thesis
    using assms by (fastforce simp: links_ok_def nth_append less_Suc_eq dest: set_update_subset_insert[THEN subsetD])
qed

lemma climbs_rd: "rd loc s = Some (v, s') \<Longrightarrow> climbs s s'"
proof -
  assume r: "rd loc s = Some (v, s')"
  note eff = rd_effect[OF r]
  have "links_ok s'" if "links_ok s"
  proof (cases "s_rhead s' = s_rhead s \<and> s_redge s' = s_redge s")
    case True
    then show ?thesis using that by (simp add: links_ok_def)
  next
    case False
    then show ?thesis using eff by (intro links_ok_append[OF that, of loc _ "s_cur s"]) auto
  qed
  moreover have "s_vals s' = s_vals s" "s_query s' = s_query s" "s_paths s' = s_paths s"
      "s_path_ids s' = s_path_ids s" "s_fired s' = s_fired s" "s_seen s \<subseteq> s_seen s'"
    using eff by blast+
  ultimately show ?thesis
    by (simp add: climbs_def list_all2_refl' val.below_refl taint.below_refl)
qed

text \<open>Notifying only changes the queue.\<close>

lemma notify_from_effect:
  "notify_from h s = Some s' \<Longrightarrow> \<exists>q qd. s' = s\<lparr>s_queue := q, s_queued := qd\<rparr>"
proof (induction "case h of None \<Rightarrow> 0 | Some i \<Rightarrow> Suc i" arbitrary: h s rule: less_induct)
  case less
  show ?case using notify_from_step[OF less.prems]
  proof (elim disjE exE conjE)
    assume "s' = s"
    then show ?thesis by (intro exI[of _ "s_queue s"] exI[of _ "s_queued s"]) simp
  next
    fix i f link s1
    assume n: "h = Some i" "case link of Some j \<Rightarrow> j < i | None \<Rightarrow> True" "notify_from link s1 = Some s'"
      "s1 = (if s_queued s ! f then s else s\<lparr>s_queued := (s_queued s)[f := True], s_queue := s_queue s @ [f]\<rparr>)"
    then obtain q qd where "s' = s1\<lparr>s_queue := q, s_queued := qd\<rparr>"
      using less.hyps[of link s1] by (auto split: option.splits)
    then show ?thesis using n(4) by (intro exI[of _ q] exI[of _ qd]) (cases s, auto)
  qed
qed

lemma climbs_queue: "climbs s (s\<lparr>s_queue := q, s_queued := qd\<rparr>)"
  by (auto simp: climbs_def list_all2_refl' val.below_refl taint.below_refl links_ok_def)

lemma climbs_wr: "wr e loc v s = Some s' \<Longrightarrow> climbs s s'"
proof -
  assume w: "wr e loc v s = Some s'"
  define s1 where "s1 = s\<lparr>s_vals := (s_vals s)[loc := val_join (s_vals s ! loc) v]\<rparr>"
  have "climbs s s1"
    using val.join_upper(1)
    by (auto simp: s1_def climbs_def list_all2_refl' list_all2_update val.below_refl taint.below_refl links_ok_def)
  moreover have "s' = s \<or> s' = s1 \<or> (\<exists>q qd. s' = s1\<lparr>s_queue := q, s_queued := qd\<rparr>)"
    using w notify_from_effect by (auto simp: wr_def notify_def bind_eq_Some_conv Let_def s1_def split: if_splits)
  ultimately show ?thesis using climbs_queue climbs_trans climbs_refl by blast
qed

lemma query_step_climbs:
  "list_all2 taint.below qs rs \<Longrightarrow> list_all2 taint.below qs (rs[j := taint_join (rs ! j) t])"
proof -
  assume q: "list_all2 taint.below qs rs"
  have "list_all2 taint.below rs (rs[j := taint_join (rs ! j) t])"
    by (rule list_all2_update) (rule taint.below_refl, rule taint.join_upper(1))
  with q show ?thesis by (rule list_all2_trans[rotated]) (rule taint.below_trans)
qed

lemma query_keys_climbs: "list_all2 taint.below query (query_keys e kid t query)"
proof -
  have "list_all2 taint.below query
      (foldl (\<lambda>q j. if p_pow (e_p e) ! j = Some kid then q[j := taint_join (q ! j) t] else q) query js)" for js
  proof (induction js rule: rev_induct)
    case Nil
    then show ?case by (simp add: list_all2_refl' taint.below_refl)
  next
    case (snoc j js)
    then show ?case by (simp add: query_step_climbs)
  qed
  then show ?thesis by (simp add: query_keys_def)
qed

interpretation climb: solver_preorder climbs e for e
proof
  show "climbs s (s\<lparr>s_fired := fired\<rparr>)" if "set_at (s_fired s) i True = Some fired" for s i fired
    using that by (auto simp: set_at_def climbs_def list_all2_refl' list_all2_update val.below_refl taint.below_refl
        links_ok_def split: if_splits)
  show "climbs s (s\<lparr>s_query := query_keys e kid x (s_query s)\<rparr>)" for s kid x
    using query_keys_climbs by (auto simp: climbs_def list_all2_refl' val.below_refl links_ok_def)
  show "climbs s (s\<lparr>s_cur := f\<rparr>)" for s f
    by (auto simp: climbs_def list_all2_refl' val.below_refl taint.below_refl links_ok_def)
qed (fact climbs_refl climbs_trans climbs_child climbs_rd climbs_wr)+


subsection \<open>The verdict\<close>

text \<open>The path of one parameter: clean, a rendered path, or none (\<open>Inl ()\<close>: not trackable).\<close>

definition query_path :: "env \<Rightarrow> sol \<Rightarrow> taint \<Rightarrow> (unit + fc_path option) option" where
  "query_path e s t =
     (if t = CLEAN then Some (Inr None)
      else case split_taint t of
        None \<Rightarrow> Some (Inl ())
      | Some (i, derived) \<Rightarrow>
          (case render e s i of
             None \<Rightarrow> None
           | Some None \<Rightarrow> Some (Inl ())
           | Some (Some steps) \<Rightarrow> Some (Inr (Some \<lparr>fp_steps = steps, fp_derived = derived\<rparr>))))"

fun query_paths :: "env \<Rightarrow> sol \<Rightarrow> (str \<times> taint) list \<Rightarrow> (fc_error + fc_path option list) option" where
  "query_paths e s [] = Some (Inr [])"
| "query_paths e s ((param, t) # pts) = do {
     r \<leftarrow> query_path e s t;
     (case r of
        Inl _ \<Rightarrow> Some (Inl (FcUntrackable param))
      | Inr p \<Rightarrow> do {
          rest \<leftarrow> query_paths e s pts;
          Some (res_bind rest (\<lambda>ps. Inr (p # ps))) }) }"

definition verdict :: "env \<Rightarrow> sol \<Rightarrow> (fc_error + fc_usage) option" where
  "verdict e s =
     (if \<not> list_ex id (s_fired s) then Some (Inr Independent)
      else do {
        found \<leftarrow> query_paths e s (zip PARAMS (s_query s));
        Some (res_bind found (\<lambda>ps.
          if list_all (\<lambda>p. p = None) ps then Inr Independent
          else Inr (Dependent \<lparr>ov_difficulty = ps ! 0, ov_sub_count = ps ! 1, ov_seed_suffix = ps ! 2,
                               ov_seed_phrase = ps ! 3\<rparr>))) })"

definition analyze :: "instr list \<Rightarrow> u16 list \<Rightarrow> pow_keys \<Rightarrow> (fc_error + fc_usage) option" where
  "analyze instrs pool keys =
     (case build_program instrs pool keys of
        Inl err \<Rightarrow> Some (Inl err)
      | Inr p \<Rightarrow>
          if \<not> p_seeded p then Some (Inr Independent)
          else let (e, s) = solver_new p in do { s' \<leftarrow> solve e s; verdict e s' })"

end
