(* ===== verification/FcProps.thy ===== *)
theory FcProps
  imports FcSolver
begin

text \<open>
  What the flow analysis guarantees: the tables of the program view, the names of properties,
  the paths into the document, and that the solver stops.
\<close>

subsection \<open>Canonical property names\<close>

definition all_digits :: "str \<Rightarrow> bool" where
  "all_digits ds \<longleftrightarrow> (\<forall>d \<in> set ds. 48 \<le> d \<and> d < 58)"

lemma all_digits_simps [simp]:
  "all_digits []" "all_digits (d # ds) \<longleftrightarrow> 48 \<le> d \<and> d < 58 \<and> all_digits ds"
  "all_digits (ds @ ds') \<longleftrightarrow> all_digits ds \<and> all_digits ds'"
  by (auto simp: all_digits_def)

lemma undec_append1: "undec (ds @ [d]) = 10 * undec ds + (d - 48)"
  by (simp add: undec_def)

lemma undec_bound: "all_digits ds \<Longrightarrow> undec ds < 10 ^ length ds"
proof (induction ds rule: rev_induct)
  case (snoc d ds)
  then have "undec ds < 10 ^ length ds" "d - 48 < 10" by auto
  then show ?case by (simp add: undec_append1)
qed (simp add: undec_def)

lemma dec_undec: "all_digits ds \<Longrightarrow> ds \<noteq> [] \<Longrightarrow> hd ds \<noteq> 48 \<or> length ds = 1 \<Longrightarrow> dec (undec ds) = ds"
proof (induction ds rule: rev_induct)
  case (snoc d ds)
  show ?case
  proof (cases "ds = []")
    case True
    then show ?thesis using snoc.prems dec_small[of "d - 48"] by (simp add: undec_def less_diff_conv2)
  next
    case False
    then have h: "hd ds \<noteq> 48" "dec (undec ds) = ds" using snoc by auto
    then have "undec ds \<noteq> 0" using dec_small[of 0] by (cases "undec ds") auto
    moreover obtain k where "d = 48 + k" "k < 10"
      using snoc.prems(1) by (auto intro: that[of "d - 48"])
    ultimately show ?thesis using h(2) dec_step[of "10 * undec ds + k"] by (simp add: undec_append1)
  qed
qed simp

lemma all_digits_dec: "all_digits (dec n)"
  using dec_digits by (auto simp: all_digits_def)

lemma digits_value_Some:
  "digits_value ds (int n) = Some w \<longleftrightarrow>
     all_digits (map unat ds) \<and> w = int (foldl (\<lambda>n d. 10 * n + (d - 48)) n (map unat ds))"
proof (induction ds arbitrary: n)
  case (Cons d ds)
  have le: "0x30 \<le> d \<longleftrightarrow> 48 \<le> unat d" "d \<le> 0x39 \<longleftrightarrow> unat d < 58"
    by (auto simp: word_le_nat_alt)
  have v: "int n * 10 + uint (d - 0x30) = int (10 * n + (unat d - 48))" if "48 \<le> unat d"
  proof -
    have "unat (d - 0x30) = unat d - 48" using that by (simp add: unat_sub word_le_nat_alt)
    then have "uint (d - 0x30) = int (unat d - 48)" by (metis uint_nat)
    then show ?thesis by simp
  qed
  show ?case
  proof (cases "48 \<le> unat d \<and> unat d < 58")
    case True
    then have "digits_value (d # ds) (int n) = digits_value ds (int (10 * n + (unat d - 48)))"
      using v[OF conjunct1[OF True]] le by (metis digits_value.simps(2) True)
    then show ?thesis using True by (simp only: Cons.IH list.map all_digits_simps foldl.simps simp_thms)
  next
    case False
    then show ?thesis by (auto simp: le)
  qed
qed auto

text \<open>C25: A property name is an index exactly when it is the canonical decimal text of an
  integer of at most 15 digits: no leading zero, no minus zero, and the index is that integer.\<close>

theorem canonical_index_exact:
  "canonical_index u = Some i \<longleftrightarrow> map unat u = idec i \<and> \<bar>i\<bar> < 10 ^ 15"
proof -
  define neg where "neg = (u \<noteq> [] \<and> hd u = 0x2d)"
  define ws where "ws = (if neg then tl u else u)"
  define ds where "ds = map unat ws"
  have u: "map unat u = (if neg then 45 # ds else ds)"
    by (cases u) (auto simp: neg_def ds_def ws_def)
  have h: "hd ws = 0x30 \<longleftrightarrow> hd ds = 48" if "ds \<noteq> []"
    using that word_unat_eq_iff[of "hd ws" "0x30"] by (cases ws) (auto simp: ds_def)
  have c: "canonical_index u = Some i \<longleftrightarrow>
      ds \<noteq> [] \<and> length ds \<le> 15 \<and> (hd ds \<noteq> 48 \<or> length ds = 1 \<and> \<not> neg) \<and> all_digits ds
        \<and> i = (if neg then - int (undec ds) else int (undec ds))"
  proof (cases "ds = []")
    case True
    then show ?thesis by (simp add: canonical_index_def Let_def neg_def[symmetric] ws_def[symmetric] ds_def)
  next
    case False
    then have l: "ws \<noteq> []" "length ws = length ds"
      by (auto simp: ds_def)
    have "digits_value ws 0 = (if all_digits ds then Some (int (undec ds)) else None)"
      using digits_value_Some[of ws 0] by (cases "digits_value ws 0") (auto simp: ds_def[symmetric] undec_def)
    moreover have one: "1 < length ds \<longleftrightarrow> length ds \<noteq> 1" using False by (cases ds) auto
    ultimately show ?thesis
      using False by (auto simp: canonical_index_def Let_def neg_def[symmetric] ws_def[symmetric] l h[OF False] simp del: One_nat_def)
  qed
  show ?thesis
  proof
    assume "canonical_index u = Some i"
    then have d: "ds \<noteq> []" "length ds \<le> 15" "hd ds \<noteq> 48 \<or> length ds = 1 \<and> \<not> neg" "all_digits ds"
        "i = (if neg then - int (undec ds) else int (undec ds))"
      by (auto simp only: c)
    have "undec ds < 10 ^ 15"
      using undec_bound[OF d(4)] power_increasing[OF d(2), of "10::nat"] by simp
    moreover have e: "dec (undec ds) = ds" using dec_undec[OF d(4,1)] d(3) by blast
    moreover have "neg \<Longrightarrow> undec ds \<noteq> 0" using e d(3) dec_small[of 0] by (cases "undec ds") auto
    ultimately show "map unat u = idec i \<and> \<bar>i\<bar> < 10 ^ 15"
      by (auto simp: u d(5) idec_def)
  next
    assume a: "map unat u = idec i \<and> \<bar>i\<bar> < 10 ^ 15"
    have "45 \<notin> set (dec n)" for n using dec_digits[of 45 n] by auto
    then have "hd (dec n) \<noteq> 45" for n by (metis dec_nonempty hd_in_set)
    moreover have "neg \<longleftrightarrow> u \<noteq> [] \<and> hd (map unat u) = 45"
      using word_unat_eq_iff[of "hd u" "0x2d"] by (cases u) (auto simp: neg_def)
    ultimately have n: "neg \<longleftrightarrow> i < 0" "ds = dec (nat \<bar>i\<bar>)"
      using a u by (auto simp: idec_def split: if_splits)
    have "length ds \<le> 15" using dec_length[of 15 "nat \<bar>i\<bar>"] a by (simp add: n(2) nat_less_iff)
    moreover have "hd ds \<noteq> 48 \<or> length ds = 1 \<and> \<not> neg"
      using dec_no_leading_zero[of "nat \<bar>i\<bar>"] by (cases "i = 0") (auto simp: n dec_small)
    ultimately show "canonical_index u = Some i"
      using all_digits_dec[of "nat \<bar>i\<bar>"] by (auto simp: c n undec_dec)
  qed
qed

subsection \<open>Compressed rows\<close>

definition below_count :: "(nat \<times> nat) list \<Rightarrow> nat \<Rightarrow> nat" where
  "below_count pairs k = length (filter (\<lambda>p. fst p < k) pairs)"

definition row_of :: "(nat \<times> nat) list \<Rightarrow> nat \<Rightarrow> nat list" where
  "row_of pairs k = map snd (filter (\<lambda>p. fst p = k) pairs)"

lemma row_of_simps [simp]:
  "row_of [] k = []" "row_of (ps @ qs) k = row_of ps k @ row_of qs k" "row_of [p] k = (if fst p = k then [snd p] else [])"
  by (simp_all add: row_of_def)

lemma below_count_Suc: "below_count pairs (Suc k) = below_count pairs k + length (row_of pairs k)"
  by (induction pairs) (auto simp: below_count_def row_of_def)

lemma below_count_mono: "j \<le> k \<Longrightarrow> below_count pairs j \<le> below_count pairs k"
  by (induction pairs) (auto simp: below_count_def)

lemma below_count_all: "\<forall>p \<in> set pairs. fst p < keys \<Longrightarrow> below_count pairs keys = length pairs"
  by (simp add: below_count_def filter_True)

lemma csr_count_length [simp]: "length (csr_count pairs keys) = keys + 1"
proof -
  have "length (foldl (\<lambda>off (k, _). off[k := off ! k + 1]) off pairs) = length off" for off :: "nat list"
    by (induction pairs arbitrary: off) auto
  then show ?thesis by (simp only: csr_count_def length_replicate)
qed

lemma csr_count_nth: "k \<le> keys \<Longrightarrow> csr_count pairs keys ! k = length (row_of pairs k)"
proof (induction pairs rule: rev_induct)
  case (snoc p pairs)
  have "csr_count (pairs @ [p]) keys = (csr_count pairs keys)[fst p := csr_count pairs keys ! fst p + 1]"
    by (simp add: csr_count_def split: prod.split)
  then show ?case using snoc csr_count_length[of pairs keys] by (auto simp: nth_list_update)
qed (simp add: csr_count_def del: replicate_Suc)

text \<open>After the sums, an entry counts the pairs up to its key.\<close>

lemma csr_sum_nth:
  assumes "i \<le> keys" "length off = keys + 1" "\<And>k. k \<le> keys \<Longrightarrow> off ! k = length (row_of pairs k)"
  shows "csr_sum keys off ! i = below_count pairs (Suc i)"
proof -
  define f where "f = (\<lambda>off i. off[i := off ! i + off ! (i - 1) :: nat])"
  have "length (foldl f off [1..<n + 1]) = keys + 1
      \<and> (\<forall>i \<le> keys. foldl f off [1..<n + 1] ! i = (if i \<le> n then below_count pairs (Suc i) else length (row_of pairs i)))"
    if "n \<le> keys" for n
    using that
  proof (induction n)
    case 0
    then show ?case using assms(2,3) by (auto simp: below_count_Suc below_count_def[of _ 0])
  next
    case (Suc n)
    define xs where "xs = foldl f off [1..<n + 1]"
    have l: "length xs = keys + 1"
      and v: "\<And>i. i \<le> keys \<Longrightarrow> xs ! i = (if i \<le> n then below_count pairs (Suc i) else length (row_of pairs i))"
      using Suc by (auto simp: xs_def)
    have "foldl f off [1..<Suc n + 1] = xs[Suc n := xs ! Suc n + xs ! n]" by (simp add: xs_def f_def)
    then show ?case using l v[of n] v[of "Suc n"] v Suc.prems
      by (auto simp: nth_list_update below_count_Suc[of _ "Suc n"] le_Suc_eq)
  qed
  from this[of keys] show ?thesis using assms(1) by (simp add: csr_sum_def f_def)
qed

lemma csr_sum_length [simp]: "length (csr_sum keys off) = length off"
proof -
  have "length (foldl (\<lambda>off i. off[i := off ! i + off ! (i - 1) :: nat]) off is) = length off" for "is"
    by (induction "is" arbitrary: off) auto
  then show ?thesis by (simp add: csr_sum_def)
qed

text \<open>
  Placing the pairs from the last to the first: after the pairs \<open>qs\<close>, the entry of a key is the
  place after the ones of its key that are still to come, and the ones of \<open>qs\<close> stand from there.
\<close>

definition placed :: "(nat \<times> nat) list \<Rightarrow> (nat \<times> nat) list \<Rightarrow> nat \<Rightarrow> nat list \<times> nat list \<Rightarrow> bool" where
  "placed ps qs keys oi \<longleftrightarrow>
     length (fst oi) = keys + 1 \<and> length (snd oi) = length (ps @ qs)
     \<and> (\<forall>k \<le> keys. fst oi ! k = below_count (ps @ qs) k + length (row_of ps k))
     \<and> (\<forall>k < keys. \<forall>j < length (row_of qs k).
          snd oi ! (below_count (ps @ qs) k + length (row_of ps k) + j) = row_of qs k ! j)"

lemma placed_item:
  "placed ps qs keys oi \<Longrightarrow> k < keys \<Longrightarrow> j < length (row_of qs k) \<Longrightarrow>
    snd oi ! (below_count (ps @ qs) k + length (row_of ps k) + j) = row_of qs k ! j"
  by (simp add: placed_def)

lemma placed_step:
  assumes p: "placed (ps @ [(k, v)]) qs keys oi" and k: "k < keys" and all: "\<forall>p \<in> set (ps @ (k, v) # qs). fst p < keys"
  shows "placed ps ((k, v) # qs) keys (csr_place oi (k, v))"
proof -
  let ?all = "ps @ (k, v) # qs"
  have row_k: "row_of ((k, v) # qs) j = (if k = j then v # row_of qs j else row_of qs j)" for j
    by (simp add: row_of_def)
  define q where "q = below_count ?all k + length (row_of ps k)"
  have off: "fst oi ! k = Suc q" "length (fst oi) = keys + 1" "length (snd oi) = length ?all"
    using p k by (auto simp: placed_def q_def)
  have q_end: "q < below_count ?all (Suc k)"
    by (simp add: q_def below_count_Suc row_k)
  then have q: "q < length (snd oi)"
    using below_count_mono[of "Suc k" keys ?all] below_count_all[OF all] k off(3) by simp
  have place: "csr_place oi (k, v) = ((fst oi)[k := q], (snd oi)[q := v])"
    using off by (simp add: csr_place_def Let_def)
  have apart: "below_count ?all j + length (row_of ps j) + i \<noteq> q" if "j \<noteq> k" "i < length (row_of qs j)" for i j
  proof (cases "j < k")
    case True
    then have "below_count ?all (Suc j) \<le> below_count ?all k" by (intro below_count_mono) simp
    then show ?thesis using that by (simp add: q_def below_count_Suc row_k)
  next
    case False
    then have "below_count ?all (Suc k) \<le> below_count ?all j" using that by (intro below_count_mono) simp
    then show ?thesis using q_end by simp
  qed
  have "snd (csr_place oi (k, v)) ! (below_count ?all j + length (row_of ps j) + i) = row_of ((k, v) # qs) j ! i"
    if j: "j < keys" and i: "i < length (row_of ((k, v) # qs) j)" for i j
  proof (cases "j = k")
    case True
    have "snd oi ! (Suc q + n) = row_of qs k ! n" if "n < length (row_of qs k)" for n
      using placed_item[OF p k that] by (simp add: q_def)
    then show ?thesis using i q True by (cases i) (auto simp: row_k place q_def[symmetric])
  next
    case False
    have "snd oi ! (below_count ?all j + length (row_of ps j) + i) = row_of qs j ! i"
      using p j i False by (auto simp: placed_def row_k)
    moreover have "i < length (row_of qs j)" using i False by (simp add: row_k)
    ultimately show ?thesis using apart[OF False, of i] False by (simp add: row_k place)
  qed
  moreover have "fst (csr_place oi (k, v)) ! j = below_count ?all j + length (row_of ps j)" if "j \<le> keys" for j
    using p that k off by (auto simp: placed_def place nth_list_update q_def)
  ultimately show ?thesis using off by (simp add: placed_def place)
qed

lemma placed_all:
  assumes "placed (ps @ qs) rs keys oi" "\<forall>p \<in> set (ps @ qs @ rs). fst p < keys"
  shows "placed ps (qs @ rs) keys (foldl csr_place oi (rev qs))"
  using assms
proof (induction qs arbitrary: rs oi rule: rev_induct)
  case (snoc q qs)
  have "placed (ps @ qs) (q # rs) keys (csr_place oi q)"
    using placed_step[of "ps @ qs" "fst q" "snd q" rs keys oi] snoc.prems by simp
  then show ?case using snoc.IH[of "q # rs" "csr_place oi q"] snoc.prems by simp
qed simp

lemma csr_placed: "\<forall>p \<in> set pairs. fst p < keys \<Longrightarrow> placed [] pairs keys (csr pairs keys)"
proof -
  assume a: "\<forall>p \<in> set pairs. fst p < keys"
  have "placed pairs [] keys (csr_sum keys (csr_count pairs keys), replicate (length pairs) 0)"
    by (simp add: placed_def csr_sum_nth[where pairs = pairs] csr_count_nth below_count_Suc)
  then show ?thesis using placed_all[of "[]" pairs "[]" keys] a by (simp add: csr_def)
qed

text \<open>C26: The two tables of the program view hold what they were built from: the row of a key
  is in bounds and lists the values of the pairs with that key, in their order.\<close>

theorem csr_rows:
  assumes "\<forall>p \<in> set pairs. fst p < keys" "k < keys"
  shows "row (fst (csr pairs keys)) (snd (csr pairs keys)) k = Some (map snd (filter (\<lambda>p. fst p = k) pairs))"
proof -
  obtain off items where c: "csr pairs keys = (off, items)" by (cases "csr pairs keys") auto
  have p: "length off = keys + 1" "length items = length pairs"
      "\<And>j. j \<le> keys \<Longrightarrow> off ! j = below_count pairs j"
      "\<And>i. i < length (row_of pairs k) \<Longrightarrow> items ! (below_count pairs k + i) = row_of pairs k ! i"
    using csr_placed[OF assms(1)] assms(2) by (auto simp: placed_def c)
  have b: "off ! (k + 1) = below_count pairs k + length (row_of pairs k)" "off ! k = below_count pairs k"
    using p(3) assms(2) by (simp_all add: below_count_Suc)
  have e: "below_count pairs k + length (row_of pairs k) \<le> length items"
    using below_count_mono[of "Suc k" keys pairs] below_count_all[OF assms(1)] assms(2) p(2)
    by (simp add: below_count_Suc)
  have "take (length (row_of pairs k)) (drop (below_count pairs k) items) = row_of pairs k"
    using p(4) e by (intro nth_equalityI) auto
  then show ?thesis
    using b e p(1) assms(2) by (simp add: c row_def get_range_def get_def row_of_def)
qed

lemma csr_rows_witness:
  "row (fst (csr [(1, 7), (0, 8), (1, 9)] 2)) (snd (csr [(1, 7), (0, 8), (1, 9)] 2)) 1 = Some [7, 9]"
  using csr_rows[of "[(1, 7), (0, 8), (1, 9)]" 2 1] by simp

subsection \<open>The solver stops\<close>

inductive runs :: "env \<Rightarrow> sol \<Rightarrow> sol \<Rightarrow> bool" for e where
  "runs e s s"
| "solver_step e s = Some (True, s1) \<Longrightarrow> runs e s1 s2 \<Longrightarrow> runs e s s2"

lemma solver_step_climbs:
  assumes "solver_step e s = Some (True, s')"
  shows "climbs s s'"
proof -
  obtain f rest queued where "run e f (s\<lparr>s_queue := rest, s_queued := queued, s_run_id := s_run_id s + 1\<rparr>) = Some s'"
    using assms by (auto simp: solver_step_def bind_eq_Some_conv split: list.splits)
  from climb.run_R[OF this] show ?thesis
    by (rule climbs_trans[rotated])
      (auto simp: climbs_def list_all2_refl' val.below_refl taint.below_refl links_ok_def)
qed

lemma solver_step_done: "solver_step e s = Some (False, s') \<longleftrightarrow> s_queue s = [] \<and> s' = s"
  by (auto simp: solver_step_def bind_eq_Some_conv split: list.splits)

text \<open>C27: The solver's loop ends on every program and from every state: after finitely many runs
  it stands at a state where the queue is empty, which is its result, or where an index is out
  of range. On the way values, queries and flags have only moved up, and every path kept its
  number.\<close>

theorem solve_ends:
  "\<exists>s1. runs e s s1 \<and> climbs s s1
     \<and> (solve e s = Some s1 \<and> s_queue s1 = [] \<or> solve e s = None \<and> solver_step e s1 = None)"
proof (induction e s rule: solve.induct)
  case (1 e s)
  consider "solver_step e s = None" | s' where "solver_step e s = Some (True, s')"
    | "s_queue s = []" "solver_step e s = Some (False, s)"
    using solver_step_done by (metis (full_types) option.exhaust surj_pair)
  then show ?case
  proof cases
    case 1
    then show ?thesis by (intro exI[of _ s]) (simp add: runs.intros climbs_refl solve.simps[of e s])
  next
    case (2 s')
    obtain s1 where r: "runs e s' s1" "climbs s' s1"
        "solve e s' = Some s1 \<and> s_queue s1 = [] \<or> solve e s' = None \<and> solver_step e s1 = None"
      using "1.IH"[OF 2 refl] by blast
    moreover have "solve e s = solve e s'" using 2 by (simp add: solve.simps[of e s])
    ultimately show ?thesis
      using runs.intros(2)[OF 2 r(1)] climbs_trans[OF solver_step_climbs[OF 2] r(2)] by metis
  next
    case 3
    then show ?thesis by (intro exI[of _ s]) (simp add: runs.intros climbs_refl solve.simps[of e s])
  qed
qed

end
