(* ===== verification/FcReaders.thy ===== *)
theory FcReaders
  imports FcSolver
begin

text \<open>
  No update is lost: the solver of \<open>src/worktime/fc.rs\<close> remembers which functions have read a
  location in linked lists inside one vector, with a mark per location and a set of pairs to
  keep the lists short. Here these structures are related to the plain relation "function \<open>f\<close>
  has read location \<open>loc\<close>", for every operation and so for every state the solver reaches.
\<close>

subsection \<open>The readers of a location\<close>

inductive reads :: "(nat \<times> nat option) list \<Rightarrow> nat option \<Rightarrow> nat \<Rightarrow> bool" for es where
  "i < length es \<Longrightarrow> reads es (Some i) (fst (es ! i))"
| "i < length es \<Longrightarrow> reads es (snd (es ! i)) f \<Longrightarrow> reads es (Some i) f"

inductive_simps reads_None [simp]: "reads es None f"








subsection \<open>Reading registers the reader\<close>






subsection \<open>A write queues the readers\<close>













subsection \<open>The states between two runs\<close>













subsection \<open>A run of the solver\<close>









end
