(* ===== verification/Pipeline.thy ===== *)
theory Pipeline
  imports Disassembler ConfigSample FcSolver
begin

text \<open>
  \<open>src/worktime/pipeline.rs\<close>: from the source of a script to its configuration and the way it
  depends on the override header. The reconstruction of the interpreter from the syntax tree
  (\<open>deobfuscator::build_model\<close>) is the parameter \<open>build\<close>; the other stages are the models of
  the decoder, the disassembler, the extraction and the flow analysis. \<open>None\<close> is a panic.
\<close>

datatype 'd pipeline_error =
    PipeDeobfuscate 'd
  | PipeDecode decode_error
  | PipeDisassemble dis_error
  | PipeConfig config_error
  | PipeFc fc_error

record extracted =
  ex_config :: pow_config
  ex_fc :: fc_usage

definition run_pipeline :: "(str \<Rightarrow> 'd + build_model) \<Rightarrow> str \<Rightarrow> ('d pipeline_error + extracted) option" where
  "run_pipeline build source =
     (case res_bind (map_err PipeDeobfuscate (build source)) (\<lambda>model.
           res_bind (map_err PipeDecode (decode model)) (\<lambda>decoded.
           res_bind (map_err PipeDisassemble (disassemble model decoded)) (\<lambda>instrs. Inr (decoded, instrs)))) of
        Inl e \<Rightarrow> Some (Inl e)
      | Inr (decoded, instrs) \<Rightarrow>
          (case extract_config instrs (dc_pool decoded) of
             None \<Rightarrow> None
           | Some (Inl e) \<Rightarrow> Some (Inl (PipeConfig e))
           | Some (Inr config) \<Rightarrow>
               (case analyze instrs (dc_pool decoded) (pc_keys config) of
                  None \<Rightarrow> None
                | Some (Inl e) \<Rightarrow> Some (Inl (PipeFc e))
                | Some (Inr fc) \<Rightarrow> Some (Inr \<lparr>ex_config = config, ex_fc = fc\<rparr>))))"

lemma run_pipeline_Inr:
  assumes "run_pipeline build source = Some (Inr x)"
  obtains model decoded instrs where "build source = Inr model" "decode model = Inr decoded"
    "disassemble model decoded = Inr instrs" "extract_config instrs (dc_pool decoded) = Some (Inr (ex_config x))"
    "analyze instrs (dc_pool decoded) (pc_keys (ex_config x)) = Some (Inr (ex_fc x))"
  using assms by (auto simp: run_pipeline_def res_simps split: sum.splits option.splits)

text \<open>What the configuration of an extracted script guarantees to the encoder.\<close>

lemma run_pipeline_config:
  assumes "run_pipeline build source = Some (Inr x)"
  shows "f64_lt (f64_zero False) (pc_difficulty (ex_config x)) \<and> 1 \<le> pc_sub_count (ex_config x)
    \<and> pc_sub_count (ex_config x) < 2 ^ 32"
proof -
  obtain instrs pool where "extract_config instrs pool = Some (Inr (ex_config x))"
    using run_pipeline_Inr[OF assms] by metis
  from extract_config_cases[OF this] obtain p order suffix_read hexes where
    "pow_ok pool p" "extract_finish pool p order suffix_read hexes = Inr (ex_config x)" by blast
  from extract_finish_ok[OF this(2,1)] show ?thesis by simp
qed

end
