(* ===== verification/WorktimeRoute.thy ===== *)
theory WorktimeRoute
  imports Pipeline Encoder Cache
begin

text \<open>
  \<open>src/routes/worktime.rs\<close>: the handler that answers a request with a proof of work. It puts
  the components together: the cache resolves the domain to an extracted script, overrides
  from the request are applied when the script depends on them, and the encoder solves.

  The surroundings of one request are the record \<open>world\<close>: the clock at arrival and the
  encoder's clocks and random bytes, SHA-256, base64, the JSON parser, and what the cache
  answers for a domain. The texts of error replies are the values they are made from.
\<close>

subsection \<open>Requests and replies\<close>

definition PAYLOAD_PREFIX :: str where "PAYLOAD_PREFIX = chars ''{\"payload\":\"''"
definition PAYLOAD_SUFFIX :: str where "PAYLOAD_SUFFIX = chars ''\"}''"
definition ESCAPED_QUOTE :: str where "ESCAPED_QUOTE = [92, 34]"





subsection \<open>The handler\<close>



definition wrap_payload :: "str \<Rightarrow> str" where
  "wrap_payload cd =
     (case split_on 34 cd of
        [] \<Rightarrow> PAYLOAD_PREFIX @ PAYLOAD_SUFFIX
      | first_segment # segments \<Rightarrow>
          foldl (\<lambda>out segment. out @ ESCAPED_QUOTE @ segment) (PAYLOAD_PREFIX @ first_segment) segments @ PAYLOAD_SUFFIX)"





subsection \<open>The payload is one JSON string\<close>

text \<open>Reading a JSON string up to its closing quote, as far as the reply needs it: an escaped quote,
  backslash or slash stands for itself.\<close>

fun read_json_string :: "str \<Rightarrow> (str \<times> str) option" where
  "read_json_string [] = None"
| "read_json_string (c # s) =
     (if c = 34 then Some ([], s)
      else if c = 92 then
        (case s of
           d # r \<Rightarrow> if d = 34 \<or> d = 92 \<or> d = 47 then map_option (\<lambda>(t, u). (d # t, u)) (read_json_string r) else None
         | [] \<Rightarrow> None)
      else map_option (\<lambda>(t, u). (c # t, u)) (read_json_string s))"

definition escape_quotes :: "str \<Rightarrow> str" where
  "escape_quotes s = concat (map (\<lambda>c. if c = 34 then ESCAPED_QUOTE else [c]) s)"

lemma escape_quotes_simps [simp]:
  "escape_quotes [] = []" "escape_quotes (c # s) = (if c = 34 then [92, 34] else [c]) @ escape_quotes s"
  by (simp_all add: escape_quotes_def ESCAPED_QUOTE_def)

lemma fold_segments:
  "foldl (\<lambda>out seg. out @ ESCAPED_QUOTE @ seg) (x @ y) segs = x @ foldl (\<lambda>out seg. out @ ESCAPED_QUOTE @ seg) y segs"
  by (induction segs arbitrary: y) simp_all

lemma segments_escape:
  "split_on 34 s = seg # segs \<Longrightarrow> foldl (\<lambda>out seg. out @ ESCAPED_QUOTE @ seg) seg segs = escape_quotes s"
proof (induction s arbitrary: seg segs)
  case (Cons c s)
  obtain p ps where s: "split_on 34 s = p # ps" by (cases "split_on 34 s") auto
  show ?case
  proof (cases "c = 34")
    case True
    then have "seg = []" "segs = p # ps" using Cons.prems s by auto
    then show ?thesis using Cons.IH[OF s] True fold_segments[of ESCAPED_QUOTE p ps] by (simp add: ESCAPED_QUOTE_def)
  next
    case False
    then have "seg = c # p" "segs = ps" using Cons.prems s by auto
    then show ?thesis using Cons.IH[OF s] False fold_segments[of "[c]" p ps] by simp
  qed
qed simp

lemma wrap_payload_escape: "wrap_payload cd = PAYLOAD_PREFIX @ escape_quotes cd @ PAYLOAD_SUFFIX"
proof -
  obtain p ps where s: "split_on 34 cd = p # ps" by (cases "split_on 34 cd") auto
  then show ?thesis using segments_escape[OF s] fold_segments[of PAYLOAD_PREFIX p ps] by (simp add: wrap_payload_def)
qed

lemma read_escaped: "92 \<notin> set s \<Longrightarrow> read_json_string (escape_quotes s @ 34 # r) = Some (s, r)"
  by (induction s) auto

lemma wrap_payload_read:
  "92 \<notin> set cd \<Longrightarrow> read_json_string (drop (length PAYLOAD_PREFIX) (wrap_payload cd)) = Some (cd, chars ''}'')"
  using read_escaped[of cd "chars ''}''"] by (simp add: wrap_payload_escape PAYLOAD_SUFFIX_def chars_def)





subsection \<open>Properties\<close>

text \<open>The reply to a solved request is a JSON object whose payload string reads back as
  exactly the text that was wrapped, for every text without backslashes.\<close>

theorem wrap_payload_roundtrip:
  assumes "92 \<notin> set cd"
  shows "wrap_payload cd = PAYLOAD_PREFIX @ drop (length PAYLOAD_PREFIX) (wrap_payload cd)
    \<and> read_json_string (drop (length PAYLOAD_PREFIX) (wrap_payload cd)) = Some (cd, chars ''}'')"
  using wrap_payload_read[OF assms] by (simp add: wrap_payload_escape)

lemma wrap_payload_roundtrip_witness:
  "read_json_string (drop (length PAYLOAD_PREFIX) (wrap_payload (chars ''{\"a\":1}''))) = Some (chars ''{\"a\":1}'', chars ''}'')"
  using wrap_payload_roundtrip[of "chars ''{\"a\":1}''"] by (simp add: chars_def)











end
