(* ===== verification/PayloadIr.thy ===== *)
theory PayloadIr
  imports Model
begin

text \<open>
  \<open>src/payload/ir.rs\<close>: the intermediate representation of payload scripts. Expressions live in
  an arena and name their operands by index; argument lists are spans of a second vector.
  The operators come from the parser library and are the type variables \<open>'u\<close>, \<open>'b\<close>, \<open>'l\<close>
  (unary, binary, logical); whether a unary operator is \<open>delete\<close> is a parameter. The numbers
  of the code (\<open>u32\<close>, \<open>u16\<close>, \<open>u8\<close>) are natural numbers here; a length that is stored in a
  \<open>u32\<close> is cut off by \<open>as_u32\<close>. \<open>PoolRef\<close> is the record of the worktime model.
\<close>

subsection \<open>Spans\<close>

text \<open>The difference of two \<open>u32\<close>, which wraps.\<close>

definition sub_u32 :: "nat \<Rightarrow> nat \<Rightarrow> nat" where
  "sub_u32 a b = as_u32 (2 ^ 32 + a - b)"

lemma sub_u32_le [simp]: "b \<le> a \<Longrightarrow> a < 2 ^ 32 \<Longrightarrow> sub_u32 a b = a - b"
  by (simp add: sub_u32_def as_u32_def add.commute[of "4294967296"] flip: Nat.add_diff_assoc2)

record span32 =
  sp_start :: nat
  sp_len :: nat

definition EMPTY_SPAN :: span32 where "EMPTY_SPAN = \<lparr>sp_start = 0, sp_len = 0\<rparr>"

text \<open>Slicing by a span; \<open>None\<close> is the panic when it does not fit. Where the \<open>u32\<close> sum of the code
  wraps, its end is before its start and slicing panics too; here that end is past the vector,
  which has less than \<open>2 ^ 32\<close> elements.\<close>

definition span_of :: "'a list \<Rightarrow> span32 \<Rightarrow> 'a list option" where
  "span_of xs sp = get_range xs (sp_start sp) (sp_start sp + sp_len sp)"

subsection \<open>Expressions\<close>

type_synonym expr_id = nat
type_synonym str_id = nat

datatype runtime = RT_Global | RT_Code | RT_Dispatch | RT_MetaKey | RT_Regenerator | RT_Ctx nat nat

datatype (plugins only: code size) ('u, 'b, 'l) expr =
    E_Undef
  | E_Null
  | E_Bool bool
  | E_Num f64
  | E_Lit str_id
  | E_Slot nat
  | E_Reg nat
  | E_Frame
  | E_Scope
  | E_This
  | E_Callee
  | E_Exception
  | E_ExcRecord
  | E_Runtime runtime
  | E_Name str_id
  | E_Var expr_id
  | E_ScopeVar expr_id
  | E_FrameField str_id
  | E_ScopeField str_id
  | E_Member expr_id expr_id
  | E_Call expr_id span32
  | E_New expr_id span32
  | E_Apply expr_id expr_id expr_id
  | E_Construct expr_id expr_id
  | E_Unary 'u expr_id
  | E_Binary 'b expr_id expr_id
  | E_Logical 'l expr_id expr_id
  | E_Cond expr_id expr_id expr_id
  | E_Array span32
  | E_Object span32
  | E_Closure expr_id expr_id expr_id
  | E_Keys expr_id

text \<open>The operands of an expression, in the order in which the visitor gets them.\<close>

fun children :: "('u, 'b, 'l) expr \<Rightarrow> expr_id list \<Rightarrow> expr_id list option" where
  "children (E_Var a) args = Some [a]"
| "children (E_ScopeVar a) args = Some [a]"
| "children (E_Unary _ a) args = Some [a]"
| "children (E_Keys a) args = Some [a]"
| "children (E_Member a b) args = Some [a, b]"
| "children (E_Binary _ a b) args = Some [a, b]"
| "children (E_Logical _ a b) args = Some [a, b]"
| "children (E_Cond c a b) args = Some [c, a, b]"
| "children (E_Call c sp) args = map_option (\<lambda>xs. c # xs) (span_of args sp)"
| "children (E_New c sp) args = map_option (\<lambda>xs. c # xs) (span_of args sp)"
| "children (E_Apply c t a) args = Some [c, t, a]"
| "children (E_Construct c a) args = Some [c, a]"
| "children (E_Array sp) args = span_of args sp"
| "children (E_Object sp) args = span_of args sp"
| "children (E_Closure a b c) args = Some [a, b, c]"
| "children _ args = Some []"

text \<open>A visitor has a state of its own (\<open>FnMut\<close>).\<close>

fun visit_all :: "(nat \<Rightarrow> 's \<Rightarrow> nat \<times> 's) \<Rightarrow> nat list \<Rightarrow> 's \<Rightarrow> nat list \<times> 's" where
  "visit_all f [] s = ([], s)"
| "visit_all f (x # xs) s = (let (y, s) = f x s; (ys, s) = visit_all f xs s in (y # ys, s))"

definition remap_span ::
  "(nat \<Rightarrow> 's \<Rightarrow> nat \<times> 's) \<Rightarrow> nat list \<Rightarrow> span32 \<Rightarrow> nat list \<Rightarrow> 's \<Rightarrow> (span32 \<times> nat list \<times> 's) option" where
  "remap_span f src sp dst s =
     (case span_of src sp of
        None \<Rightarrow> None
      | Some xs \<Rightarrow>
          let start = as_u32 (length dst); (ys, s) = visit_all f xs s in
          Some (\<lparr>sp_start = start, sp_len = sp_len sp\<rparr>, dst @ ys, s))"

definition remap1 :: "(nat \<Rightarrow> 'e) \<Rightarrow> (nat \<Rightarrow> 's \<Rightarrow> nat \<times> 's) \<Rightarrow> nat \<Rightarrow> nat list \<Rightarrow> 's \<Rightarrow> ('e \<times> nat list \<times> 's) option" where
  "remap1 mk f a dst s = (let (a, s) = f a s in Some (mk a, dst, s))"

definition remap2 ::
  "(nat \<Rightarrow> nat \<Rightarrow> 'e) \<Rightarrow> (nat \<Rightarrow> 's \<Rightarrow> nat \<times> 's) \<Rightarrow> nat \<Rightarrow> nat \<Rightarrow> nat list \<Rightarrow> 's \<Rightarrow> ('e \<times> nat list \<times> 's) option" where
  "remap2 mk f a b dst s = (let (a, s) = f a s; (b, s) = f b s in Some (mk a b, dst, s))"

definition remap3 ::
  "(nat \<Rightarrow> nat \<Rightarrow> nat \<Rightarrow> 'e) \<Rightarrow> (nat \<Rightarrow> 's \<Rightarrow> nat \<times> 's) \<Rightarrow> nat \<Rightarrow> nat \<Rightarrow> nat \<Rightarrow> nat list \<Rightarrow> 's \<Rightarrow> ('e \<times> nat list \<times> 's) option" where
  "remap3 mk f a b c dst s = (let (a, s) = f a s; (b, s) = f b s; (c, s) = f c s in Some (mk a b c, dst, s))"

fun remap ::
  "(nat \<Rightarrow> 's \<Rightarrow> nat \<times> 's) \<Rightarrow> nat list \<Rightarrow> ('u, 'b, 'l) expr \<Rightarrow> nat list \<Rightarrow> 's
    \<Rightarrow> (('u, 'b, 'l) expr \<times> nat list \<times> 's) option"
where
  "remap f src (E_Var a) dst s = remap1 E_Var f a dst s"
| "remap f src (E_ScopeVar a) dst s = remap1 E_ScopeVar f a dst s"
| "remap f src (E_Unary p a) dst s = remap1 (E_Unary p) f a dst s"
| "remap f src (E_Keys a) dst s = remap1 E_Keys f a dst s"
| "remap f src (E_Member a b) dst s = remap2 E_Member f a b dst s"
| "remap f src (E_Binary p a b) dst s = remap2 (E_Binary p) f a b dst s"
| "remap f src (E_Logical p a b) dst s = remap2 (E_Logical p) f a b dst s"
| "remap f src (E_Cond c a b) dst s = remap3 E_Cond f c a b dst s"
| "remap f src (E_Call c sp) dst s =
     (let (c, s) = f c s in map_option (\<lambda>(sp, dst, s). (E_Call c sp, dst, s)) (remap_span f src sp dst s))"
| "remap f src (E_New c sp) dst s =
     (let (c, s) = f c s in map_option (\<lambda>(sp, dst, s). (E_New c sp, dst, s)) (remap_span f src sp dst s))"
| "remap f src (E_Apply c t a) dst s = remap3 E_Apply f c t a dst s"
| "remap f src (E_Construct c a) dst s = remap2 E_Construct f c a dst s"
| "remap f src (E_Array sp) dst s =
     map_option (\<lambda>(sp, dst, s). (E_Array sp, dst, s)) (remap_span f src sp dst s)"
| "remap f src (E_Object sp) dst s =
     map_option (\<lambda>(sp, dst, s). (E_Object sp, dst, s)) (remap_span f src sp dst s)"
| "remap f src (E_Closure a b c) dst s = remap3 E_Closure f a b c dst s"
| "remap f src leaf dst s = Some (leaf, dst, s)"

definition effectful :: "('u \<Rightarrow> bool) \<Rightarrow> ('u, 'b, 'l) expr \<Rightarrow> bool" where
  "effectful is_delete e \<longleftrightarrow>
     (case e of
        E_Call _ _ \<Rightarrow> True | E_New _ _ \<Rightarrow> True | E_Apply _ _ _ \<Rightarrow> True | E_Construct _ _ \<Rightarrow> True
      | E_Unary u _ \<Rightarrow> is_delete u | _ \<Rightarrow> False)"

subsection \<open>Statements\<close>

datatype (plugins only: code size) stmt =
    S_SetDest nat expr_id
  | S_SetReg nat expr_id
  | S_SetProp expr_id expr_id expr_id
  | S_SetVar expr_id expr_id
  | S_DeclVar expr_id expr_id
  | S_SetFrameField str_id expr_id
  | S_SetScopeField str_id expr_id
  | S_SetCatch expr_id
  | S_SetFinally expr_id
  | S_Eval expr_id
  | S_If expr_id span32 span32
  | S_Jump expr_id
  | S_Return expr_id
  | S_Throw expr_id
  | S_Halt

fun stmt_exprs :: "stmt \<Rightarrow> expr_id list" where
  "stmt_exprs (S_SetDest _ v) = [v]"
| "stmt_exprs (S_SetReg _ v) = [v]"
| "stmt_exprs (S_SetFrameField _ v) = [v]"
| "stmt_exprs (S_SetScopeField _ v) = [v]"
| "stmt_exprs (S_SetProp x k v) = [x, k, v]"
| "stmt_exprs (S_SetVar k v) = [k, v]"
| "stmt_exprs (S_DeclVar k v) = [k, v]"
| "stmt_exprs (S_SetCatch v) = [v]"
| "stmt_exprs (S_SetFinally v) = [v]"
| "stmt_exprs (S_Eval v) = [v]"
| "stmt_exprs (S_Jump v) = [v]"
| "stmt_exprs (S_Return v) = [v]"
| "stmt_exprs (S_Throw v) = [v]"
| "stmt_exprs (S_If c _ _) = [c]"
| "stmt_exprs S_Halt = []"

fun map_exprs :: "(nat \<Rightarrow> 's \<Rightarrow> nat \<times> 's) \<Rightarrow> stmt \<Rightarrow> 's \<Rightarrow> stmt \<times> 's" where
  "map_exprs f (S_SetDest d v) s = (let (v, s) = f v s in (S_SetDest d v, s))"
| "map_exprs f (S_SetReg r v) s = (let (v, s) = f v s in (S_SetReg r v, s))"
| "map_exprs f (S_SetFrameField k v) s = (let (v, s) = f v s in (S_SetFrameField k v, s))"
| "map_exprs f (S_SetScopeField k v) s = (let (v, s) = f v s in (S_SetScopeField k v, s))"
| "map_exprs f (S_SetProp x k v) s =
     (let (x, s) = f x s; (k, s) = f k s; (v, s) = f v s in (S_SetProp x k v, s))"
| "map_exprs f (S_SetVar k v) s = (let (k, s) = f k s; (v, s) = f v s in (S_SetVar k v, s))"
| "map_exprs f (S_DeclVar k v) s = (let (k, s) = f k s; (v, s) = f v s in (S_DeclVar k v, s))"
| "map_exprs f (S_SetCatch v) s = (let (v, s) = f v s in (S_SetCatch v, s))"
| "map_exprs f (S_SetFinally v) s = (let (v, s) = f v s in (S_SetFinally v, s))"
| "map_exprs f (S_Eval v) s = (let (v, s) = f v s in (S_Eval v, s))"
| "map_exprs f (S_Jump v) s = (let (v, s) = f v s in (S_Jump v, s))"
| "map_exprs f (S_Return v) s = (let (v, s) = f v s in (S_Return v, s))"
| "map_exprs f (S_Throw v) s = (let (v, s) = f v s in (S_Throw v, s))"
| "map_exprs f (S_If c t e) s = (let (c, s) = f c s in (S_If c t e, s))"
| "map_exprs f S_Halt s = (S_Halt, s)"

subsection \<open>Templates of handlers\<close>

datatype read_kind = Read_Value | Read_Reg | Read_Dest | Read_Pc

record seek =
  sk_at :: nat
  sk_slot :: nat

record branch =
  br_cond :: expr_id
  br_when :: bool
  br_slot :: nat

record ('u, 'b, 'l) template =
  tp_reads :: "read_kind list"
  tp_seeks :: "seek list"
  tp_branch :: "branch option"
  tp_falls :: bool
  tp_dynamic :: bool
  tp_closures :: "nat list"
  tp_targets :: "nat list"
  tp_exprs :: "('u, 'b, 'l) expr list"
  tp_args :: "expr_id list"
  tp_stmts :: "stmt list"
  tp_body :: span32

subsection \<open>Programs\<close>

datatype poperand =
    PO_Int i32
  | PO_Dbl f64
  | PO_Str pool_ref
  | PO_True
  | PO_False
  | PO_Null
  | PO_Undef
  | PO_Reg i32
  | PO_Dest i32
  | PO_Pc nat

record pinstr =
  pi_pc :: nat
  pi_handler :: nat
  pi_ops :: span32
  pi_next :: nat
  pi_target :: "nat option"

datatype pterm =
    T_Next nat
  | T_Jump nat
  | T_Branch expr_id bool nat nat
  | T_Exit
  | T_Dynamic "nat option"
  | T_Invalid

record pblock =
  pb_pc :: nat
  pb_instrs :: span32
  pb_term :: pterm

record pfunction =
  pf_entry :: nat
  pf_blocks :: span32

subsection \<open>Interned strings\<close>

record interner =
  it_strings :: "str list"
  it_index :: "str \<Rightarrow> nat option"

definition interner_new :: interner where "interner_new = \<lparr>it_strings = [], it_index = (\<lambda>_. None)\<rparr>"

definition interner_contains :: "interner \<Rightarrow> str \<Rightarrow> bool" where
  "interner_contains it s \<longleftrightarrow> it_index it s \<noteq> None"

definition intern :: "interner \<Rightarrow> str \<Rightarrow> nat \<times> interner" where
  "intern it s =
     (case it_index it s of
        Some i \<Rightarrow> (i, it)
      | None \<Rightarrow>
          let i = as_u32 (length (it_strings it)) in
          (i, \<lparr>it_strings = it_strings it @ [s], it_index = (it_index it)(s \<mapsto> i)\<rparr>))"

definition interner_get :: "interner \<Rightarrow> nat \<Rightarrow> str option" where
  "interner_get it i = get (it_strings it) i"

subsection \<open>Properties\<close>

lemma visit_all_length: "visit_all f xs s = (ys, s') \<Longrightarrow> length ys = length xs"
  by (induction xs arbitrary: ys s) (auto simp: Let_def split: prod.splits)

lemma remap_span_spec:
  assumes "span_of src sp = Some xs" "length dst + length xs < 2 ^ 32" "visit_all f xs s = (ys, s')"
  shows "\<exists>sp'. remap_span f src sp dst s = Some (sp', dst @ ys, s') \<and> span_of (dst @ ys) sp' = Some ys"
proof -
  have l: "sp_len sp = length xs" "length ys = length xs"
    using assms(1) visit_all_length[OF assms(3)] by (auto simp: span_of_def get_range_def split: if_splits)
  have "as_u32 (length dst) = length dst" using assms(2) by (simp add: as_u32_def)
  then show ?thesis using assms(1,3) l by (simp add: remap_span_def span_of_def get_range_def Let_def)
qed

lemma remap_span_None: "span_of src sp = None \<Longrightarrow> remap_span f src sp dst s = None"
  by (simp add: remap_span_def)

lemma remap_fixed:
  "\<exists>a' s'. remap1 mk1 f a dst s = Some (mk1 a', dst, s') \<and> visit_all f [a] s = ([a'], s')"
  "\<exists>a' b' s'. remap2 mk2 f a b dst s = Some (mk2 a' b', dst, s') \<and> visit_all f [a, b] s = ([a', b'], s')"
  "\<exists>a' b' c' s'. remap3 mk3 f a b c dst s = Some (mk3 a' b' c', dst, s') \<and> visit_all f [a, b, c] s = ([a', b', c'], s')"
  by (simp_all add: remap1_def remap2_def remap3_def Let_def split_beta)

lemma remap_with_head:
  assumes "span_of src sp = Some xs" "f c s = (c', s1)" "length dst + length (c # xs) < 2 ^ 32"
    and "visit_all f (c # xs) s = (ys, s')"
  shows "\<exists>sp' ys'. ys = c' # ys' \<and> remap_span f src sp dst s1 = Some (sp', dst @ ys', s')
    \<and> span_of (dst @ ys') sp' = Some ys'"
  using remap_span_spec[OF assms(1), of dst f s1] assms(2-4) by (auto simp: Let_def split_beta)

text \<open>Rewriting an expression visits its operands in the order of the visitor, each once, with
  the state of the rewriter passed along; the operands of the new expression are the results,
  and the vector of arguments has only grown. It panics exactly when the visitor does.\<close>

theorem remap_children:
  assumes "children e src = Some xs" "length dst + length xs < 2 ^ 32" "visit_all f xs s = (ys, s')"
  shows "\<exists>e' more. remap f src e dst s = Some (e', dst @ more, s') \<and> children e' (dst @ more) = Some ys"
proof -
  have leaf: "xs = [] \<Longrightarrow> ys = [] \<and> s' = s" using assms(3) by auto
  have head: "\<exists>sp' ys'. ys = c' # ys' \<and> remap_span f src sp dst s1 = Some (sp', dst @ ys', s')
      \<and> span_of (dst @ ys') sp' = Some ys'" if "xs = c # zs" "span_of src sp = Some zs" "f c s = (c', s1)" for c c' s1 zs sp
    using remap_with_head[of src sp zs f c s c' s1 dst ys s'] assms(2,3) that by simp
  have bare: "\<exists>sp'. remap_span f src sp dst s = Some (sp', dst @ ys, s') \<and> span_of (dst @ ys) sp' = Some ys"
    if "span_of src sp = Some xs" for sp
    by (rule remap_span_spec[OF that assms(2,3)])
  show ?thesis
  proof (cases e)
    case (E_Call c sp)
    then obtain zs where z: "xs = c # zs" "span_of src sp = Some zs" using assms(1) by auto
    obtain c' s1 where "f c s = (c', s1)" by fastforce
    then show ?thesis using head[OF z] E_Call by fastforce
  next
    case (E_New c sp)
    then obtain zs where z: "xs = c # zs" "span_of src sp = Some zs" using assms(1) by auto
    obtain c' s1 where "f c s = (c', s1)" by fastforce
    then show ?thesis using head[OF z] E_New by fastforce
  next
    case (E_Array sp)
    then show ?thesis using bare[of sp] assms(1) by fastforce
  next
    case (E_Object sp)
    then show ?thesis using bare[of sp] assms(1) by fastforce
  qed (use assms(1,3) leaf in \<open>auto simp: remap1_def remap2_def remap3_def Let_def split_beta\<close>)
qed

lemma remap_children_witness:
  "\<exists>e' more. remap (\<lambda>x (n::nat). (x + n, n + 1)) [7, 8] (E_Call 3 \<lparr>sp_start = 0, sp_len = 2\<rparr> :: (unit, unit, unit) expr) [5] 0
      = Some (e', [5] @ more, 3) \<and> children e' ([5] @ more) = Some [3, 8, 10]"
  by (rule remap_children[where xs = "[3, 7, 8]"]) (simp_all add: span_of_def get_range_def)

text \<open>The strings of an interner are all different and its index is their positions.\<close>

definition interner_ok :: "interner \<Rightarrow> bool" where
  "interner_ok it \<longleftrightarrow> (\<forall>s i. it_index it s = Some i \<longleftrightarrow> i < length (it_strings it) \<and> it_strings it ! i = s)"

lemma interner_new_ok: "interner_ok interner_new"
  by (simp add: interner_ok_def interner_new_def)

text \<open>Interning gives a number under which the string is found again, keeps every earlier
  number, gives equal strings equal numbers and different strings different ones.\<close>

theorem intern_roundtrip:
  assumes "interner_ok it" "length (it_strings it) < 2 ^ 32" "intern it s = (i, it')"
  shows "interner_ok it' \<and> interner_get it' i = Some s \<and> interner_contains it' s
    \<and> (\<forall>r. interner_get it' i = Some r \<longrightarrow> r = s)
    \<and> (\<forall>j < length (it_strings it). interner_get it' j = interner_get it j)
    \<and> (interner_contains it s \<longrightarrow> it' = it) \<and> intern it' s = (i, it')"
proof (cases "it_index it s")
  case (Some j)
  then have e: "i = j" "it' = it" "intern it s = (j, it)" using assms(3) by (auto simp: intern_def)
  moreover have "j < length (it_strings it)" "it_strings it ! j = s" using Some assms(1) by (auto simp: interner_ok_def)
  ultimately show ?thesis using assms(1) Some by (simp add: interner_get_def get_def interner_contains_def)
next
  case None
  have l: "as_u32 (length (it_strings it)) = length (it_strings it)" using assms(2) by (simp add: as_u32_def)
  have i: "i = length (it_strings it)" "it' = \<lparr>it_strings = it_strings it @ [s], it_index = (it_index it)(s \<mapsto> i)\<rparr>"
    using None assms(3) l by (auto simp: intern_def Let_def)
  have fresh: "it_strings it ! j \<noteq> s" if "j < length (it_strings it)" for j
    using None assms(1) that by (metis interner_ok_def option.distinct(1))
  have "interner_ok it'"
    using assms(1) fresh i by (auto simp: interner_ok_def nth_append less_Suc_eq)
  then show ?thesis
    using None i by (auto simp: interner_get_def get_def interner_contains_def intern_def nth_append)
qed

lemma intern_roundtrip_witness:
  "interner_get (snd (intern interner_new (chars ''a''))) 0 = Some (chars ''a'')"
  using intern_roundtrip[OF interner_new_ok, of "chars ''a''" 0 "snd (intern interner_new (chars ''a''))"]
  by (simp add: intern_def interner_new_def as_u32_def)

end
