(* ===== verification/PayloadDisasm.thy ===== *)
theory PayloadDisasm
  imports PayloadIr Disassembler "HOL-Library.Monad_Syntax"
begin

text \<open>
  \<open>src/payload/disasm.rs\<close>: instructions of a payload script. \<open>pdecode\<close> reads the operands of one
  instruction as its template says. The disassembler uses a faster decoder instead: \<open>shapes_new\<close>
  compiles all templates into one byte program, and \<open>fast_decode\<close> interprets it with a table of
  the tags. The work list of \<open>disassemble_payload\<close> collects what is reachable from an entry.

  Sums of positions are \<open>usize\<close>; \<open>as_u32\<close> stands for the casts. \<open>2f64.powi\<close>, whose precision
  the standard library leaves open, is a field of the decoder.
\<close>

subsection \<open>The decoder\<close>

abbreviation (input) NO_INSTR :: nat where "NO_INSTR \<equiv> 0"
abbreviation (input) BAD_INSTR :: nat where "BAD_INSTR \<equiv> 4294967295"
abbreviation (input) NO_GEN :: nat where "NO_GEN \<equiv> 65535"

record pdecoder =
  dr_code :: "i32 list"
  dr_tags :: tags
  dr_value_shift :: nat
  dr_reg_shift :: nat
  dr_dest_shift :: nat
  dr_len_first :: bool
  dr_pool_len :: nat
  dr_powi :: "int \<Rightarrow> f64"

definition shr :: "i32 \<Rightarrow> nat \<Rightarrow> i32" where
  "shr w n = signed_drop_bit (n mod 32) w"

definition int_target :: "poperand \<Rightarrow> nat option" where
  "int_target x = (case x of PO_Int i \<Rightarrow> if 0 \<le> sint i then Some (unat i) else None | PO_Pc p \<Rightarrow> Some p | _ \<Rightarrow> None)"

definition pdouble :: "(int \<Rightarrow> f64) \<Rightarrow> i32 \<Rightarrow> i32 \<Rightarrow> f64" where
  "pdouble pow_of hi lo =
     (let sign = f64_of_int (if hi AND SIGN_MASK \<noteq> 0 then -1 else 1);
          exp = sint (signed_drop_bit 20 (hi AND EXP_MASK));
          x = f64_add (f64_mul (f64_of_int (sint (hi AND MANT_MASK))) (f64_of_int (2 ^ 32))) (f64_of_int (uint lo))
      in if exp = 2047
         then (if \<not> f64_eq x (f64_zero False) then FNan else f64_mul sign (FInf False))
         else let x' = (if exp \<noteq> 0 then f64_add x (f64_of_int (2 ^ 52)) else x);
                  exp' = (if exp \<noteq> 0 then exp else exp + 1)
           in f64_mul (f64_mul sign x') (pow_of (exp' - 1075)))"

definition read_string_ref :: "pdecoder \<Rightarrow> nat \<Rightarrow> (poperand \<times> nat) option" where
  "read_string_ref d at' = do {
     a \<leftarrow> get (dr_code d) at';
     b \<leftarrow> get (dr_code d) (at' + 1);
     let (len, off) = (if dr_len_first d then (a, b) else (b, a));
     if sint len < 0 \<or> sint off < 0 \<or> dr_pool_len d < unat off + unat len then None
     else Some (PO_Str \<lparr>pr_off = unat off, pr_len = unat len\<rparr>, at' + 2) }"

definition read_double :: "pdecoder \<Rightarrow> nat \<Rightarrow> (poperand \<times> nat) option" where
  "read_double d at' = do {
     hi \<leftarrow> get (dr_code d) at';
     lo \<leftarrow> get (dr_code d) (at' + 1);
     Some (PO_Dbl (pdouble (dr_powi d) hi lo), at' + 2) }"

definition pvalue :: "pdecoder \<Rightarrow> nat \<Rightarrow> (poperand \<times> nat) option" where
  "pvalue d at' = do {
     w \<leftarrow> get (dr_code d) at';
     let t = dr_tags d;
     if w AND 1 \<noteq> 0 then Some (PO_Int (signed_drop_bit 1 w), at' + 1)
     else if w = tag_string t then read_string_ref d (at' + 1)
     else if w = tag_double t then read_double d (at' + 1)
     else if w = tag_true t then Some (PO_True, at' + 1)
     else if w = tag_false t then Some (PO_False, at' + 1)
     else if w = tag_null t then Some (PO_Null, at' + 1)
     else if w = tag_undefined t then Some (PO_Undef, at' + 1)
     else Some (PO_Reg (shr w (dr_value_shift d)), at' + 1) }"

definition read_op :: "pdecoder \<Rightarrow> (nat \<Rightarrow> (poperand \<times> nat) option) \<Rightarrow> read_kind \<Rightarrow> nat \<Rightarrow> (poperand \<times> nat) option" where
  "read_op d value_at kind at' =
     (case kind of
        Read_Value \<Rightarrow> value_at at'
      | Read_Reg \<Rightarrow> do { w \<leftarrow> get (dr_code d) at'; Some (PO_Reg (shr w (dr_reg_shift d)), at' + 1) }
      | Read_Dest \<Rightarrow> do {
          w \<leftarrow> get (dr_code d) at';
          let r = shr w (dr_dest_shift d);
          if sint r < 0 then None else Some (PO_Dest r, at' + 1) }
      | Read_Pc \<Rightarrow> Some (PO_Pc (as_u32 at'), at' + 1))"

text \<open>A seek moves the position to the target that an earlier operand holds.\<close>

definition seek_to :: "poperand list \<Rightarrow> seek \<Rightarrow> nat option" where
  "seek_to ops s = do { x \<leftarrow> get ops (sk_slot s); int_target x }"

fun run_seeks :: "poperand list \<Rightarrow> nat \<Rightarrow> seek list \<Rightarrow> nat \<Rightarrow> (nat \<times> seek list) option" where
  "run_seeks ops i [] at' = Some (at', [])"
| "run_seeks ops i (s # ss) at' =
     (if sk_at s = i then do { t \<leftarrow> seek_to ops s; run_seeks ops i ss t } else Some (at', s # ss))"

fun last_seeks :: "poperand list \<Rightarrow> seek list \<Rightarrow> nat \<Rightarrow> nat option" where
  "last_seeks ops [] at' = Some at'"
| "last_seeks ops (s # ss) at' = do { t \<leftarrow> seek_to ops s; last_seeks ops ss t }"

fun decode_reads :: "pdecoder \<Rightarrow> read_kind list \<Rightarrow> nat \<Rightarrow> seek list \<Rightarrow> nat \<Rightarrow> poperand list \<Rightarrow> (poperand list \<times> nat) option" where
  "decode_reads d [] i seeks at' ops = do { at' \<leftarrow> last_seeks ops seeks at'; Some (ops, at') }"
| "decode_reads d (kind # kinds) i seeks at' ops = do {
     (at', seeks) \<leftarrow> run_seeks ops i seeks at';
     (x, at') \<leftarrow> read_op d (pvalue d) kind at';
     decode_reads d kinds (i + 1) seeks at' (ops @ [x]) }"

definition pdecode :: "pdecoder \<Rightarrow> nat \<Rightarrow> ('u, 'b, 'l) template \<Rightarrow> (poperand list \<times> nat \<times> nat option) option" where
  "pdecode d pc tpl = do {
     (ops, at') \<leftarrow> decode_reads d (tp_reads tpl) 0 (tp_seeks tpl) (pc + 1) [];
     tgt \<leftarrow> (case tp_branch tpl of
         Some b \<Rightarrow> do { x \<leftarrow> get ops (br_slot b); t \<leftarrow> int_target x; Some (Some t) }
       | None \<Rightarrow> Some None);
     if 2 ^ 32 - 1 < at' then None else Some (ops, at', tgt) }"

subsection \<open>Templates as byte programs\<close>

abbreviation (input) OP_VALUE :: nat where "OP_VALUE \<equiv> 0"
abbreviation (input) OP_REG :: nat where "OP_REG \<equiv> 1"
abbreviation (input) OP_DEST :: nat where "OP_DEST \<equiv> 2"
abbreviation (input) OP_PC :: nat where "OP_PC \<equiv> 3"
abbreviation (input) OP_SEEK :: nat where "OP_SEEK \<equiv> 128"
abbreviation (input) NO_SLOT :: nat where "NO_SLOT \<equiv> 255"
abbreviation (input) TAG_SPAN :: nat where "TAG_SPAN \<equiv> 4096"

record pshape =
  ps_ok :: bool
  ps_falls :: bool
  ps_branch :: nat
  ps_code :: span32
  ps_links :: span32
  ps_closures :: nat

definition no_shape :: pshape where
  "no_shape = \<lparr>ps_ok = False, ps_falls = False, ps_branch = 0, ps_code = EMPTY_SPAN, ps_links = EMPTY_SPAN, ps_closures = 0\<rparr>"

record pshapes =
  sh_code :: "nat list"
  sh_links :: "nat list"
  sh_shapes :: "pshape list"

definition kind_op :: "read_kind \<Rightarrow> nat" where
  "kind_op kind = (case kind of Read_Value \<Rightarrow> OP_VALUE | Read_Reg \<Rightarrow> OP_REG | Read_Dest \<Rightarrow> OP_DEST | Read_Pc \<Rightarrow> OP_PC)"

fun seek_code :: "nat \<Rightarrow> seek list \<Rightarrow> nat list \<times> seek list" where
  "seek_code i [] = ([], [])"
| "seek_code i (s # ss) =
     (if sk_at s = i then let (code, rest) = seek_code i ss in (OP_SEEK # sk_slot s # code, rest) else ([], s # ss))"

definition last_seek_code :: "seek list \<Rightarrow> nat list" where
  "last_seek_code seeks = concat (map (\<lambda>s. [OP_SEEK, sk_slot s]) seeks)"

fun reads_code :: "read_kind list \<Rightarrow> nat \<Rightarrow> seek list \<Rightarrow> nat list" where
  "reads_code [] i seeks = last_seek_code seeks"
| "reads_code (kind # kinds) i seeks =
     (let (code, seeks) = seek_code i seeks in code @ kind_op kind # reads_code kinds (i + 1) seeks)"

definition add_shape :: "pshapes \<Rightarrow> 'e + ('u, 'b, 'l) template \<Rightarrow> pshapes" where
  "add_shape sh t =
     (case t of
        Inl _ \<Rightarrow> sh\<lparr>sh_shapes := sh_shapes sh @ [no_shape]\<rparr>
      | Inr t \<Rightarrow>
          let start = as_u32 (length (sh_code sh)); lstart = as_u32 (length (sh_links sh));
              code = sh_code sh @ reads_code (tp_reads t) 0 (tp_seeks t);
              links = sh_links sh @ tp_closures t @ tp_targets t
          in \<lparr>sh_code = code, sh_links = links, sh_shapes = sh_shapes sh @
               [\<lparr>ps_ok = True, ps_falls = tp_falls t,
                 ps_branch = (case tp_branch t of Some b \<Rightarrow> br_slot b | None \<Rightarrow> NO_SLOT),
                 ps_code = \<lparr>sp_start = start, sp_len = sub_u32 (as_u32 (length code)) start\<rparr>,
                 ps_links = \<lparr>sp_start = lstart, sp_len = sub_u32 (as_u32 (length links)) lstart\<rparr>,
                 ps_closures = length (tp_closures t) mod 256\<rparr>]\<rparr>)"

definition shapes_new :: "('e + ('u, 'b, 'l) template) list \<Rightarrow> pshapes" where
  "shapes_new templates = foldl add_shape \<lparr>sh_code = [], sh_links = [], sh_shapes = []\<rparr> templates"

subsection \<open>The fast decoder\<close>

datatype tag_kind = K_Reg | K_Str | K_Dbl | K_True | K_False | K_Null | K_Undef

record fast =
  ft_dec :: pdecoder
  ft_kinds :: "tag_kind list"

definition set_kind :: "tag_kind list \<Rightarrow> i32 \<times> tag_kind \<Rightarrow> tag_kind list" where
  "set_kind ks wk = (if 0 \<le> sint (fst wk) \<and> sint (fst wk) < int TAG_SPAN then ks[unat (fst wk) := snd wk] else ks)"

definition fast_new :: "pdecoder \<Rightarrow> fast" where
  "fast_new d =
     (let t = dr_tags d in
      \<lparr>ft_dec = d,
       ft_kinds = foldl set_kind (replicate TAG_SPAN K_Reg)
         [(tag_string t, K_Str), (tag_double t, K_Dbl), (tag_true t, K_True), (tag_false t, K_False),
          (tag_null t, K_Null), (tag_undefined t, K_Undef)]\<rparr>)"

definition fast_kind :: "fast \<Rightarrow> i32 \<Rightarrow> tag_kind" where
  "fast_kind ft w =
     (if unat w < TAG_SPAN then ft_kinds ft ! unat w
      else let t = dr_tags (ft_dec ft) in
        if w = tag_string t then K_Str
        else if w = tag_double t then K_Dbl
        else if w = tag_true t then K_True
        else if w = tag_false t then K_False
        else if w = tag_null t then K_Null
        else if w = tag_undefined t then K_Undef
        else K_Reg)"

definition fast_value :: "fast \<Rightarrow> nat \<Rightarrow> (poperand \<times> nat) option" where
  "fast_value ft at' = do {
     let d = ft_dec ft;
     w \<leftarrow> get (dr_code d) at';
     if w AND 1 \<noteq> 0 then Some (PO_Int (signed_drop_bit 1 w), at' + 1)
     else (case fast_kind ft w of
         K_Reg \<Rightarrow> Some (PO_Reg (shr w (dr_value_shift d)), at' + 1)
       | K_Str \<Rightarrow> read_string_ref d (at' + 1)
       | K_Dbl \<Rightarrow> read_double d (at' + 1)
       | K_True \<Rightarrow> Some (PO_True, at' + 1)
       | K_False \<Rightarrow> Some (PO_False, at' + 1)
       | K_Null \<Rightarrow> Some (PO_Null, at' + 1)
       | K_Undef \<Rightarrow> Some (PO_Undef, at' + 1)) }"

text \<open>One opcode per operand; every other byte is a seek and is followed by its slot.\<close>

definition op_kind :: "nat \<Rightarrow> read_kind option" where
  "op_kind x = (if x = OP_VALUE then Some Read_Value else if x = OP_REG then Some Read_Reg
     else if x = OP_DEST then Some Read_Dest else if x = OP_PC then Some Read_Pc else None)"

fun fast_loop :: "fast \<Rightarrow> nat \<Rightarrow> nat list \<Rightarrow> nat \<Rightarrow> poperand list \<Rightarrow> (poperand list \<times> nat) option" where
  "fast_loop ft base [] at' out = Some (out, at')"
| "fast_loop ft base [x] at' out =
     (case op_kind x of
        Some kind \<Rightarrow> do { (y, at') \<leftarrow> read_op (ft_dec ft) (fast_value ft) kind at'; Some (out @ [y], at') }
      | None \<Rightarrow> None)"
| "fast_loop ft base (x # slot # prog) at' out =
     (case op_kind x of
        Some kind \<Rightarrow> do {
          (y, at') \<leftarrow> read_op (ft_dec ft) (fast_value ft) kind at';
          fast_loop ft base (slot # prog) at' (out @ [y]) }
      | None \<Rightarrow> do {
          y \<leftarrow> get out (base + slot);
          t \<leftarrow> int_target y;
          fast_loop ft base prog t out })"

text \<open>The outer \<open>None\<close> is a span outside the program (a panic).\<close>

definition fast_decode ::
  "fast \<Rightarrow> nat \<Rightarrow> pshape \<Rightarrow> nat list \<Rightarrow> poperand list \<Rightarrow> (poperand list \<times> nat \<times> nat option) option option" where
  "fast_decode ft pc shape program out =
     (case span_of program (ps_code shape) of
        None \<Rightarrow> None
      | Some prog \<Rightarrow> Some (do {
          (out', at') \<leftarrow> fast_loop ft (length out) prog (pc + 1) out;
          tgt \<leftarrow> (if ps_branch shape = NO_SLOT then Some None
            else do { x \<leftarrow> get out' (length out + ps_branch shape); t \<leftarrow> int_target x; Some (Some t) });
          if 2 ^ 32 - 1 < at' then None else Some (out', at', tgt) }))"

subsection \<open>The fast decoder decodes\<close>

definition tags_distinct :: "tags \<Rightarrow> bool" where
  "tags_distinct t \<longleftrightarrow>
     distinct [tag_string t, tag_double t, tag_true t, tag_false t, tag_null t, tag_undefined t]"

lemma set_kind_nth:
  assumes "unat w < TAG_SPAN" "length ks = TAG_SPAN"
  shows "set_kind ks (v, k) ! unat w = (if v = w then k else ks ! unat w)"
proof -
  have "sint w = int (unat w)" using assms(1) by (intro sint_small) simp
  then have "0 \<le> sint w \<and> sint w < int TAG_SPAN"
    by (simp only: of_nat_0_le_iff of_nat_less_iff assms(1) simp_thms)
  then show ?thesis
    using assms word_unat_eq_iff[of v w] by (cases "v = w") (auto simp: set_kind_def)
qed

lemma set_kind_length [simp]: "length (set_kind ks wk) = length ks"
  by (simp add: set_kind_def)

lemma fast_kind_spec:
  assumes "tags_distinct (dr_tags d)"
  shows "fast_kind (fast_new d) w =
     (let t = dr_tags d in
        if w = tag_string t then K_Str
        else if w = tag_double t then K_Dbl
        else if w = tag_true t then K_True
        else if w = tag_false t then K_False
        else if w = tag_null t then K_Null
        else if w = tag_undefined t then K_Undef
        else K_Reg)"
proof (cases "unat w < TAG_SPAN")
  case True
  define t where "t = dr_tags d"
  have "fast_kind (fast_new d) w = (if w = tag_undefined t then K_Undef else if w = tag_null t then K_Null
      else if w = tag_false t then K_False else if w = tag_true t then K_True else if w = tag_double t then K_Dbl
      else if w = tag_string t then K_Str else K_Reg)"
    using True by (simp add: fast_kind_def fast_new_def Let_def set_kind_nth t_def eq_commute[of w])
  moreover consider "w = tag_string t" | "w = tag_double t" | "w = tag_true t" | "w = tag_false t" | "w = tag_null t"
    | "w = tag_undefined t" | "w \<notin> {tag_string t, tag_double t, tag_true t, tag_false t, tag_null t, tag_undefined t}"
    by blast
  ultimately show ?thesis
    using assms by cases (simp_all add: Let_def tags_distinct_def t_def[symmetric])
next
  case False
  then show ?thesis by (simp add: fast_kind_def fast_new_def Let_def)
qed

lemma fast_value_eq: "tags_distinct (dr_tags d) \<Longrightarrow> fast_value (fast_new d) = pvalue d"
proof
  fix at'
  assume "tags_distinct (dr_tags d)"
  moreover have "ft_dec (fast_new d) = d" by (simp add: fast_new_def Let_def)
  ultimately show "fast_value (fast_new d) at' = pvalue d at'"
    unfolding fast_value_def pvalue_def Let_def
    by (intro Option.bind_cong) (simp_all add: fast_kind_spec Let_def)
qed

lemma op_kind_op [simp]: "op_kind (kind_op k) = Some k" "op_kind 128 = None"
  by (cases k; simp add: op_kind_def kind_op_def) (simp add: op_kind_def)

lemma fast_loop_op:
  "fast_loop ft base (kind_op k # prog) at' out = do {
     (y, at') \<leftarrow> read_op (ft_dec ft) (fast_value ft) k at';
     fast_loop ft base prog at' (out @ [y]) }"
  by (cases prog) (auto split: Option.bind_splits)

lemma get_append: "get (xs @ ys) (length xs + i) = get ys i"
  by (simp add: get_def nth_append)

lemma fast_loop_seek:
  "fast_loop ft (length pre) (OP_SEEK # sk_slot s # prog) at' (pre @ ops) =
     do { t \<leftarrow> seek_to ops s; fast_loop ft (length pre) prog t (pre @ ops) }"
  by (simp add: seek_to_def get_append)

lemma run_seeks_code: "run_seeks ops i ss at' = Some (t, ss') \<Longrightarrow> snd (seek_code i ss) = ss'"
  by (induction ss arbitrary: at') (auto simp: Let_def split_beta bind_eq_Some_conv split: if_splits)

lemma fast_loop_seeks:
  "fast_loop ft (length pre) (fst (seek_code i ss) @ prog) at' (pre @ ops) =
     do { (t, ss') \<leftarrow> run_seeks ops i ss at'; fast_loop ft (length pre) prog t (pre @ ops) }"
proof (induction ss arbitrary: at')
  case (Cons s ss)
  show ?case
  proof (cases "sk_at s = i")
    case True
    then have "fst (seek_code i (s # ss)) @ prog = OP_SEEK # sk_slot s # fst (seek_code i ss) @ prog"
      by (simp add: Let_def split_beta)
    then show ?thesis using True by (cases "seek_to ops s") (simp_all add: fast_loop_seek Cons.IH del: fast_loop.simps)
  qed simp
qed simp

lemma fast_loop_last:
  "fast_loop ft (length pre) (last_seek_code ss) at' (pre @ ops) = map_option (\<lambda>t. (pre @ ops, t)) (last_seeks ops ss at')"
proof (induction ss arbitrary: at')
  case (Cons s ss)
  have "last_seek_code (s # ss) = OP_SEEK # sk_slot s # last_seek_code ss" by (simp add: last_seek_code_def)
  then show ?case using Cons by (cases "seek_to ops s") (simp_all add: fast_loop_seek del: fast_loop.simps)
qed (simp add: last_seek_code_def)

lemma fast_loop_reads:
  assumes "fast_value ft = pvalue d" "ft_dec ft = d"
  shows "fast_loop ft (length pre) (reads_code kinds i seeks) at' (pre @ ops) =
    map_option (\<lambda>(ops', t). (pre @ ops', t)) (decode_reads d kinds i seeks at' ops)"
proof (induction kinds arbitrary: i seeks at' ops)
  case Nil
  then show ?case by (simp add: fast_loop_last) (cases "last_seeks ops seeks at'"; simp)
next
  case (Cons k kinds)
  have "fast_loop ft (length pre) (fst (seek_code i seeks) @ kind_op k # reads_code kinds (i + 1) (snd (seek_code i seeks))) at' (pre @ ops)
      = do { (t, ss') \<leftarrow> run_seeks ops i seeks at';
             (y, t') \<leftarrow> read_op d (pvalue d) k t;
             fast_loop ft (length pre) (reads_code kinds (i + 1) ss') t' (pre @ (ops @ [y])) }"
    by (simp only: fast_loop_seeks fast_loop_op assms append_assoc)
      (auto dest: run_seeks_code intro!: Option.bind_cong)
  then show ?case
    by (cases "run_seeks ops i seeks at'")
      (auto simp: Let_def split_beta Cons.IH split: Option.bind_splits)
qed

subsection \<open>The compiled templates\<close>

text \<open>Every compiled template has its program and its links in the common vectors.\<close>

definition compiled :: "pshapes \<Rightarrow> ('u, 'b, 'l) template \<Rightarrow> pshape \<Rightarrow> bool" where
  "compiled sh t s \<longleftrightarrow>
     ps_ok s \<and> ps_falls s = tp_falls t
     \<and> ps_branch s = (case tp_branch t of Some b \<Rightarrow> br_slot b | None \<Rightarrow> NO_SLOT)
     \<and> span_of (sh_code sh) (ps_code s) = Some (reads_code (tp_reads t) 0 (tp_seeks t))
     \<and> span_of (sh_links sh) (ps_links s) = Some (tp_closures t @ tp_targets t)
     \<and> sp_len (ps_links s) = length (tp_closures t @ tp_targets t)
     \<and> ps_closures s = length (tp_closures t) mod 256"

lemma span_of_append: "span_of xs sp = Some ys \<Longrightarrow> span_of (xs @ zs) sp = Some ys"
  by (auto simp: span_of_def get_range_def split: if_splits)

lemma compiled_append:
  "compiled sh t s \<Longrightarrow> sh_code sh' = sh_code sh @ c \<Longrightarrow> sh_links sh' = sh_links sh @ l \<Longrightarrow> compiled sh' t s"
  by (simp add: compiled_def span_of_append)

lemma add_shape_grows:
  "\<exists>c l. sh_code (add_shape sh t) = sh_code sh @ c \<and> sh_links (add_shape sh t) = sh_links sh @ l"
  by (cases t) (simp_all add: add_shape_def Let_def)

lemma add_shape_last:
  "length (sh_shapes (add_shape sh t)) = Suc (length (sh_shapes sh))"
  "i < length (sh_shapes sh) \<Longrightarrow> sh_shapes (add_shape sh t) ! i = sh_shapes sh ! i"
  by (cases t; simp add: add_shape_def Let_def nth_append)+

lemma add_shape_compiled:
  assumes "length (sh_code (add_shape sh (Inr t))) < 2 ^ 32" "length (sh_links (add_shape sh (Inr t))) < 2 ^ 32"
  shows "compiled (add_shape sh (Inr t)) t (sh_shapes (add_shape sh (Inr t)) ! length (sh_shapes sh))"
  using assms by (simp add: add_shape_def Let_def compiled_def span_of_def get_range_def nth_append)

lemma shapes_compiled:
  fixes templates :: "('e + ('u, 'b, 'l) template) list"
  assumes "length (sh_code (shapes_new templates)) < 2 ^ 32" "length (sh_links (shapes_new templates)) < 2 ^ 32"
  shows "length (sh_shapes (shapes_new templates)) = length templates
    \<and> (\<forall>h < length templates. case templates ! h of
          Inr t \<Rightarrow> compiled (shapes_new templates) t (sh_shapes (shapes_new templates) ! h)
        | Inl _ \<Rightarrow> sh_shapes (shapes_new templates) ! h = no_shape)"
  using assms
proof (induction templates rule: rev_induct)
  case (snoc t templates)
  have n: "shapes_new (templates @ [x]) = add_shape (shapes_new templates) x" for x by (simp add: shapes_new_def)
  obtain c l where g: "sh_code (add_shape (shapes_new templates) t) = sh_code (shapes_new templates) @ c"
      "sh_links (add_shape (shapes_new templates) t) = sh_links (shapes_new templates) @ l"
    using add_shape_grows by blast
  have ih: "length (sh_shapes (shapes_new templates)) = length templates"
    "\<And>h. h < length templates \<Longrightarrow> case templates ! h of
          Inr t \<Rightarrow> compiled (shapes_new templates) t (sh_shapes (shapes_new templates) ! h)
        | Inl _ \<Rightarrow> sh_shapes (shapes_new templates) ! h = no_shape"
    using snoc g by (auto simp: n)
  have "case (templates @ [t]) ! h of
          Inr t' \<Rightarrow> compiled (shapes_new (templates @ [t])) t' (sh_shapes (shapes_new (templates @ [t])) ! h)
        | Inl _ \<Rightarrow> sh_shapes (shapes_new (templates @ [t])) ! h = no_shape" if h: "h < Suc (length templates)" for h
  proof (cases "h < length templates")
    case True
    then show ?thesis using ih(1) ih(2)[OF True] compiled_append[OF _ g]
      by (auto simp: n nth_append add_shape_last split: sum.splits)
  next
    case False
    then have "h = length templates" using h by simp
    then show ?thesis
      using add_shape_compiled[of "shapes_new templates"] snoc.prems ih(1)
      by (cases t) (simp_all add: n nth_append add_shape_def[of _ "Inl _"])
  qed
  then show ?case using ih(1) by (simp add: n add_shape_last)
qed (simp add: shapes_new_def)

lemma fast_decode_compiled:
  assumes "tags_distinct (dr_tags d)" "compiled sh t s"
    and "case tp_branch t of Some b \<Rightarrow> br_slot b \<noteq> NO_SLOT | None \<Rightarrow> True"
  shows "fast_decode (fast_new d) pc s (sh_code sh) out =
    Some (map_option (\<lambda>(ops, nxt, tgt). (out @ ops, nxt, tgt)) (pdecode d pc t))"
proof -
  have ft: "fast_value (fast_new d) = pvalue d" "ft_dec (fast_new d) = d"
    using fast_value_eq[OF assms(1)] by (simp_all add: fast_new_def Let_def)
  have loop: "fast_loop (fast_new d) (length out) (reads_code (tp_reads t) 0 (tp_seeks t)) (pc + 1) out =
      map_option (\<lambda>(ops, t). (out @ ops, t)) (decode_reads d (tp_reads t) 0 (tp_seeks t) (pc + 1) [])"
    using fast_loop_reads[OF ft, of out "tp_reads t" 0 "tp_seeks t" "pc + 1" "[]"] by simp
  show ?thesis
    using assms(2,3) loop
    by (cases "decode_reads d (tp_reads t) 0 (tp_seeks t) (pc + 1) []"; cases "tp_branch t")
      (auto simp: fast_decode_def compiled_def pdecode_def get_append Let_def split: Option.bind_splits)
qed

text \<open>C31: The fast decoder, which interprets the compiled templates with a table of the tags, decodes
  every instruction exactly as the plain decoder does from the template, errors included, and
  never leaves its byte program: for six different tags and branch slots below 255.\<close>

theorem fast_decode_exact:
  assumes "tags_distinct (dr_tags d)" "h < length templates" "templates ! h = Inr t"
    and "length (sh_code (shapes_new templates)) < 2 ^ 32" "length (sh_links (shapes_new templates)) < 2 ^ 32"
    and "case tp_branch t of Some b \<Rightarrow> br_slot b \<noteq> NO_SLOT | None \<Rightarrow> True"
  shows "fast_decode (fast_new d) pc (sh_shapes (shapes_new templates) ! h) (sh_code (shapes_new templates)) out =
    Some (map_option (\<lambda>(ops, nxt, tgt). (out @ ops, nxt, tgt)) (pdecode d pc t))"
proof -
  have "compiled (shapes_new templates) t (sh_shapes (shapes_new templates) ! h)"
    using shapes_compiled[OF assms(4,5)] assms(2,3) by (auto split: sum.splits)
  from fast_decode_compiled[OF assms(1) this assms(6)] show ?thesis .
qed

definition sample_decoder :: pdecoder where
  "sample_decoder = \<lparr>dr_code = [0, 7, 6], dr_tags = \<lparr>tag_string = 2, tag_double = 4, tag_true = 6, tag_false = 8, tag_null = 10,
     tag_undefined = 12\<rparr>, dr_value_shift = 5, dr_reg_shift = 5, dr_dest_shift = 5, dr_len_first = True, dr_pool_len = 0,
     dr_powi = (\<lambda>_. f64_zero False)\<rparr>"

definition sample_template :: "(unit, unit, unit) template" where
  "sample_template = \<lparr>tp_reads = [Read_Value, Read_Value], tp_seeks = [], tp_branch = None, tp_falls = True, tp_dynamic = False,
     tp_closures = [], tp_targets = [0], tp_exprs = [], tp_args = [], tp_stmts = [], tp_body = EMPTY_SPAN\<rparr>"

lemma sample_decode: "pdecode sample_decoder 0 sample_template = Some ([PO_Int 3, PO_True], 3, None)"
  by (simp add: pdecode_def sample_decoder_def sample_template_def read_op_def pvalue_def Let_def)

lemma sample_shapes:
  "shapes_new [Inr sample_template :: nat + (unit, unit, unit) template] = \<lparr>sh_code = [0, 0], sh_links = [0], sh_shapes =
      [\<lparr>ps_ok = True, ps_falls = True, ps_branch = 255, ps_code = \<lparr>sp_start = 0, sp_len = 2\<rparr>,
        ps_links = \<lparr>sp_start = 0, sp_len = 1\<rparr>, ps_closures = 0\<rparr>]\<rparr>"
  by (simp add: shapes_new_def add_shape_def sample_template_def Let_def kind_op_def last_seek_code_def)

lemma sample_tags: "tags_distinct (dr_tags sample_decoder)"
  by (simp add: tags_distinct_def sample_decoder_def)

lemma fast_decode_exact_witness:
  "fast_decode (fast_new sample_decoder) 0 (sh_shapes (shapes_new [Inr sample_template :: nat + (unit, unit, unit) template]) ! 0)
      (sh_code (shapes_new [Inr sample_template :: nat + (unit, unit, unit) template])) [PO_Null]
    = Some (Some ([PO_Null, PO_Int 3, PO_True], 3, None))"
  using fast_decode_exact[OF sample_tags, of 0 "[Inr sample_template :: nat + (unit, unit, unit) template]" sample_template 0 "[PO_Null]"]
  by (simp add: sample_shapes sample_decode) (simp add: sample_template_def)

end
