(* ===== verification/PayloadReach.thy ===== *)
theory PayloadReach
  imports PayloadDisasm
begin

text \<open>
  The work list of \<open>disassemble\<close> in \<open>src/payload/disasm.rs\<close>. Which handler an instruction word
  means depends on the generation of its position: each generation has a permutation of the
  handlers. The loop takes positions from a stack, decodes each once with the fast decoder and
  pushes where the instruction can go. The last theorem says that it finds exactly the
  instructions that the plain decoder reaches from the entry.

  \<open>None\<close> is a panic: an index that is out of range.
\<close>

subsection \<open>The loop\<close>

record ('e, 'u, 'b, 'l) pview =
  vw_decoder :: pdecoder
  vw_templates :: "('e + ('u, 'b, 'l) template) list"
  vw_perms :: "nat list list"
  vw_gen_of :: "nat list"

record pdisasm =
  da_instrs :: "pinstr list"
  da_operands :: "poperand list"
  da_index :: "nat list"
  da_entries :: "nat list"

text \<open>The head of \<open>dl_work\<close> is the top of the stack.\<close>

record dis_state = pdisasm +
  dl_work :: "nat list"

definition generation_at :: "('e, 'u, 'b, 'l) pview \<Rightarrow> nat \<Rightarrow> nat" where
  "generation_at view p =
     (case get (vw_gen_of view) p of
        Some g \<Rightarrow> if g \<noteq> NO_GEN then g else length (vw_perms view) - 1
      | None \<Rightarrow> length (vw_perms view) - 1)"

definition handler_at :: "('e, 'u, 'b, 'l) pview \<Rightarrow> nat \<Rightarrow> nat option option" where
  "handler_at view p =
     (let raw = dr_code (vw_decoder view) ! p in
      if 0 \<le> sint raw
      then do { perm \<leftarrow> get (vw_perms view) (generation_at view p); Some (get perm (unat raw)) }
      else Some None)"

definition shape_of :: "pshapes \<Rightarrow> nat option \<Rightarrow> pshape" where
  "shape_of sh handler =
     (case do { h \<leftarrow> handler; get (sh_shapes sh) h } of Some s \<Rightarrow> s | None \<Rightarrow> no_shape)"

fun push_links ::
  "poperand list \<Rightarrow> nat \<Rightarrow> nat \<Rightarrow> nat \<Rightarrow> nat list \<Rightarrow> nat list \<Rightarrow> nat list \<Rightarrow> nat list \<times> nat list"
where
  "push_links operands start closures k [] entries work = (entries, work)"
| "push_links operands start closures k (s # links) entries work =
     (case do { x \<leftarrow> get operands (start + s); int_target x } of
        Some t \<Rightarrow> push_links operands start closures (k + 1) links
                    (if k < closures then entries @ [t] else entries) (t # work)
      | None \<Rightarrow> push_links operands start closures (k + 1) links entries work)"

definition dis_found ::
  "pshapes \<Rightarrow> nat \<Rightarrow> nat \<Rightarrow> pshape \<Rightarrow> poperand list \<times> nat \<times> nat option \<Rightarrow> dis_state \<Rightarrow> dis_state option"
where
  "dis_found sh pc handler shape decoded st =
     (let (operands, next', tgt) = decoded; start = length (da_operands st) in do {
        links \<leftarrow> (if sp_len (ps_links shape) \<noteq> 0 then span_of (sh_links sh) (ps_links shape) else Some []);
        let (entries, work) = push_links operands start (ps_closures shape) 0 links (da_entries st) (dl_work st);
        let work = (case tgt of Some t \<Rightarrow> t # work | None \<Rightarrow> work);
        Some (st\<lparr>
          da_index := (da_index st)[pc := as_u32 (length (da_instrs st) + 1)],
          da_instrs := da_instrs st @
            [\<lparr>pi_pc = pc, pi_handler = handler,
              pi_ops = \<lparr>sp_start = as_u32 start, sp_len = as_u32 (length operands - start)\<rparr>,
              pi_next = next', pi_target = tgt\<rparr>],
          da_operands := operands,
          da_entries := entries,
          dl_work := (if ps_falls shape then next' # work else work)\<rparr>) })"

definition dis_mark ::
  "pshapes \<Rightarrow> nat \<Rightarrow> pshape \<Rightarrow> nat option \<Rightarrow> (poperand list \<times> nat \<times> nat option) option \<Rightarrow> dis_state \<Rightarrow> dis_state option"
where
  "dis_mark sh pc shape handler decoded st =
     (case (handler, decoded) of
        (Some h, Some dec) \<Rightarrow> dis_found sh pc h shape dec st
      | _ \<Rightarrow> Some (st\<lparr>da_index := (da_index st)[pc := BAD_INSTR]\<rparr>))"

text \<open>One turn, for the position \<open>pc\<close> that was taken from the stack. A failed decoding leaves no
  operands behind.\<close>

definition dis_step ::
  "('e, 'u, 'b, 'l) pview \<Rightarrow> pshapes \<Rightarrow> fast \<Rightarrow> nat \<Rightarrow> dis_state \<Rightarrow> dis_state option" where
  "dis_step view sh ft pc st =
     (if length (dr_code (vw_decoder view)) \<le> pc then Some st
      else do {
        mark \<leftarrow> get (da_index st) pc;
        if mark \<noteq> NO_INSTR then Some st
        else do {
          handler \<leftarrow> handler_at view pc;
          let shape = shape_of sh handler;
          decoded \<leftarrow> (if ps_ok shape then fast_decode ft pc shape (sh_code sh) (da_operands st) else Some None);
          dis_mark sh pc shape handler decoded st } })"

definition unmarked :: "dis_state \<Rightarrow> nat" where
  "unmarked st = length (filter (\<lambda>i. i = NO_INSTR) (da_index st))"

text \<open>After \<open>2 ^ 32 - 1\<close> instructions the number wraps to \<open>NO_INSTR\<close>, once.\<close>

definition wraps :: "dis_state \<Rightarrow> nat" where
  "wraps st = (if as_u32 (length (da_instrs st) + 1) = 0 then 1 else 0)"

lemma unmarked_update:
  assumes "get (da_index st) pc = Some NO_INSTR" "v \<noteq> NO_INSTR"
  shows "length (filter (\<lambda>i. i = NO_INSTR) ((da_index st)[pc := v])) < unmarked st"
proof -
  define xs ys where "xs = take pc (da_index st)" and "ys = drop (Suc pc) (da_index st)"
  have i: "pc < length (da_index st)" "da_index st ! pc = NO_INSTR"
    using assms(1) by (auto simp: get_def split: if_splits)
  then have "da_index st = xs @ NO_INSTR # ys" unfolding xs_def ys_def by (metis id_take_nth_drop)
  then have "unmarked st = length (filter (\<lambda>i. i = NO_INSTR) (xs @ NO_INSTR # ys))" by (simp add: unmarked_def)
  moreover have "(da_index st)[pc := v] = xs @ v # ys" using i by (simp add: upd_conv_take_nth_drop xs_def ys_def)
  ultimately show ?thesis using assms(2) by simp
qed

lemma dis_found_state:
  assumes "dis_found sh pc h shape dec st = Some st'"
  shows "da_index st' = (da_index st)[pc := as_u32 (length (da_instrs st) + 1)]"
    and "length (da_instrs st') = Suc (length (da_instrs st))"
  using assms by (auto simp: dis_found_def Let_def split_beta bind_eq_Some_conv)

text \<open>A turn marks a position or only drops it.\<close>

lemma dis_step_measure:
  assumes "dis_step view sh ft pc st = Some st'"
  shows "st' = st \<or> unmarked st' < unmarked st \<or> unmarked st' = unmarked st \<and> wraps st' < wraps st"
proof (cases "pc < length (dr_code (vw_decoder view)) \<and> get (da_index st) pc = Some NO_INSTR")
  case False
  then have "st' = st" using assms
    by (auto simp: dis_step_def get_def split: if_splits)
  then show ?thesis by simp
next
  case True
  then have free: "get (da_index st) pc = Some NO_INSTR" by simp
  then have i: "da_index st ! pc = NO_INSTR" by (auto simp: get_def split: if_splits)
  from True assms obtain handler decoded where "dis_mark sh pc (shape_of sh handler) handler decoded st = Some st'"
    by (auto simp: dis_step_def Let_def bind_eq_Some_conv)
  then consider "st' = st\<lparr>da_index := (da_index st)[pc := BAD_INSTR]\<rparr>"
    | h shape dec where "dis_found sh pc h shape dec st = Some st'"
    by (cases handler; cases decoded) (auto simp: dis_mark_def)
  then show ?thesis
  proof cases
    case 1
    then have "unmarked st' < unmarked st" using unmarked_update[OF free, of BAD_INSTR] by (simp add: unmarked_def)
    then show ?thesis by simp
  next
    case 2
    note s = dis_found_state[OF 2]
    show ?thesis
    proof (cases "as_u32 (length (da_instrs st) + 1) = 0")
      case True
      then have "da_index st' = da_index st" using s(1) i by (metis list_update_id)
      moreover have "as_u32 (length (da_instrs st') + 1) \<noteq> 0"
        using True s(2) by (auto simp: as_u32_def mod_Suc)
      ultimately show ?thesis using True by (simp add: unmarked_def wraps_def)
    next
      case False
      then have "unmarked st' < unmarked st" using unmarked_update[OF free False] s(1) by (simp add: unmarked_def)
      then show ?thesis by simp
    qed
  qed
qed

function dis_loop ::
  "('e, 'u, 'b, 'l) pview \<Rightarrow> pshapes \<Rightarrow> fast \<Rightarrow> dis_state \<Rightarrow> dis_state option" where
  "dis_loop view sh ft st =
     (case dl_work st of
        [] \<Rightarrow> Some st
      | pc # work \<Rightarrow>
          (case dis_step view sh ft pc (st\<lparr>dl_work := work\<rparr>) of
             None \<Rightarrow> None
           | Some st' \<Rightarrow> dis_loop view sh ft st'))"
  by pat_completeness auto
termination
  by (relation "measures [\<lambda>(_, _, _, st). unmarked st, \<lambda>(_, _, _, st). wraps st, \<lambda>(_, _, _, st). length (dl_work st)]")
    (auto dest!: dis_step_measure simp: unmarked_def wraps_def)

declare dis_loop.simps [simp del]

definition disassemble_payload :: "('e, 'u, 'b, 'l) pview \<Rightarrow> nat \<Rightarrow> pdisasm option" where
  "disassemble_payload view entry =
     do {
       st \<leftarrow> dis_loop view (shapes_new (vw_templates view)) (fast_new (vw_decoder view))
         \<lparr>da_instrs = [], da_operands = [], da_index = replicate (length (dr_code (vw_decoder view))) NO_INSTR,
          da_entries = [entry], dl_work = [entry]\<rparr>;
       Some \<lparr>da_instrs = da_instrs st, da_operands = da_operands st, da_index = da_index st,
             da_entries = remdups_adj (sort (da_entries st))\<rparr> }"

subsection \<open>What is reachable\<close>

text \<open>The specification: the plain decoder on the template of the handler, where there is one.\<close>

definition ref_template :: "('e, 'u, 'b, 'l) pview \<Rightarrow> nat \<Rightarrow> (nat \<times> ('u, 'b, 'l) template) option" where
  "ref_template view pc =
     (if pc < length (dr_code (vw_decoder view))
      then (case handler_at view pc of
              Some (Some h) \<Rightarrow> (case get (vw_templates view) h of Some (Inr t) \<Rightarrow> Some (h, t) | _ \<Rightarrow> None)
            | _ \<Rightarrow> None)
      else None)"

definition ref_decode ::
  "('e, 'u, 'b, 'l) pview \<Rightarrow> nat \<Rightarrow> (nat \<times> ('u, 'b, 'l) template \<times> poperand list \<times> nat \<times> nat option) option" where
  "ref_decode view pc = do {
     (h, t) \<leftarrow> ref_template view pc;
     (ops, next', tgt) \<leftarrow> pdecode (vw_decoder view) pc t;
     Some (h, t, ops, next', tgt) }"

definition link_targets :: "poperand list \<Rightarrow> nat list \<Rightarrow> nat list" where
  "link_targets ops links = List.map_filter (\<lambda>s. do { x \<leftarrow> get ops s; int_target x }) links"

definition next_pcs :: "('e, 'u, 'b, 'l) pview \<Rightarrow> nat \<Rightarrow> nat list" where
  "next_pcs view pc =
     (case ref_decode view pc of
        None \<Rightarrow> []
      | Some (h, t, ops, next', tgt) \<Rightarrow>
          link_targets ops (tp_closures t @ tp_targets t)
          @ (case tgt of Some x \<Rightarrow> [x] | None \<Rightarrow> []) @ (if tp_falls t then [next'] else []))"

definition closure_entries :: "('e, 'u, 'b, 'l) pview \<Rightarrow> nat \<Rightarrow> nat list" where
  "closure_entries view pc =
     (case ref_decode view pc of None \<Rightarrow> [] | Some (h, t, ops, next', tgt) \<Rightarrow> link_targets ops (tp_closures t))"

inductive reachable :: "('e, 'u, 'b, 'l) pview \<Rightarrow> nat \<Rightarrow> nat \<Rightarrow> bool" for view entry where
  reachable_entry: "reachable view entry entry"
| reachable_step: "reachable view entry pc \<Longrightarrow> s \<in> set (next_pcs view pc) \<Longrightarrow> reachable view entry s"

text \<open>The generations name permutations, the templates fit the narrow fields of their compiled form
  and all numbers fit their \<open>u32\<close>; \<open>k\<close> bounds the operands of an instruction.\<close>

definition template_fits :: "nat \<Rightarrow> ('u, 'b, 'l) template \<Rightarrow> bool" where
  "template_fits k t \<longleftrightarrow>
     length (tp_reads t) \<le> k \<and> length (tp_closures t) < 256
     \<and> (case tp_branch t of Some b \<Rightarrow> br_slot b \<noteq> NO_SLOT | None \<Rightarrow> True)"

definition view_ok :: "nat \<Rightarrow> ('e, 'u, 'b, 'l) pview \<Rightarrow> bool" where
  "view_ok k view \<longleftrightarrow>
     vw_perms view \<noteq> [] \<and> list_all (\<lambda>g. g = NO_GEN \<or> g < length (vw_perms view)) (vw_gen_of view)
     \<and> tags_distinct (dr_tags (vw_decoder view))
     \<and> list_all (\<lambda>t. case t of Inr t \<Rightarrow> template_fits k t | Inl _ \<Rightarrow> True) (vw_templates view)
     \<and> length (sh_code (shapes_new (vw_templates view))) < 2 ^ 32
     \<and> length (sh_links (shapes_new (vw_templates view))) < 2 ^ 32
     \<and> length (dr_code (vw_decoder view)) < 2 ^ 32 - 1
     \<and> length (dr_code (vw_decoder view)) * k < 2 ^ 32"

subsection \<open>One turn\<close>

lemma handler_at_ok: "view_ok k view \<Longrightarrow> \<exists>h. handler_at view pc = Some h"
  by (auto simp: view_ok_def handler_at_def generation_at_def get_def Let_def list_all_length)

lemma link_targets_append: "link_targets ops (xs @ ys) = link_targets ops xs @ link_targets ops ys"
  by (simp add: link_targets_def List.map_filter_def)

lemma push_links_spec:
  "push_links (pre @ ops) (length pre) c k links entries work =
     (entries @ link_targets ops (take (c - k) links), rev (link_targets ops links) @ work)"
proof (induction links arbitrary: k entries work)
  case (Cons s links)
  show ?case
  proof (cases "k < c")
    case True
    then have "take (c - k) (s # links) = s # take (c - Suc k) links" by (simp add: take_Cons' Suc_diff_Suc)
    then show ?thesis using Cons True
      by (cases "do { x \<leftarrow> get ops s; int_target x }") (simp_all add: get_append link_targets_def)
  next
    case False
    then show ?thesis using Cons
      by (cases "do { x \<leftarrow> get ops s; int_target x }") (simp_all add: get_append link_targets_def)
  qed
qed (simp add: link_targets_def)

lemma decode_reads_length:
  "decode_reads d kinds i seeks at' ops = Some (ops', t) \<Longrightarrow> length ops' = length ops + length kinds"
  by (induction kinds arbitrary: i seeks at' ops) (auto simp: bind_eq_Some_conv)

lemma pdecode_length: "pdecode d pc t = Some (ops, next', tgt) \<Longrightarrow> length ops = length (tp_reads t)"
  by (auto simp: pdecode_def bind_eq_Some_conv dest!: decode_reads_length split: if_splits)

text \<open>The shape of a handler is that of its template, if the template was lifted.\<close>

lemma shape_of_template:
  assumes "view_ok k view" "handler_at view pc = Some handler" "pc < length (dr_code (vw_decoder view))"
  shows "case ref_template view pc of
      None \<Rightarrow> \<not> ps_ok (shape_of (shapes_new (vw_templates view)) handler)
    | Some (h, t) \<Rightarrow> handler = Some h \<and> template_fits k t
        \<and> compiled (shapes_new (vw_templates view)) t (shape_of (shapes_new (vw_templates view)) handler)"
proof (cases handler)
  case None
  then show ?thesis using assms(2) by (simp add: ref_template_def shape_of_def no_shape_def)
next
  case (Some h)
  let ?sh = "shapes_new (vw_templates view)"
  have sh: "length (sh_shapes ?sh) = length (vw_templates view)"
    "\<And>h. h < length (vw_templates view) \<Longrightarrow> case vw_templates view ! h of
        Inr t \<Rightarrow> compiled ?sh t (sh_shapes ?sh ! h) | Inl _ \<Rightarrow> sh_shapes ?sh ! h = no_shape"
    using shapes_compiled[of "vw_templates view"] assms(1) by (auto simp: view_ok_def)
  show ?thesis
  proof (cases "h < length (vw_templates view)")
    case True
    moreover have "case vw_templates view ! h of Inr t \<Rightarrow> template_fits k t | Inl _ \<Rightarrow> True"
      using assms(1) True by (simp add: view_ok_def list_all_length)
    ultimately show ?thesis
      using sh(1) sh(2)[OF True] assms(2,3) Some
      by (cases "vw_templates view ! h") (simp_all add: ref_template_def shape_of_def get_def no_shape_def)
  next
    case False
    then show ?thesis using sh(1) assms(2) Some by (simp add: ref_template_def shape_of_def get_def no_shape_def)
  qed
qed

text \<open>The state after a turn that found an instruction.\<close>

definition found_state ::
  "('e, 'u, 'b, 'l) pview \<Rightarrow> nat \<Rightarrow> nat \<Rightarrow> poperand list \<Rightarrow> nat \<Rightarrow> nat option \<Rightarrow> dis_state \<Rightarrow> dis_state" where
  "found_state view pc h ops next' tgt st =
     st\<lparr>da_index := (da_index st)[pc := as_u32 (length (da_instrs st) + 1)],
        da_instrs := da_instrs st @
          [\<lparr>pi_pc = pc, pi_handler = h,
            pi_ops = \<lparr>sp_start = as_u32 (length (da_operands st)), sp_len = as_u32 (length ops)\<rparr>,
            pi_next = next', pi_target = tgt\<rparr>],
        da_operands := da_operands st @ ops,
        da_entries := da_entries st @ closure_entries view pc,
        dl_work := rev (next_pcs view pc) @ dl_work st\<rparr>"

lemma dis_step_turn:
  assumes "view_ok k view" "pc < length (dr_code (vw_decoder view))" "get (da_index st) pc = Some NO_INSTR"
  shows "dis_step view (shapes_new (vw_templates view)) (fast_new (vw_decoder view)) pc st =
     Some (case ref_decode view pc of
         None \<Rightarrow> st\<lparr>da_index := (da_index st)[pc := BAD_INSTR]\<rparr>
       | Some (h, t, ops, next', tgt) \<Rightarrow> found_state view pc h ops next' tgt st)"
proof -
  let ?sh = "shapes_new (vw_templates view)" and ?ft = "fast_new (vw_decoder view)"
  obtain handler where h: "handler_at view pc = Some handler" using handler_at_ok[OF assms(1)] by blast
  define shape where "shape = shape_of ?sh handler"
  note sh = shape_of_template[OF assms(1) h assms(2), folded shape_def]
  have step: "dis_step view ?sh ?ft pc st =
      do { decoded \<leftarrow> (if ps_ok shape then fast_decode ?ft pc shape (sh_code ?sh) (da_operands st) else Some None);
           dis_mark ?sh pc shape handler decoded st }"
    using assms(2,3) h by (simp add: dis_step_def shape_def Let_def)
  show ?thesis
  proof (cases "ref_template view pc")
    case None
    then have "ref_decode view pc = None" by (simp add: ref_decode_def)
    moreover have "dis_mark ?sh pc shape handler None st = Some (st\<lparr>da_index := (da_index st)[pc := BAD_INSTR]\<rparr>)"
      by (cases handler) (simp_all add: dis_mark_def)
    ultimately show ?thesis using None sh step by simp
  next
    case (Some ht)
    then obtain hd t where ht: "ref_template view pc = Some (hd, t)" "handler = Some hd" "template_fits k t" "compiled ?sh t shape"
      using sh by (cases ht) auto
    have fits: "case tp_branch t of Some b \<Rightarrow> br_slot b \<noteq> NO_SLOT | None \<Rightarrow> True" "length (tp_closures t) < 256"
      using ht(3) by (auto simp: template_fits_def)
    have dec: "fast_decode ?ft pc shape (sh_code ?sh) (da_operands st) =
        Some (map_option (\<lambda>(ops, nxt, tgt). (da_operands st @ ops, nxt, tgt)) (pdecode (vw_decoder view) pc t))"
      using fast_decode_compiled[OF _ ht(4) fits(1)] assms(1) by (simp add: view_ok_def)
    have c: "ps_ok shape" "ps_falls shape = tp_falls t" "sp_len (ps_links shape) = length (tp_closures t @ tp_targets t)"
      "span_of (sh_links ?sh) (ps_links shape) = Some (tp_closures t @ tp_targets t)" "ps_closures shape = length (tp_closures t)"
      using ht(4) fits(2) by (auto simp: compiled_def)
    have links: "(if sp_len (ps_links shape) \<noteq> 0 then span_of (sh_links ?sh) (ps_links shape) else Some []) = Some (tp_closures t @ tp_targets t)"
      using c(3,4) by (auto split: if_splits)
    show ?thesis
    proof (cases "pdecode (vw_decoder view) pc t")
      case None
      then show ?thesis using ht step c(1) dec by (simp add: ref_decode_def dis_mark_def)
    next
      case (Some d)
      obtain ops nxt tgt where d: "d = (ops, nxt, tgt)" using prod_cases3 by blast
      have r: "ref_decode view pc = Some (hd, t, ops, nxt, tgt)" using ht Some d by (simp add: ref_decode_def)
      have "dis_found ?sh pc hd shape (da_operands st @ ops, nxt, tgt) st = Some (found_state view pc hd ops nxt tgt st)"
        unfolding dis_found_def found_state_def Let_def prod.case links Option.bind.bind_lunit
        by (cases tgt) (simp_all add: Let_def links push_links_spec c(2,5) next_pcs_def closure_entries_def r link_targets_append)
      then show ?thesis using ht step c(1) dec r Some d by (simp add: dis_mark_def)
    qed
  qed
qed

subsection \<open>The invariant of the loop\<close>

abbreviation code_len :: "('e, 'u, 'b, 'l) pview \<Rightarrow> nat" where
  "code_len view \<equiv> length (dr_code (vw_decoder view))"

definition marked :: "pdisasm \<Rightarrow> nat \<Rightarrow> bool" where
  "marked r pc \<longleftrightarrow> pc < length (da_index r) \<and> da_index r ! pc \<noteq> NO_INSTR"

text \<open>The record of an instruction holds what the plain decoder says of its position.\<close>

definition recorded :: "pdisasm \<Rightarrow> nat \<Rightarrow> nat \<Rightarrow> poperand list \<Rightarrow> nat \<Rightarrow> nat option \<Rightarrow> pinstr \<Rightarrow> bool" where
  "recorded r pc h ops next' tgt i \<longleftrightarrow>
     pi_pc i = pc \<and> pi_handler i = h \<and> pi_next i = next' \<and> pi_target i = tgt
     \<and> span_of (da_operands r) (pi_ops i) = Some ops"

definition mark_ok :: "('e, 'u, 'b, 'l) pview \<Rightarrow> pdisasm \<Rightarrow> nat \<Rightarrow> bool" where
  "mark_ok view r pc \<longleftrightarrow>
     (case ref_decode view pc of
        None \<Rightarrow> da_index r ! pc = BAD_INSTR
      | Some (h, t, ops, next', tgt) \<Rightarrow>
          (\<exists>n < length (da_instrs r). da_index r ! pc = n + 1 \<and> recorded r pc h ops next' tgt (da_instrs r ! n)))"

text \<open>Every instruction is marked at its position.\<close>

definition backed :: "('e, 'u, 'b, 'l) pview \<Rightarrow> pdisasm \<Rightarrow> bool" where
  "backed view r \<longleftrightarrow>
     (\<forall>n < length (da_instrs r). pi_pc (da_instrs r ! n) < code_len view \<and> da_index r ! pi_pc (da_instrs r ! n) = n + 1)"

definition table_ok :: "nat \<Rightarrow> ('e, 'u, 'b, 'l) pview \<Rightarrow> pdisasm \<Rightarrow> bool" where
  "table_ok k view r \<longleftrightarrow>
     length (da_index r) = code_len view \<and> length (da_operands r) \<le> length (da_instrs r) * k
     \<and> backed view r \<and> (\<forall>pc. marked r pc \<longrightarrow> mark_ok view r pc)"

text \<open>What is marked or waits is reachable, and what follows a marked position is marked or waits.\<close>

definition work_ok :: "('e, 'u, 'b, 'l) pview \<Rightarrow> nat \<Rightarrow> dis_state \<Rightarrow> bool" where
  "work_ok view entry st \<longleftrightarrow>
     (\<forall>pc. marked (pdisasm.truncate st) pc \<or> pc \<in> set (dl_work st) \<longrightarrow> reachable view entry pc)
     \<and> (\<forall>pc s. marked (pdisasm.truncate st) pc \<and> s \<in> set (next_pcs view pc) \<and> s < code_len view
          \<longrightarrow> marked (pdisasm.truncate st) s \<or> s \<in> set (dl_work st))
     \<and> (entry < code_len view \<longrightarrow> marked (pdisasm.truncate st) entry \<or> entry \<in> set (dl_work st))
     \<and> set (da_entries st) = insert entry (\<Union>pc \<in> {pc. marked (pdisasm.truncate st) pc}. set (closure_entries view pc))"

lemma backed_inj:
  assumes "backed view r"
  shows "inj_on (\<lambda>n. pi_pc (da_instrs r ! n)) {..< length (da_instrs r)}"
proof (rule inj_onI)
  fix i j
  assume ij: "i \<in> {..< length (da_instrs r)}" "j \<in> {..< length (da_instrs r)}" "pi_pc (da_instrs r ! i) = pi_pc (da_instrs r ! j)"
  then have "i + 1 = j + 1" using assms unfolding backed_def by (metis lessThan_iff)
  then show "i = j" by simp
qed

lemma backed_count:
  assumes "backed view r" "pc < code_len view" "da_index r ! pc = NO_INSTR"
  shows "length (da_instrs r) < code_len view"
proof -
  have "card ((\<lambda>n. pi_pc (da_instrs r ! n)) ` {..< length (da_instrs r)}) = length (da_instrs r)"
    using backed_inj[OF assms(1)] by (simp add: card_image)
  moreover have "(\<lambda>n. pi_pc (da_instrs r ! n)) ` {..< length (da_instrs r)} \<subseteq> {..< code_len view} - {pc}"
    using assms by (force simp: backed_def)
  then have "card ((\<lambda>n. pi_pc (da_instrs r ! n)) ` {..< length (da_instrs r)}) \<le> card ({..< code_len view} - {pc})"
    by (intro card_mono) auto
  ultimately show ?thesis using assms(2) by simp
qed

lemma truncate_sel [simp]:
  "da_index (pdisasm.truncate st) = da_index st" "da_instrs (pdisasm.truncate st) = da_instrs st"
  "da_operands (pdisasm.truncate st) = da_operands st" "da_entries (pdisasm.truncate st) = da_entries st"
  by (simp_all add: pdisasm.truncate_def)

lemma ref_decode_below: "ref_decode view pc = Some x \<Longrightarrow> pc < code_len view"
  by (auto simp: ref_decode_def ref_template_def bind_eq_Some_conv split: if_splits)

lemma ref_decode_fits:
  assumes "view_ok k view" "ref_decode view pc = Some (h, t, ops, next', tgt)"
  shows "length ops \<le> k"
proof -
  have t: "ref_template view pc = Some (h, t)" "pdecode (vw_decoder view) pc t = Some (ops, next', tgt)"
    using assms(2) by (auto simp: ref_decode_def bind_eq_Some_conv)
  then have "pc < code_len view" by (simp add: ref_template_def split: if_splits)
  moreover obtain handler where "handler_at view pc = Some handler" using handler_at_ok[OF assms(1)] by blast
  ultimately have "template_fits k t" using shape_of_template[OF assms(1)] t(1) by fastforce
  then show ?thesis using pdecode_length[OF t(2)] by (simp add: template_fits_def)
qed

lemma mark_ok_mono:
  assumes "mark_ok view r q" "da_index r' ! q = da_index r ! q" "length (da_instrs r) \<le> length (da_instrs r')"
    and "\<And>i. i < length (da_instrs r) \<Longrightarrow> da_instrs r' ! i = da_instrs r ! i" "da_operands r' = da_operands r @ xs"
  shows "mark_ok view r' q"
proof (cases "ref_decode view q")
  case None
  then show ?thesis using assms(1,2) by (simp add: mark_ok_def)
next
  case (Some x)
  obtain h t ops nxt tgt where x: "x = (h, t, ops, nxt, tgt)" using prod_cases5 by blast
  obtain n where n: "n < length (da_instrs r)" "da_index r ! q = n + 1" "recorded r q h ops nxt tgt (da_instrs r ! n)"
    using assms(1) Some x by (auto simp: mark_ok_def)
  have "recorded r' q h ops nxt tgt (da_instrs r' ! n)"
    using n(1,3) assms(4,5) by (simp add: recorded_def span_of_append)
  then show ?thesis using n assms(2,3) Some x by (auto simp: mark_ok_def intro!: exI[of _ n])
qed

lemma table_ok_bad:
  assumes "table_ok k view (pdisasm.truncate st)" "pc < code_len view" "da_index st ! pc = NO_INSTR" "ref_decode view pc = None"
  shows "table_ok k view (pdisasm.truncate (st\<lparr>da_index := (da_index st)[pc := BAD_INSTR]\<rparr>))"
proof -
  let ?r = "pdisasm.truncate (st\<lparr>da_index := (da_index st)[pc := BAD_INSTR]\<rparr>)"
  have "mark_ok view ?r q" if "marked ?r q" for q
  proof (cases "q = pc")
    case True
    then show ?thesis using assms by (simp add: table_ok_def mark_ok_def)
  next
    case False
    then have "mark_ok view (pdisasm.truncate st) q" using assms(1) that by (simp add: table_ok_def marked_def)
    then show ?thesis by (rule mark_ok_mono[where xs = "[]"]) (use False in simp_all)
  qed
  moreover have "backed view (pdisasm.truncate (st\<lparr>da_index := (da_index st)[pc := BAD_INSTR]\<rparr>))"
    using assms by (auto simp: table_ok_def backed_def nth_list_update)
  ultimately show ?thesis
    using assms(1) by (simp add: table_ok_def)
qed

lemma table_ok_found:
  assumes v: "view_ok k view" and r: "ref_decode view pc = Some (h, t, ops, next', tgt)"
    and ok: "table_ok k view (pdisasm.truncate st)" and free: "da_index st ! pc = NO_INSTR"
  shows "table_ok k view (pdisasm.truncate (found_state view pc h ops next' tgt st))"
proof -
  let ?st = "found_state view pc h ops next' tgt st" and ?n = "length (da_instrs st)"
  note pc = ref_decode_below[OF r]
  have n: "?n < code_len view" using backed_count[of view "pdisasm.truncate st" pc] ok pc free by (simp add: table_ok_def)
  have small: "code_len view < 2 ^ 32 - 1" "code_len view * k < 2 ^ 32" using v by (auto simp: view_ok_def)
  have k: "length ops \<le> k" by (rule ref_decode_fits[OF v r])
  have l: "length (da_operands st) \<le> ?n * k" "length (da_index st) = code_len view" using ok by (auto simp: table_ok_def)
  have "length (da_operands st) + length ops \<le> Suc ?n * k" using l(1) k by simp
  also have "\<dots> \<le> code_len view * k" using n by (intro mult_le_mono1) simp
  finally have fit: "length (da_operands st) + length ops < 2 ^ 32" using small(2) by simp
  have upd: "da_index ?st = (da_index st)[pc := ?n + 1]" "length (da_instrs ?st) = Suc ?n"
    "da_operands ?st = da_operands st @ ops" "\<And>i. i < ?n \<Longrightarrow> da_instrs ?st ! i = da_instrs st ! i"
    "recorded (pdisasm.truncate ?st) pc h ops next' tgt (da_instrs ?st ! ?n)"
    using n small fit by (auto simp: found_state_def recorded_def span_of_def get_range_def nth_append)
  have bounds: "da_index st ! pi_pc (da_instrs st ! i) = i + 1" "pi_pc (da_instrs st ! i) < code_len view" if "i < ?n" for i
    using ok that by (auto simp: table_ok_def backed_def)
  have bk: "backed view (pdisasm.truncate ?st)"
    using pc bounds free l(2) upd(1,2,4,5) by (auto simp: backed_def less_Suc_eq nth_list_update recorded_def)
  have "mark_ok view (pdisasm.truncate ?st) q" if "marked (pdisasm.truncate ?st) q" for q
  proof (cases "q = pc")
    case True
    then show ?thesis using r upd l(2) pc by (auto simp: mark_ok_def intro!: exI[of _ ?n])
  next
    case False
    then have "mark_ok view (pdisasm.truncate st) q" using ok that upd(1) by (simp add: table_ok_def marked_def)
    then show ?thesis by (rule mark_ok_mono[where xs = ops]) (use upd False in simp_all)
  qed
  then show ?thesis using bk upd l k by (simp add: table_ok_def)
qed

lemma work_ok_skip:
  assumes "work_ok view entry st" "dl_work st = pc # work" "code_len view \<le> pc \<or> marked (pdisasm.truncate st) pc"
  shows "work_ok view entry (st\<lparr>dl_work := work\<rparr>)"
proof -
  have m: "marked (pdisasm.truncate (st\<lparr>dl_work := work\<rparr>)) = marked (pdisasm.truncate st)" by (simp add: marked_def fun_eq_iff)
  have s: "set (dl_work st) = insert pc (set work)" using assms(2) by simp
  note ok = assms(1)[unfolded work_ok_def s]
  have drop_pc: "q < code_len view \<Longrightarrow> marked (pdisasm.truncate st) q \<or> q \<in> insert pc (set work) \<Longrightarrow>
      marked (pdisasm.truncate st) q \<or> q \<in> set work" for q
    using assms(3) by (metis insertE leD)
  have "\<forall>q. marked (pdisasm.truncate st) q \<or> q \<in> set work \<longrightarrow> reachable view entry q"
    using ok[THEN conjunct1] by blast
  moreover have "\<forall>q s. marked (pdisasm.truncate st) q \<and> s \<in> set (next_pcs view q) \<and> s < code_len view \<longrightarrow>
      marked (pdisasm.truncate st) s \<or> s \<in> set work"
    using ok[THEN conjunct2, THEN conjunct1] drop_pc by blast
  moreover have "entry < code_len view \<longrightarrow> marked (pdisasm.truncate st) entry \<or> entry \<in> set work"
    using ok[THEN conjunct2, THEN conjunct2, THEN conjunct1] drop_pc by blast
  ultimately show ?thesis
    using ok[THEN conjunct2, THEN conjunct2, THEN conjunct2] unfolding work_ok_def by (simp add: m)
qed

lemma work_ok_mark:
  assumes ok: "work_ok view entry st" and w: "dl_work st = pc # work"
    and m: "\<And>q. marked (pdisasm.truncate st') q \<longleftrightarrow> q = pc \<or> marked (pdisasm.truncate st) q"
    and s: "dl_work st' = rev (next_pcs view pc) @ work"
    and e: "da_entries st' = da_entries st @ closure_entries view pc"
  shows "work_ok view entry st'"
proof -
  have "reachable view entry pc" using ok w by (auto simp: work_ok_def)
  then have "reachable view entry q" if "q \<in> set (next_pcs view pc)" for q using that by (rule reachable_step)
  then have "\<forall>q. marked (pdisasm.truncate st') q \<or> q \<in> set (dl_work st') \<longrightarrow> reachable view entry q"
    using ok w m s \<open>reachable view entry pc\<close> by (auto simp: work_ok_def)
  moreover have "\<forall>q s. marked (pdisasm.truncate st') q \<and> s \<in> set (next_pcs view q) \<and> s < code_len view
      \<longrightarrow> marked (pdisasm.truncate st') s \<or> s \<in> set (dl_work st')"
    using ok w m s by (auto simp: work_ok_def)
  moreover have "entry < code_len view \<longrightarrow> marked (pdisasm.truncate st') entry \<or> entry \<in> set (dl_work st')"
    using ok w m s by (auto simp: work_ok_def)
  moreover have "set (da_entries st') = insert entry (\<Union>q \<in> {q. marked (pdisasm.truncate st') q}. set (closure_entries view q))"
    using ok m e by (auto simp: work_ok_def)
  ultimately show ?thesis by (simp add: work_ok_def)
qed

text \<open>A turn keeps both parts of the invariant and does not panic.\<close>

lemma dis_turn:
  assumes v: "view_ok k view" and t: "table_ok k view (pdisasm.truncate st)" and ok: "work_ok view entry st"
    and w: "dl_work st = pc # work"
  shows "\<exists>st'. dis_step view (shapes_new (vw_templates view)) (fast_new (vw_decoder view)) pc (st\<lparr>dl_work := work\<rparr>) = Some st'
    \<and> table_ok k view (pdisasm.truncate st') \<and> work_ok view entry st'"
proof -
  let ?st = "st\<lparr>dl_work := work\<rparr>"
  have "pdisasm.truncate ?st = pdisasm.truncate st" by (simp add: pdisasm.truncate_def)
  then have t': "table_ok k view (pdisasm.truncate ?st)" using t by (simp only:)
  have l: "length (da_index st) = code_len view" using t by (simp add: table_ok_def)
  consider (skip) "code_len view \<le> pc \<or> marked (pdisasm.truncate st) pc"
    | (free) "pc < code_len view" "da_index st ! pc = NO_INSTR"
    using l by (cases "pc < code_len view"; cases "da_index st ! pc = NO_INSTR") (simp_all add: marked_def)
  then show ?thesis
  proof cases
    case skip
    then have "dis_step view (shapes_new (vw_templates view)) (fast_new (vw_decoder view)) pc ?st = Some ?st"
      using l by (auto simp: dis_step_def marked_def get_def)
    then show ?thesis using work_ok_skip[OF ok w skip] t' by blast
  next
    case free
    have g: "get (da_index ?st) pc = Some NO_INSTR" using free l by (simp add: get_def)
    note turn = dis_step_turn[OF v free(1) g]
    show ?thesis
    proof (cases "ref_decode view pc")
      case None
      have "work_ok view entry (?st\<lparr>da_index := (da_index ?st)[pc := BAD_INSTR]\<rparr>)"
        by (rule work_ok_mark[OF ok w])
          (use None free l in \<open>auto simp: marked_def next_pcs_def closure_entries_def nth_list_update\<close>)
      moreover have "table_ok k view (pdisasm.truncate (?st\<lparr>da_index := (da_index ?st)[pc := BAD_INSTR]\<rparr>))"
        by (rule table_ok_bad[OF t']) (use free None in simp_all)
      ultimately show ?thesis using turn None by simp
    next
      case (Some x)
      obtain h tpl ops nxt tgt where x: "x = (h, tpl, ops, nxt, tgt)" using prod_cases5 by blast
      note r = Some[unfolded x]
      have n: "length (da_instrs st) < code_len view"
        using backed_count[of view "pdisasm.truncate st" pc] t free by (simp add: table_ok_def)
      then have "as_u32 (length (da_instrs st) + 1) \<noteq> 0" using v by (simp add: view_ok_def as_u32_def)
      then have "work_ok view entry (found_state view pc h ops nxt tgt ?st)"
        by (intro work_ok_mark[OF ok w])
          (use free l in \<open>auto simp: found_state_def marked_def nth_list_update\<close>)
      moreover have "table_ok k view (pdisasm.truncate (found_state view pc h ops nxt tgt ?st))"
        by (rule table_ok_found[OF v r t']) (use free in simp_all)
      ultimately show ?thesis using turn r by simp
    qed
  qed
qed

lemma dis_loop_ok:
  assumes "view_ok k view" "table_ok k view (pdisasm.truncate st)" "work_ok view entry st"
  shows "\<exists>st'. dis_loop view (shapes_new (vw_templates view)) (fast_new (vw_decoder view)) st = Some st'
    \<and> table_ok k view (pdisasm.truncate st') \<and> work_ok view entry st' \<and> dl_work st' = []"
  using assms
proof (induction view "shapes_new (vw_templates view)" "fast_new (vw_decoder view)" st rule: dis_loop.induct)
  case (1 view st)
  show ?case
  proof (cases "dl_work st")
    case Nil
    then show ?thesis using 1 by (simp add: dis_loop.simps[of _ _ _ st])
  next
    case (Cons pc work)
    from dis_turn[OF 1(2-4) Cons] obtain st' where st': "dis_step view (shapes_new (vw_templates view)) (fast_new (vw_decoder view)) pc
        (st\<lparr>dl_work := work\<rparr>) = Some st'" "table_ok k view (pdisasm.truncate st')" "work_ok view entry st'" by blast
    then show ?thesis using 1(1)[OF Cons st'(1) 1(2) st'(2,3)] Cons by (simp add: dis_loop.simps[of _ _ _ st])
  qed
qed

lemma remdups_adj_distinct: "sorted (xs :: nat list) \<Longrightarrow> distinct (remdups_adj xs)"
  by (induction xs rule: remdups_adj.induct) auto

lemma next_pcs_below: "s \<in> set (next_pcs view pc) \<Longrightarrow> pc < code_len view"
  by (cases "ref_decode view pc") (auto simp: next_pcs_def dest: ref_decode_below)

lemma closure_entries_below: "s \<in> set (closure_entries view pc) \<Longrightarrow> pc < code_len view"
  by (cases "ref_decode view pc") (auto simp: closure_entries_def dest: ref_decode_below)

lemma reachable_marked:
  assumes "work_ok view entry st" "dl_work st = []" "reachable view entry pc" "pc < code_len view"
  shows "marked (pdisasm.truncate st) pc"
  using assms(3,4)
proof (induction rule: reachable.induct)
  case reachable_entry
  then show ?case using assms(1,2) by (simp add: work_ok_def)
next
  case (reachable_step pc s)
  then have "pc < code_len view" using next_pcs_below by blast
  then show ?case using reachable_step assms(1,2) by (auto simp: work_ok_def)
qed

lemma payload_disassemble_spec:
  assumes "view_ok k view"
  shows "\<exists>r. disassemble_payload view entry = Some r
    \<and> (\<forall>pc. marked r pc \<longleftrightarrow> pc < code_len view \<and> reachable view entry pc)
    \<and> (\<forall>pc. marked r pc \<longrightarrow> mark_ok view r pc) \<and> backed view r
    \<and> length (da_index r) = code_len view \<and> sorted (da_entries r) \<and> distinct (da_entries r)
    \<and> set (da_entries r) = insert entry (\<Union>pc \<in> {pc. reachable view entry pc}. set (closure_entries view pc))"
proof -
  let ?st = "\<lparr>da_instrs = [], da_operands = [], da_index = replicate (code_len view) NO_INSTR,
          da_entries = [entry], dl_work = [entry]\<rparr> :: dis_state"
  have "table_ok k view (pdisasm.truncate ?st)" by (auto simp: table_ok_def backed_def marked_def)
  moreover have "work_ok view entry ?st" by (auto simp: work_ok_def marked_def reachable_entry)
  ultimately obtain st where st: "dis_loop view (shapes_new (vw_templates view)) (fast_new (vw_decoder view)) ?st = Some st"
      "table_ok k view (pdisasm.truncate st)" "work_ok view entry st" "dl_work st = []"
    using dis_loop_ok[OF assms] by blast
  define r where "r = \<lparr>da_instrs = da_instrs st, da_operands = da_operands st, da_index = da_index st,
      da_entries = remdups_adj (sort (da_entries st))\<rparr>"
  have r: "disassemble_payload view entry = Some r" using st(1) by (simp add: disassemble_payload_def r_def)
  have m: "marked r pc = marked (pdisasm.truncate st) pc" "mark_ok view r pc = mark_ok view (pdisasm.truncate st) pc"
    "backed view r = backed view (pdisasm.truncate st)" for pc
    by (cases "ref_decode view pc"; simp add: marked_def mark_ok_def recorded_def backed_def r_def split_beta)+
  have reach: "marked r pc \<longleftrightarrow> pc < code_len view \<and> reachable view entry pc" for pc
  proof
    assume "marked r pc"
    then have "marked (pdisasm.truncate st) pc" by (simp only: m)
    moreover from this have "pc < code_len view" using st(2) by (simp add: table_ok_def marked_def)
    ultimately show "pc < code_len view \<and> reachable view entry pc" using st(3) by (simp add: work_ok_def)
  qed (use reachable_marked[OF st(3,4)] in \<open>simp only: m\<close>)
  have "set (da_entries st) = insert entry (\<Union>pc \<in> {pc. marked r pc}. set (closure_entries view pc))"
    using st(3) unfolding work_ok_def m by blast
  also have "\<dots> = insert entry (\<Union>pc \<in> {pc. reachable view entry pc}. set (closure_entries view pc))"
    using reach closure_entries_below by blast
  finally have e: "set (da_entries r) = insert entry (\<Union>pc \<in> {pc. reachable view entry pc}. set (closure_entries view pc))"
    by (simp add: r_def)
  have "sorted (da_entries r)" "distinct (da_entries r)" by (simp_all add: r_def remdups_adj_distinct)
  moreover have "\<forall>pc. marked r pc \<longrightarrow> mark_ok view r pc" "backed view r" using st(2) unfolding table_ok_def m by blast+
  moreover have "length (da_index r) = code_len view" using st(2) by (simp add: table_ok_def r_def)
  ultimately show ?thesis using r reach e by blast
qed

text \<open>C32: The disassembler never panics and finds exactly the reachable code. A position is marked
  exactly when it is reachable from the entry through the successors that the plain decoder gives;
  it is marked bad exactly when the plain decoder fails there, and otherwise names the one
  instruction with the handler, operands and targets of the plain decoder. The entries are the
  entry and the reachable closures, in strictly rising order.\<close>

theorem disassemble_reachable:
  assumes "view_ok k view"
  shows "\<exists>r. disassemble_payload view entry = Some r
    \<and> (\<forall>pc. marked r pc \<longleftrightarrow> pc < code_len view \<and> reachable view entry pc)
    \<and> (\<forall>pc. marked r pc \<longrightarrow> mark_ok view r pc) \<and> backed view r
    \<and> sorted (da_entries r) \<and> distinct (da_entries r)
    \<and> set (da_entries r) = insert entry (\<Union>pc \<in> {pc. reachable view entry pc}. set (closure_entries view pc))"
  using payload_disassemble_spec[OF assms, of entry] by blast

text \<open>One instruction that falls through to the end of the code.\<close>

definition sample_view :: "(nat, unit, unit, unit) pview" where
  "sample_view = \<lparr>vw_decoder = sample_decoder, vw_templates = [Inr sample_template], vw_perms = [[0]], vw_gen_of = []\<rparr>"

lemma sample_view_ok: "view_ok 2 sample_view"
  by (simp add: view_ok_def sample_view_def sample_tags sample_shapes)
    (simp add: template_fits_def sample_template_def sample_decoder_def)

lemma disassemble_reachable_witness:
  "\<exists>r. disassemble_payload sample_view 0 = Some r \<and> marked r 0 \<and> mark_ok sample_view r 0 \<and> distinct (da_entries r)"
  using disassemble_reachable[OF sample_view_ok, of 0] reachable_entry[of sample_view 0]
  by (auto simp: sample_view_def sample_decoder_def)

end
