(* ===== verification/PayloadBlocks.thy ===== *)
theory PayloadBlocks
  imports PayloadReach
begin

text \<open>
  \<open>src/payload/decompile.rs\<close>: every entry of the disassembly becomes a function, and the
  instructions that are reachable inside it are split into basic blocks. A first loop explores
  the instructions and counts their predecessors; an instruction starts a block if it is the
  root, a forced target, or has not exactly one predecessor. A second loop follows each block
  to its end. That loop has no bound of its own; that it ends is proved.

  \<open>None\<close> is a panic, or a block that never ends.
\<close>

subsection \<open>How control leaves an instruction\<close>

abbreviation (input) NOT_SEEN :: nat where "NOT_SEEN \<equiv> 4294967295"

record hflow =
  fl_ok :: bool
  fl_falls :: bool
  fl_ender :: bool
  fl_dynamic :: bool
  fl_jump :: bool
  fl_targets :: bool
  fl_branch :: "(expr_id \<times> bool) option"

definition no_flow :: hflow where
  "no_flow = \<lparr>fl_ok = False, fl_falls = False, fl_ender = False, fl_dynamic = False, fl_jump = False,
     fl_targets = False, fl_branch = None\<rparr>"

definition flow_of :: "'e + ('u, 'b, 'l) template \<Rightarrow> hflow" where
  "flow_of t =
     (case t of
        Inl _ \<Rightarrow> no_flow
      | Inr t \<Rightarrow>
          \<lparr>fl_ok = True, fl_falls = tp_falls t,
           fl_ender = (tp_branch t \<noteq> None \<or> \<not> tp_falls t \<or> tp_dynamic t \<or> tp_seeks t \<noteq> []),
           fl_dynamic = tp_dynamic t, fl_jump = (tp_seeks t \<noteq> []), fl_targets = (tp_targets t \<noteq> []),
           fl_branch = map_option (\<lambda>b. (br_cond b, br_when b)) (tp_branch t)\<rparr>)"

definition handler_flow :: "('e + ('u, 'b, 'l) template) list \<Rightarrow> nat \<Rightarrow> hflow" where
  "handler_flow templates h = (case get templates h of Some t \<Rightarrow> flow_of t | None \<Rightarrow> no_flow)"

definition instr_at :: "pdisasm \<Rightarrow> nat \<Rightarrow> nat option" where
  "instr_at dis pc =
     (case get (da_index dis) pc of
        Some i \<Rightarrow> if i \<noteq> NO_INSTR \<and> i \<noteq> BAD_INSTR then Some (i - 1) else None
      | None \<Rightarrow> None)"

subsection \<open>Exploring a function\<close>

record explore =
  ex_owner :: "nat list"
  ex_preds :: "nat list"
  ex_leader :: "bool list"
  ex_work :: "nat list"
  ex_members :: "nat list"

definition visit_edge :: "pdisasm \<Rightarrow> nat \<Rightarrow> nat \<times> bool \<Rightarrow> explore \<Rightarrow> explore option" where
  "visit_edge dis stamp edge st =
     (case instr_at dis (fst edge) of
        None \<Rightarrow> Some st
      | Some j \<Rightarrow> do {
          seen \<leftarrow> get (ex_owner st) j;
          let st = (if seen \<noteq> stamp
            then st\<lparr>ex_owner := (ex_owner st)[j := stamp], ex_preds := (ex_preds st)[j := 0],
                    ex_leader := (ex_leader st)[j := False], ex_work := j # ex_work st\<rparr>
            else st);
          let st = st\<lparr>ex_preds := (ex_preds st)[j := ex_preds st ! j + 1]\<rparr>;
          Some (if snd edge then st\<lparr>ex_leader := (ex_leader st)[j := True]\<rparr> else st) })"

fun visit_edges :: "pdisasm \<Rightarrow> nat \<Rightarrow> (nat \<times> bool) list \<Rightarrow> explore \<Rightarrow> explore option" where
  "visit_edges dis stamp [] st = Some st"
| "visit_edges dis stamp (e # es) st = do { st \<leftarrow> visit_edge dis stamp e st; visit_edges dis stamp es st }"

text \<open>Where an instruction may go on, and whether that starts a block.\<close>

definition edges_of :: "pdisasm \<Rightarrow> ('e + ('u, 'b, 'l) template) list \<Rightarrow> pinstr \<Rightarrow> (nat \<times> bool) list option" where
  "edges_of dis templates ins =
     (let f = handler_flow templates (pi_handler ins) in
      if \<not> fl_ok f then Some []
      else do {
        links \<leftarrow> (case get templates (pi_handler ins) of
            Some (Inr t) \<Rightarrow>
              if fl_targets f
              then do { ops \<leftarrow> span_of (da_operands dis) (pi_ops ins); Some (link_targets ops (tp_targets t)) }
              else Some []
          | _ \<Rightarrow> Some []);
        Some ((if fl_falls f then [(pi_next ins, fl_ender f)] else [])
          @ (case pi_target ins of Some t \<Rightarrow> [(t, True)] | None \<Rightarrow> [])
          @ map (\<lambda>t. (t, True)) links) })"

definition explore_step :: "pdisasm \<Rightarrow> ('e + ('u, 'b, 'l) template) list \<Rightarrow> nat \<Rightarrow> nat \<Rightarrow> explore \<Rightarrow> explore option" where
  "explore_step dis templates stamp i st = do {
     ins \<leftarrow> get (da_instrs dis) i;
     edges \<leftarrow> edges_of dis templates ins;
     visit_edges dis stamp edges (st\<lparr>ex_members := ex_members st @ [i]\<rparr>) }"

definition foreign :: "nat \<Rightarrow> explore \<Rightarrow> nat" where
  "foreign stamp st = length (filter (\<lambda>s. s \<noteq> stamp) (ex_owner st))"

lemma foreign_update:
  assumes "get xs j = Some s" "s \<noteq> stamp"
  shows "Suc (length (filter (\<lambda>s. s \<noteq> stamp) (xs[j := stamp]))) = length (filter (\<lambda>s. s \<noteq> stamp) xs)"
proof -
  have j: "j < length xs" "xs ! j = s" using assms(1) by (auto simp: get_def split: if_splits)
  define a b where "a = take j xs" and "b = drop (Suc j) xs"
  have "xs = a @ s # b" using j unfolding a_def b_def by (metis id_take_nth_drop)
  moreover have "xs[j := stamp] = a @ stamp # b" using j by (simp add: upd_conv_take_nth_drop a_def b_def)
  ultimately show ?thesis using assms(2) by simp
qed

lemma visit_edge_measure:
  "visit_edge dis stamp e st = Some st' \<Longrightarrow> foreign stamp st' + length (ex_work st') = foreign stamp st + length (ex_work st)"
  using foreign_update[of "ex_owner st" _ _ stamp]
  by (auto simp: visit_edge_def bind_eq_Some_conv Let_def foreign_def split: option.splits if_splits)

lemma visit_edges_measure:
  "visit_edges dis stamp es st = Some st' \<Longrightarrow> foreign stamp st' + length (ex_work st') = foreign stamp st + length (ex_work st)"
  by (induction es arbitrary: st) (auto simp: bind_eq_Some_conv dest!: visit_edge_measure)

function explore_loop ::
  "pdisasm \<Rightarrow> ('e + ('u, 'b, 'l) template) list \<Rightarrow> nat \<Rightarrow> explore \<Rightarrow> explore option" where
  "explore_loop dis templates stamp st =
     (case ex_work st of
        [] \<Rightarrow> Some st
      | i # work \<Rightarrow>
          (case explore_step dis templates stamp i (st\<lparr>ex_work := work\<rparr>) of
             None \<Rightarrow> None
           | Some st' \<Rightarrow> explore_loop dis templates stamp st'))"
  by pat_completeness auto
termination
  by (relation "measure (\<lambda>(_, _, stamp, st). foreign stamp st + length (ex_work st))")
    (auto simp: explore_step_def bind_eq_Some_conv foreign_def dest!: visit_edges_measure)

declare explore_loop.simps [simp del]

subsection \<open>Blocks\<close>

text \<open>The instructions of one block, from \<open>cur\<close>, and how it ends.\<close>

partial_function (option) block_loop ::
  "pdisasm \<Rightarrow> ('e + ('u, 'b, 'l) template) list \<Rightarrow> nat list \<Rightarrow> bool list \<Rightarrow> nat \<Rightarrow> nat \<Rightarrow> (nat list \<times> pterm) option"
where
  "block_loop dis templates owner leader stamp cur =
     do {
       ins \<leftarrow> get (da_instrs dis) cur;
       let f = handler_flow templates (pi_handler ins);
       if \<not> fl_ok f then Some ([cur], T_Invalid)
       else case fl_branch f of
         Some (cond, when) \<Rightarrow>
           Some ([cur], case pi_target ins of Some t \<Rightarrow> T_Branch cond when t (pi_next ins) | None \<Rightarrow> T_Invalid)
       | None \<Rightarrow>
           if \<not> fl_falls f then Some ([cur], if fl_dynamic f then T_Dynamic None else T_Exit)
           else if fl_dynamic f then Some ([cur], T_Dynamic (Some (pi_next ins)))
           else if fl_jump f then Some ([cur], T_Jump (pi_next ins))
           else case instr_at dis (pi_next ins) of
             None \<Rightarrow> Some ([cur], T_Invalid)
           | Some j \<Rightarrow> do {
               seen \<leftarrow> get owner j;
               if seen = stamp \<and> \<not> leader ! j
               then do { (rest, t) \<leftarrow> block_loop dis templates owner leader stamp j; Some (cur # rest, t) }
               else Some ([cur], T_Next (pi_next ins)) } }"

record decompiled =
  dp_block_instrs :: "nat list"
  dp_blocks :: "pblock list"
  dp_functions :: "pfunction list"

definition add_block ::
  "pdisasm \<Rightarrow> ('e + ('u, 'b, 'l) template) list \<Rightarrow> nat list \<Rightarrow> bool list \<Rightarrow> nat \<Rightarrow> nat \<Rightarrow> decompiled \<Rightarrow> decompiled option" where
  "add_block dis templates owner leader stamp start p =
     (if \<not> leader ! start then Some p
      else do {
        (members, t) \<leftarrow> block_loop dis templates owner leader stamp start;
        ins \<leftarrow> get (da_instrs dis) start;
        let instr_start = as_u32 (length (dp_block_instrs p));
        let block_instrs = dp_block_instrs p @ members;
        Some (p\<lparr>dp_block_instrs := block_instrs,
                dp_blocks := dp_blocks p @
                  [\<lparr>pb_pc = pi_pc ins,
                    pb_instrs = \<lparr>sp_start = instr_start, sp_len = sub_u32 (as_u32 (length block_instrs)) instr_start\<rparr>,
                    pb_term = t\<rparr>]\<rparr>) })"

fun add_blocks ::
  "pdisasm \<Rightarrow> ('e + ('u, 'b, 'l) template) list \<Rightarrow> nat list \<Rightarrow> bool list \<Rightarrow> nat \<Rightarrow> nat list \<Rightarrow> decompiled \<Rightarrow> decompiled option" where
  "add_blocks dis templates owner leader stamp [] p = Some p"
| "add_blocks dis templates owner leader stamp (i # is) p = do {
     p \<leftarrow> add_block dis templates owner leader stamp i p;
     add_blocks dis templates owner leader stamp is p }"

text \<open>The marks of a function: its members with other than one predecessor become leaders too.\<close>

definition lead_members :: "nat list \<Rightarrow> nat list \<Rightarrow> bool list \<Rightarrow> bool list" where
  "lead_members members preds leader = foldl (\<lambda>l i. if preds ! i \<noteq> 1 then l[i := True] else l) leader members"

definition add_function ::
  "pdisasm \<Rightarrow> ('e + ('u, 'b, 'l) template) list \<Rightarrow> nat \<Rightarrow> nat \<Rightarrow> explore \<times> decompiled \<Rightarrow> (explore \<times> decompiled) option" where
  "add_function dis templates stamp entry s =
     (let (st, p) = s in
      case instr_at dis entry of
        None \<Rightarrow> Some (st, p)
      | Some r0 \<Rightarrow> do {
          _ \<leftarrow> get (ex_owner st) r0;
          st \<leftarrow> explore_loop dis templates stamp
            \<lparr>ex_owner = (ex_owner st)[r0 := stamp], ex_preds = (ex_preds st)[r0 := 0],
             ex_leader = (ex_leader st)[r0 := True], ex_work = [r0], ex_members = []\<rparr>;
          let leader = (lead_members (ex_members st) (ex_preds st) (ex_leader st))[r0 := True];
          let first_block = as_u32 (length (dp_blocks p));
          p \<leftarrow> add_blocks dis templates (ex_owner st) leader stamp (ex_members st) p;
          Some (st\<lparr>ex_leader := leader\<rparr>,
                p\<lparr>dp_functions := dp_functions p @
                    [\<lparr>pf_entry = entry,
                      pf_blocks = \<lparr>sp_start = first_block, sp_len = sub_u32 (as_u32 (length (dp_blocks p))) first_block\<rparr>\<rparr>]\<rparr>) })"

fun add_functions ::
  "pdisasm \<Rightarrow> ('e + ('u, 'b, 'l) template) list \<Rightarrow> nat \<Rightarrow> nat list \<Rightarrow> explore \<times> decompiled \<Rightarrow> (explore \<times> decompiled) option" where
  "add_functions dis templates fi [] s = Some s"
| "add_functions dis templates fi (entry # entries) s = do {
     s \<leftarrow> add_function dis templates (as_u32 fi) entry s;
     add_functions dis templates (fi + 1) entries s }"

definition decompile :: "pdisasm \<Rightarrow> ('e + ('u, 'b, 'l) template) list \<Rightarrow> decompiled option" where
  "decompile dis templates = do {
     let n = length (da_instrs dis);
     (_, p) \<leftarrow> add_functions dis templates 0 (da_entries dis)
       (\<lparr>ex_owner = replicate n NOT_SEEN, ex_preds = replicate n 0, ex_leader = replicate n False,
         ex_work = [], ex_members = []\<rparr>,
        \<lparr>dp_block_instrs = [], dp_blocks = [], dp_functions = []\<rparr>);
     Some p }"

subsection \<open>The control flow of a function\<close>

text \<open>The instructions that an instruction may go on with.\<close>

definition steps :: "pdisasm \<Rightarrow> ('e + ('u, 'b, 'l) template) list \<Rightarrow> nat \<Rightarrow> (nat \<times> bool) list" where
  "steps dis templates i =
     (case do { ins \<leftarrow> get (da_instrs dis) i; edges_of dis templates ins } of
        None \<Rightarrow> []
      | Some es \<Rightarrow> List.map_filter (\<lambda>(pc, forced). map_option (\<lambda>j. (j, forced)) (instr_at dis pc)) es)"

inductive in_function :: "pdisasm \<Rightarrow> ('e + ('u, 'b, 'l) template) list \<Rightarrow> nat \<Rightarrow> nat \<Rightarrow> bool" for dis templates r0 where
  in_function_root: "in_function dis templates r0 r0"
| in_function_step: "in_function dis templates r0 i \<Longrightarrow> (j, forced) \<in> set (steps dis templates i) \<Longrightarrow> in_function dis templates r0 j"

text \<open>The numbers of the index name instructions whose operands are there.\<close>

definition dis_ok :: "pdisasm \<Rightarrow> ('e + ('u, 'b, 'l) template) list \<Rightarrow> bool" where
  "dis_ok dis templates \<longleftrightarrow>
     list_all (\<lambda>ins. edges_of dis templates ins \<noteq> None) (da_instrs dis)
     \<and> list_all (\<lambda>i. i = NO_INSTR \<or> i = BAD_INSTR \<or> i \<le> length (da_instrs dis)) (da_index dis)"

lemma instr_at_bound: "dis_ok dis templates \<Longrightarrow> instr_at dis pc = Some j \<Longrightarrow> j < length (da_instrs dis)"
  by (fastforce simp: instr_at_def dis_ok_def get_def list_all_length split: if_splits option.splits)

lemma steps_edges:
  assumes "dis_ok dis templates" "i < length (da_instrs dis)"
  obtains es where "edges_of dis templates (da_instrs dis ! i) = Some es"
    "steps dis templates i = List.map_filter (\<lambda>(pc, forced). map_option (\<lambda>j. (j, forced)) (instr_at dis pc)) es"
proof -
  have "edges_of dis templates (da_instrs dis ! i) \<noteq> None" using assms by (simp add: dis_ok_def list_all_length)
  then show thesis using that assms(2) by (auto simp: steps_def get_def)
qed

lemma steps_bound:
  "dis_ok dis templates \<Longrightarrow> (j, b) \<in> set (steps dis templates i) \<Longrightarrow> j < length (da_instrs dis)"
  by (auto simp: steps_def List.map_filter_def dest: instr_at_bound split: option.splits)

subsection \<open>What exploring finds\<close>

definition owned :: "nat \<Rightarrow> explore \<Rightarrow> nat \<Rightarrow> bool" where
  "owned stamp st j \<longleftrightarrow> j < length (ex_owner st) \<and> ex_owner st ! j = stamp"

text \<open>\<open>es\<close> are the edges visited so far.\<close>

definition explore_inv :: "nat \<Rightarrow> nat \<Rightarrow> nat \<Rightarrow> nat list \<Rightarrow> (nat \<times> bool) list \<Rightarrow> explore \<Rightarrow> bool" where
  "explore_inv n stamp r0 owner0 es st \<longleftrightarrow>
     length (ex_owner st) = n \<and> length (ex_preds st) = n \<and> length (ex_leader st) = n
     \<and> distinct (ex_members st @ ex_work st) \<and> set (ex_members st @ ex_work st) = {j. owned stamp st j}
     \<and> (\<forall>j. owned stamp st j \<longrightarrow> ex_preds st ! j = length (filter (\<lambda>e. fst e = j) es)
           \<and> ex_leader st ! j = (j = r0 \<or> (j, True) \<in> set es))
     \<and> (\<forall>e \<in> set es. owned stamp st (fst e)) \<and> owned stamp st r0
     \<and> (\<forall>j < n. ex_owner st ! j = stamp \<or> ex_owner st ! j = owner0 ! j)"

lemma visit_edge_inv:
  assumes inv: "explore_inv n stamp r0 owner0 es st" and j: "instr_at dis (fst e) = Some j" "j < n"
  shows "\<exists>st'. visit_edge dis stamp e st = Some st' \<and> explore_inv n stamp r0 owner0 (es @ [(j, snd e)]) st'
    \<and> ex_members st' = ex_members st \<and> (\<forall>k. owned stamp st' k \<longleftrightarrow> owned stamp st k \<or> k = j)"
proof -
  note i = inv[unfolded explore_inv_def owned_def]
  show ?thesis
  proof (cases "ex_owner st ! j = stamp")
    case True
    let ?st = "st\<lparr>ex_preds := (ex_preds st)[j := ex_preds st ! j + 1]\<rparr>"
    let ?st' = "if snd e then ?st\<lparr>ex_leader := (ex_leader ?st)[j := True]\<rparr> else ?st"
    have "visit_edge dis stamp e st = Some ?st'" using True i j by (simp add: visit_edge_def get_def)
    moreover have "explore_inv n stamp r0 owner0 (es @ [(j, snd e)]) ?st'"
      using True i j(2) by (auto simp: explore_inv_def owned_def nth_list_update)
    ultimately show ?thesis using True i j(2) by (auto simp: owned_def)
  next
    case False
    let ?st = "st\<lparr>ex_owner := (ex_owner st)[j := stamp], ex_preds := (ex_preds st)[j := 1],
        ex_leader := (ex_leader st)[j := snd e], ex_work := j # ex_work st\<rparr>"
    have fresh: "filter (\<lambda>e. fst e = j) es = []" "(j, True) \<notin> set es" "j \<noteq> r0"
      using False i by (auto simp: filter_empty_conv)
    have "set (ex_members st @ ex_work st) = {j. j < length (ex_owner st) \<and> ex_owner st ! j = stamp}" using i by blast
    then have fresh4: "j \<notin> set (ex_members st @ ex_work st)" using False by blast
    have di: "distinct (ex_members st @ ex_work st)" using i by blast
    have "visit_edge dis stamp e st = Some ?st"
      using False i j by (cases "snd e") (simp_all add: visit_edge_def get_def Let_def)
    moreover have "explore_inv n stamp r0 owner0 (es @ [(j, snd e)]) ?st"
    proof -
      have "set (ex_members ?st @ ex_work ?st) = {k. owned stamp ?st k}"
        using i j(2) by (auto simp: owned_def nth_list_update)
      moreover have "distinct (ex_members ?st @ ex_work ?st)" 
        using di fresh4 by simp
      moreover have "\<forall>k. owned stamp ?st k \<longrightarrow> ex_preds ?st ! k = length (filter (\<lambda>e. fst e = k) (es @ [(j, snd e)]))
           \<and> ex_leader ?st ! k = (k = r0 \<or> (k, True) \<in> set (es @ [(j, snd e)]))"
        using i j(2) fresh(1-3) by (auto simp: owned_def nth_list_update)
      moreover have "\<forall>e' \<in> set (es @ [(j, snd e)]). owned stamp ?st (fst e')" "owned stamp ?st r0"
        "\<forall>k < n. ex_owner ?st ! k = stamp \<or> ex_owner ?st ! k = owner0 ! k"
        using i j(2) by (auto simp: owned_def nth_list_update)
      ultimately show ?thesis using i by (simp add: explore_inv_def)
    qed
    ultimately show ?thesis using i j(2) by (auto simp: owned_def nth_list_update)
  qed
qed

lemma visit_edges_inv:
  assumes "explore_inv (length (da_instrs dis)) stamp r0 owner0 es st" "dis_ok dis templates"
  defines "new \<equiv> List.map_filter (\<lambda>(pc, forced). map_option (\<lambda>j. (j, forced)) (instr_at dis pc))"
  shows "\<exists>st'. visit_edges dis stamp edges st = Some st'
    \<and> explore_inv (length (da_instrs dis)) stamp r0 owner0 (es @ new edges) st'
    \<and> ex_members st' = ex_members st \<and> (\<forall>k. owned stamp st' k \<longrightarrow> owned stamp st k \<or> k \<in> fst ` set (new edges))"
  using assms(1)
proof (induction edges arbitrary: es st)
  case Nil
  then show ?case by (simp add: new_def)
next
  case (Cons e edges)
  show ?case
  proof (cases "instr_at dis (fst e)")
    case None
    then have "visit_edge dis stamp e st = Some st" "new (e # edges) = new edges"
      by (simp_all add: visit_edge_def new_def split_beta)
    then show ?thesis using Cons.IH[OF Cons.prems] by simp
  next
    case (Some j)
    from visit_edge_inv[OF Cons.prems Some instr_at_bound[OF assms(2) Some]] obtain st1 where
      st1: "visit_edge dis stamp e st = Some st1" "explore_inv (length (da_instrs dis)) stamp r0 owner0 (es @ [(j, snd e)]) st1"
        "ex_members st1 = ex_members st" "\<And>k. owned stamp st1 k \<longleftrightarrow> owned stamp st k \<or> k = j" by blast
    have "new (e # edges) = (j, snd e) # new edges" using Some by (simp add: new_def split_beta)
    then show ?thesis using st1 Cons.IH[OF st1(2)] by fastforce
  qed
qed

text \<open>Between the turns the edges are those of the members.\<close>

definition explored :: "pdisasm \<Rightarrow> ('e + ('u, 'b, 'l) template) list \<Rightarrow> nat \<Rightarrow> nat \<Rightarrow> nat list \<Rightarrow> explore \<Rightarrow> bool" where
  "explored dis templates stamp r0 owner0 st \<longleftrightarrow>
     explore_inv (length (da_instrs dis)) stamp r0 owner0 (concat (map (steps dis templates) (ex_members st))) st
     \<and> (\<forall>j. owned stamp st j \<longrightarrow> in_function dis templates r0 j)"

lemma explore_step_explored:
  assumes ok: "dis_ok dis templates" and ex: "explored dis templates stamp r0 owner0 st" and w: "ex_work st = i # work"
  shows "\<exists>st'. explore_step dis templates stamp i (st\<lparr>ex_work := work\<rparr>) = Some st' \<and> explored dis templates stamp r0 owner0 st'"
proof -
  let ?n = "length (da_instrs dis)"
  let ?st = "st\<lparr>ex_work := work, ex_members := ex_members st @ [i]\<rparr>"
  have inv: "explore_inv ?n stamp r0 owner0 (concat (map (steps dis templates) (ex_members st))) st"
    and reach: "\<And>j. owned stamp st j \<Longrightarrow> in_function dis templates r0 j"
    using ex by (auto simp: explored_def)
  have "owned stamp st i" using inv w by (auto simp: explore_inv_def)
  then have i: "i < ?n" "in_function dis templates r0 i" using inv reach by (auto simp: explore_inv_def owned_def)
  obtain edges where edges: "edges_of dis templates (da_instrs dis ! i) = Some edges"
      "steps dis templates i = List.map_filter (\<lambda>(pc, forced). map_option (\<lambda>j. (j, forced)) (instr_at dis pc)) edges"
    by (rule steps_edges[OF ok i(1)])
  have own: "owned stamp ?st = owned stamp st" by (simp add: owned_def fun_eq_iff)
  have "explore_inv ?n stamp r0 owner0 (concat (map (steps dis templates) (ex_members st))) ?st"
    using inv w unfolding explore_inv_def own by auto
  from visit_edges_inv[OF this ok, of edges] obtain st' where st':
      "visit_edges dis stamp edges ?st = Some st'"
      "explore_inv ?n stamp r0 owner0 (concat (map (steps dis templates) (ex_members st)) @ steps dis templates i) st'"
      "ex_members st' = ex_members st @ [i]"
      "\<And>k. owned stamp st' k \<Longrightarrow> owned stamp st k \<or> k \<in> fst ` set (steps dis templates i)"
    unfolding edges(2)[symmetric] own by auto
  have "explore_step dis templates stamp i (st\<lparr>ex_work := work\<rparr>) = Some st'"
    using i(1) edges(1) st'(1) by (simp add: explore_step_def get_def)
  moreover have "explored dis templates stamp r0 owner0 st'"
    using st'(2,3) reach st'(4) in_function_step[OF i(2)] by (fastforce simp: explored_def)
  ultimately show ?thesis by blast
qed

lemma explore_loop_explored:
  assumes "dis_ok dis templates" "explored dis templates stamp r0 owner0 st"
  shows "\<exists>st'. explore_loop dis templates stamp st = Some st' \<and> explored dis templates stamp r0 owner0 st' \<and> ex_work st' = []"
  using assms
proof (induction dis templates stamp st rule: explore_loop.induct)
  case (1 dis templates stamp st)
  show ?case
  proof (cases "ex_work st")
    case Nil
    then show ?thesis using 1(3) by (simp add: explore_loop.simps[of _ _ _ st])
  next
    case (Cons i work)
    from explore_step_explored[OF 1(2,3) Cons] obtain st' where
      st': "explore_step dis templates stamp i (st\<lparr>ex_work := work\<rparr>) = Some st'" "explored dis templates stamp r0 owner0 st'" by blast
    then show ?thesis using 1(1)[OF Cons st'(1) 1(2) st'(2)] Cons by (simp add: explore_loop.simps[of _ _ _ st])
  qed
qed

definition in_degree :: "pdisasm \<Rightarrow> ('e + ('u, 'b, 'l) template) list \<Rightarrow> nat list \<Rightarrow> nat \<Rightarrow> nat" where
  "in_degree dis templates members j = length (filter (\<lambda>e. fst e = j) (concat (map (steps dis templates) members)))"

lemma explored_members:
  assumes "dis_ok dis templates" "explored dis templates stamp r0 owner0 st" "ex_work st = []"
  shows "distinct (ex_members st) \<and> set (ex_members st) = {j. in_function dis templates r0 j}
    \<and> set (ex_members st) = {j. owned stamp st j}"
proof -
  have inv: "explore_inv (length (da_instrs dis)) stamp r0 owner0 (concat (map (steps dis templates) (ex_members st))) st"
    and reach: "\<And>j. owned stamp st j \<Longrightarrow> in_function dis templates r0 j"
    using assms(2) by (auto simp: explored_def)
  have m: "distinct (ex_members st)" "set (ex_members st) = {j. owned stamp st j}"
    using inv assms(3) by (auto simp: explore_inv_def)
  have "j \<in> set (ex_members st)" if "in_function dis templates r0 j" for j
    using that
  proof (induction rule: in_function.induct)
    case in_function_root
    then show ?case using inv m(2) by (simp add: explore_inv_def)
  next
    case (in_function_step i j forced)
    then have "(j, forced) \<in> set (concat (map (steps dis templates) (ex_members st)))" by auto
    then show ?case using inv m(2) unfolding explore_inv_def by force
  qed
  then show ?thesis using m reach by blast
qed

subsection \<open>Leaders\<close>

lemma update_nth: "j < length xs \<Longrightarrow> xs[i := y] ! j = (if i = j then y else xs ! j)"
  by (cases "i = j") simp_all

lemma lead_members_spec:
  "length (lead_members members preds leader) = length leader
   \<and> (\<forall>j < length leader. lead_members members preds leader ! j = (leader ! j \<or> j \<in> set members \<and> preds ! j \<noteq> 1))"
proof (induction members arbitrary: leader)
  case (Cons i members)
  have "lead_members (i # members) preds leader = lead_members members preds (if preds ! i \<noteq> 1 then leader[i := True] else leader)"
    by (simp add: lead_members_def)
  then show ?case using Cons[of "if preds ! i \<noteq> 1 then leader[i := True] else leader"] by (auto simp: update_nth)
qed (simp add: lead_members_def)

text \<open>The only way on, where that does not start a block.\<close>

definition next_in :: "pdisasm \<Rightarrow> ('e + ('u, 'b, 'l) template) list \<Rightarrow> nat \<Rightarrow> nat option" where
  "next_in dis templates i =
     (case get (da_instrs dis) i of
        None \<Rightarrow> None
      | Some ins \<Rightarrow>
          let f = handler_flow templates (pi_handler ins) in
          if fl_ok f \<and> \<not> fl_ender f then instr_at dis (pi_next ins) else None)"

lemma flow_cases:
  "\<not> fl_ok (handler_flow templates h) \<or> fl_ender (handler_flow templates h) \<longleftrightarrow>
     \<not> fl_ok (handler_flow templates h) \<or> fl_branch (handler_flow templates h) \<noteq> None \<or> \<not> fl_falls (handler_flow templates h)
     \<or> fl_dynamic (handler_flow templates h) \<or> fl_jump (handler_flow templates h)"
  by (auto simp: handler_flow_def flow_of_def no_flow_def split: option.splits sum.splits)

lemma next_in_steps:
  assumes "dis_ok dis templates" "i < length (da_instrs dis)"
  shows "next_in dis templates i = Some j \<longleftrightarrow> (j, False) \<in> set (steps dis templates i)"
proof -
  let ?ins = "da_instrs dis ! i" and ?f = "handler_flow templates (pi_handler (da_instrs dis ! i))"
  obtain es where es: "edges_of dis templates ?ins = Some es"
    "steps dis templates i = List.map_filter (\<lambda>(pc, forced). map_option (\<lambda>j. (j, forced)) (instr_at dis pc)) es"
    by (rule steps_edges[OF assms])
  have "(pc, False) \<in> set es \<longleftrightarrow> fl_ok ?f \<and> fl_falls ?f \<and> \<not> fl_ender ?f \<and> pc = pi_next ?ins" for pc
    using es(1) by (auto simp: edges_of_def Let_def bind_eq_Some_conv split: if_splits option.splits)
  moreover have "(j, False) \<in> set (steps dis templates i) \<longleftrightarrow> (\<exists>pc. (pc, False) \<in> set es \<and> instr_at dis pc = Some j)"
    by (force simp: es(2) List.map_filter_def split: option.splits)
  ultimately show ?thesis
    using flow_cases[of templates "pi_handler ?ins"] assms(2) by (auto simp: next_in_def get_def Let_def)
qed

text \<open>What is known of a function before its blocks are made.\<close>

definition function_ok ::
  "pdisasm \<Rightarrow> ('e + ('u, 'b, 'l) template) list \<Rightarrow> nat \<Rightarrow> nat \<Rightarrow> nat list \<Rightarrow> nat list \<Rightarrow> bool list \<Rightarrow> bool" where
  "function_ok dis templates stamp r0 members owner leader \<longleftrightarrow>
     dis_ok dis templates \<and> distinct members \<and> set members = {j. in_function dis templates r0 j}
     \<and> length owner = length (da_instrs dis) \<and> (\<forall>j < length owner. owner ! j = stamp \<longleftrightarrow> j \<in> set members)
     \<and> (\<forall>j \<in> set members. j < length (da_instrs dis))
     \<and> (\<forall>j \<in> set members. leader ! j =
          (j = r0 \<or> (\<exists>i \<in> set members. (j, True) \<in> set (steps dis templates i)) \<or> in_degree dis templates members j \<noteq> 1))"

lemma in_degree_unique:
  assumes "distinct members" "in_degree dis templates members j = 1"
    and "i \<in> set members" "(j, b) \<in> set (steps dis templates i)"
    and "i' \<in> set members" "(j, b') \<in> set (steps dis templates i')"
  shows "i = i'"
proof (rule ccontr)
  assume ne: "i \<noteq> i'"
  let ?c = "\<lambda>i. length (filter (\<lambda>e. fst e = j) (steps dis templates i))"
  have "in_degree dis templates members j = (\<Sum>i \<leftarrow> members. ?c i)"
    unfolding in_degree_def by (induction members) simp_all
  also have "\<dots> = (\<Sum>i \<in> set members. ?c i)" using assms(1) by (rule sum_list_distinct_conv_sum_set)
  also have "\<dots> \<ge> (\<Sum>i \<in> {i, i'}. ?c i)" using assms(3,5) by (intro sum_mono2) auto
  finally have "?c i + ?c i' \<le> 1" using assms(2) ne by simp
  moreover have "0 < ?c i" "0 < ?c i'" using assms(4,6) by (force simp: filter_empty_conv)+
  ultimately show False by linarith
qed

text \<open>An instruction that does not start a block has one predecessor, and follows it.\<close>

lemma non_leader_pred:
  assumes "function_ok dis templates stamp r0 members owner leader" "j \<in> set members" "\<not> leader ! j"
    and "i \<in> set members" "(j, b) \<in> set (steps dis templates i)"
  shows "next_in dis templates i = Some j"
    and "\<And>i'. i' \<in> set members \<Longrightarrow> next_in dis templates i' = Some j \<Longrightarrow> i' = i"
proof -
  have f: "in_degree dis templates members j = 1" "\<And>i. i \<in> set members \<Longrightarrow> (j, True) \<notin> set (steps dis templates i)"
    using assms(1-3) by (auto simp: function_ok_def)
  then have "b = False" using assms(4,5) by (cases b) auto
  then show "next_in dis templates i = Some j"
    using assms(1,4,5) by (subst next_in_steps) (auto simp: function_ok_def)
  fix i'
  assume i': "i' \<in> set members" "next_in dis templates i' = Some j"
  then have "(j, False) \<in> set (steps dis templates i')"
    using assms(1) next_in_steps[of dis templates i' j] by (auto simp: function_ok_def)
  then show "i' = i" using in_degree_unique[OF _ f(1) i'(1) _ assms(4,5)] assms(1) by (auto simp: function_ok_def)
qed

subsection \<open>A block ends\<close>

definition follows :: "pdisasm \<Rightarrow> ('e + ('u, 'b, 'l) template) list \<Rightarrow> bool list \<Rightarrow> nat \<Rightarrow> nat \<Rightarrow> bool" where
  "follows dis templates leader a b \<longleftrightarrow> next_in dis templates a = Some b \<and> \<not> leader ! b"

lemma block_loop_turn:
  assumes "function_ok dis templates stamp r0 members owner leader" "cur \<in> set members"
  shows "(\<exists>t. block_loop dis templates owner leader stamp cur = Some ([cur], t) \<and> (\<forall>j. \<not> follows dis templates leader cur j))
    \<or> (\<exists>j. follows dis templates leader cur j \<and> j \<in> set members \<and>
         block_loop dis templates owner leader stamp cur =
           map_option (\<lambda>(rest, t). (cur # rest, t)) (block_loop dis templates owner leader stamp j))"
proof -
  let ?f = "handler_flow templates (pi_handler (da_instrs dis ! cur))"
  have cur: "cur < length (da_instrs dis)" "get (da_instrs dis) cur = Some (da_instrs dis ! cur)"
    using assms by (auto simp: function_ok_def get_def)
  show ?thesis
  proof (cases "next_in dis templates cur")
    case None
    then have "\<exists>t. block_loop dis templates owner leader stamp cur = Some ([cur], t)"
      using cur flow_cases[of templates "pi_handler (da_instrs dis ! cur)"]
      by (subst block_loop.simps) (auto simp: next_in_def Let_def split: option.splits if_splits)
    then show ?thesis using None by (auto simp: follows_def)
  next
    case (Some j)
    then have st: "(j, False) \<in> set (steps dis templates cur)"
      using assms next_in_steps[OF _ cur(1)] by (auto simp: function_ok_def)
    then have "in_function dis templates r0 j" using assms by (auto simp: function_ok_def intro: in_function_step)
    then have j: "j \<in> set members" "j < length owner" "owner ! j = stamp" using assms(1) by (auto simp: function_ok_def)
    have plain: "fl_ok ?f" "\<not> fl_ender ?f" "instr_at dis (pi_next (da_instrs dis ! cur)) = Some j"
      using Some cur by (auto simp: next_in_def Let_def split: if_splits)
    then have "fl_branch ?f = None" "fl_falls ?f" "\<not> fl_dynamic ?f" "\<not> fl_jump ?f"
      using flow_cases[of templates "pi_handler (da_instrs dis ! cur)"] by blast+
    then have loop: "block_loop dis templates owner leader stamp cur =
        (if leader ! j then Some ([cur], T_Next (pi_next (da_instrs dis ! cur)))
         else map_option (\<lambda>(rest, t). (cur # rest, t)) (block_loop dis templates owner leader stamp j))"
      using plain j cur by (subst block_loop.simps) (simp add: get_def map_option_case split: option.split)
    show ?thesis using loop Some j(1) by (auto simp: follows_def)
  qed
qed

lemma block_loop_ends:
  assumes ok: "function_ok dis templates stamp r0 members owner leader"
    and ps: "distinct (ps @ [cur])" "set (ps @ [cur]) \<subseteq> set members" "leader ! hd (ps @ [cur])"
      "successively (follows dis templates leader) (ps @ [cur])"
  shows "\<exists>is t. block_loop dis templates owner leader stamp cur = Some (is, t) \<and> is \<noteq> [] \<and> hd is = cur
    \<and> distinct (ps @ is) \<and> set is \<subseteq> set members \<and> successively (follows dis templates leader) is
    \<and> (\<forall>j. \<not> follows dis templates leader (last is) j)"
  using ps
proof (induction "length members - length ps" arbitrary: ps cur rule: less_induct)
  case less
  have cur: "cur \<in> set members" using less.prems(2) by simp
  from block_loop_turn[OF ok cur] consider
      t where "block_loop dis templates owner leader stamp cur = Some ([cur], t)" "\<forall>j. \<not> follows dis templates leader cur j"
    | j where "follows dis templates leader cur j" "j \<in> set members"
        "block_loop dis templates owner leader stamp cur =
           map_option (\<lambda>(rest, t). (cur # rest, t)) (block_loop dis templates owner leader stamp j)" by blast
  then show ?case
  proof cases
    case 1
    then show ?thesis using less.prems by auto
  next
    case (2 j)
    have fresh: "j \<notin> set (ps @ [cur])"
    proof
      assume "j \<in> set (ps @ [cur])"
      then obtain a where a: "a < length (ps @ [cur])" "(ps @ [cur]) ! a = j" by (metis in_set_conv_nth)
      have "hd (ps @ [cur]) = (ps @ [cur]) ! 0" by (rule hd_conv_nth) simp
      then have "a \<noteq> 0" using a(2) less.prems(3) 2(1) by (metis follows_def)
      then obtain b where b: "a = Suc b" by (cases a) auto
      have fb: "follows dis templates leader ((ps @ [cur]) ! b) j"
        using less.prems(4) a b successively_nth[of "follows dis templates leader" "ps @ [cur]" b] by auto
      have mb: "(ps @ [cur]) ! b \<in> set members" using a b less.prems(2) by (meson Suc_lessD nth_mem subsetD)
      have "cur < length (da_instrs dis)" using ok cur by (auto simp: function_ok_def)
      then have edge: "(j, False) \<in> set (steps dis templates cur)"
        using 2(1) next_in_steps ok by (auto simp: follows_def function_ok_def)
      have nl: "\<not> leader ! j" "next_in dis templates ((ps @ [cur]) ! b) = Some j" using 2(1) fb by (auto simp: follows_def)
      have "(ps @ [cur]) ! b = cur" by (rule non_leader_pred(2)[OF ok 2(2) nl(1) cur edge mb nl(2)])
      moreover have "b < length ps" using a b by simp
      ultimately show False using less.prems(1) by (auto simp: nth_append)
    qed
    have card: "length (ps @ [cur]) < length members"
      using card_mono[of "set members" "insert j (set (ps @ [cur]))"] fresh less.prems(1,2) 2(2)
        distinct_card[OF less.prems(1)] card_length[of members] by auto
    have "successively (follows dis templates leader) ((ps @ [cur]) @ [j])"
      using less.prems(4) 2(1) by (auto simp: successively_append_iff)
    moreover have "distinct ((ps @ [cur]) @ [j])" "set ((ps @ [cur]) @ [j]) \<subseteq> set members" "leader ! hd ((ps @ [cur]) @ [j])"
      using less.prems(1-3) fresh 2(2) by (auto simp: hd_append)
    moreover have "length members - length (ps @ [cur]) < length members - length ps" using card by simp
    ultimately obtain "is" t where r: "block_loop dis templates owner leader stamp j = Some (is, t)" "is \<noteq> []" "hd is = j"
        "distinct ((ps @ [cur]) @ is)" "set is \<subseteq> set members" "successively (follows dis templates leader) is"
        "\<forall>j. \<not> follows dis templates leader (last is) j"
      using less.hyps[of "ps @ [cur]" j] by blast
    have "successively (follows dis templates leader) (cur # is)" using r(2,3,6) 2(1) by (cases "is") auto
    then show ?thesis using r 2(3) cur by (intro exI[of _ "cur # is"] exI[of _ t]) simp
  qed
qed

subsection \<open>The blocks of a function\<close>

text \<open>Basic blocks: every instruction of the function is in exactly one block, inside a block each
  falls through to the next, and control gets anywhere else only at the start of a block.\<close>

definition basic_blocks :: "pdisasm \<Rightarrow> ('e + ('u, 'b, 'l) template) list \<Rightarrow> nat \<Rightarrow> nat list list \<Rightarrow> bool" where
  "basic_blocks dis templates r0 ls \<longleftrightarrow>
     distinct (concat ls) \<and> set (concat ls) = {j. in_function dis templates r0 j} \<and> [] \<notin> set ls
     \<and> (\<forall>l \<in> set ls. successively (\<lambda>a b. (b, False) \<in> set (steps dis templates a)) l)
     \<and> (\<forall>i j forced. in_function dis templates r0 i \<and> (j, forced) \<in> set (steps dis templates i)
          \<longrightarrow> j \<in> hd ` set ls \<or> (\<exists>l \<in> set ls. \<exists>xs ys. l = xs @ i # j # ys))"

lemma follows_pred:
  assumes "function_ok dis templates stamp r0 members owner leader" "a \<in> set members" "a' \<in> set members" "b \<in> set members"
    and "follows dis templates leader a b" "follows dis templates leader a' b"
  shows "a = a'"
proof -
  have "a < length (da_instrs dis)" using assms(1,2) by (auto simp: function_ok_def)
  then have "(b, False) \<in> set (steps dis templates a)"
    using assms(1,5) next_in_steps by (auto simp: follows_def function_ok_def)
  then show ?thesis using non_leader_pred(2)[OF assms(1,4) _ assms(2)] assms(3,5,6) by (auto simp: follows_def)
qed

text \<open>Two blocks that share an instruction have the same start.\<close>

lemma blocks_disjoint:
  assumes ok: "function_ok dis templates stamp r0 members owner leader"
    and l: "set l \<subseteq> set members" "successively (follows dis templates leader) l" "l \<noteq> []" "leader ! hd l"
    and l': "set l' \<subseteq> set members" "successively (follows dis templates leader) l'" "l' \<noteq> []" "leader ! hd l'"
  shows "k < length l \<Longrightarrow> k' < length l' \<Longrightarrow> l ! k = l' ! k' \<Longrightarrow> hd l = hd l'"
proof (induction k arbitrary: k')
  case 0
  then have lead: "leader ! (l' ! k')" using l(3,4) by (simp add: hd_conv_nth)
  have "k' = 0"
  proof (rule ccontr)
    assume "k' \<noteq> 0"
    then obtain m where "k' = Suc m" by (cases k') auto
    then have "follows dis templates leader (l' ! m) (l' ! k')" using l'(2) 0(2) successively_nth by fastforce
    then show False using lead by (simp add: follows_def)
  qed
  then show ?case using 0 l(3) l'(3) by (simp add: hd_conv_nth)
next
  case (Suc k)
  have f: "follows dis templates leader (l ! k) (l ! Suc k)" using l(2) Suc.prems(1) successively_nth by fastforce
  then have "\<not> leader ! (l' ! k')" using Suc.prems(3) by (simp add: follows_def)
  then have "k' \<noteq> 0" using l'(3,4) by (metis hd_conv_nth)
  then obtain m where m: "k' = Suc m" by (cases k') auto
  then have f': "follows dis templates leader (l' ! m) (l ! Suc k)"
    using l'(2) Suc.prems(2,3) successively_nth by fastforce
  have "l ! k \<in> set members" "l ! Suc k \<in> set members" "l' ! m \<in> set members"
    using l(1) l'(1) Suc.prems(1,2) m by (meson Suc_lessD nth_mem subsetD)+
  then have "l ! k = l' ! m" using follows_pred[OF ok _ _ _ f f'] by blast
  then show ?case using Suc.IH[of m] Suc.prems(1,2) m Suc_lessD by blast
qed

lemma basic_blocks_made:
  assumes ok: "function_ok dis templates stamp r0 members owner leader"
    and ls: "map hd ls = filter (\<lambda>j. leader ! j) members"
    and l: "\<And>l. l \<in> set ls \<Longrightarrow> l \<noteq> [] \<and> distinct l \<and> set l \<subseteq> set members \<and> successively (follows dis templates leader) l
        \<and> (\<forall>j. \<not> follows dis templates leader (last l) j)"
  shows "basic_blocks dis templates r0 ls"
proof -
  have mem: "\<And>j. j \<in> set members \<longleftrightarrow> in_function dis templates r0 j" "distinct members"
    "\<And>j. j \<in> set members \<Longrightarrow> j < length (da_instrs dis)"
    using ok by (auto simp: function_ok_def)
  have dok: "dis_ok dis templates" using ok by (simp add: function_ok_def)
  have heads: "hd ` set ls = {j \<in> set members. leader ! j}" using arg_cong[OF ls, of set] by auto
  have dist: "distinct (map hd ls)" using ls mem(2) by simp
  have lead: "leader ! hd l" if "l \<in> set ls" for l using heads that by auto
  have disj: "hd l = hd l'" if "l \<in> set ls" "l' \<in> set ls" "x \<in> set l" "x \<in> set l'" for l l' x
  proof -
    note mem_l = that(3) and mem_l' = that(4)
    obtain k where k: "k < length l" "l ! k = x" using mem_l by (auto simp: in_set_conv_nth)
    obtain k' where k': "k' < length l'" "l' ! k' = x" using mem_l' by (auto simp: in_set_conv_nth)
    note a = l[OF that(1)] and b = l[OF that(2)]
    show ?thesis
      by (rule blocks_disjoint[OF ok, where l = l and l' = l' and k = k and k' = k'])
        (use a b k k' lead[OF that(1)] lead[OF that(2)] in simp_all)
  qed
  have "distinct (concat ls)"
  proof (rule distinct_concat)
    show "distinct ls" using dist by (simp add: distinct_map)
    show "set l \<inter> set l' = {}" if "l \<in> set ls" "l' \<in> set ls" "l \<noteq> l'" for l l'
      using disj[OF that(1,2)] dist that by (auto simp: distinct_map inj_on_def)
  qed (use l in blast)
  moreover have goes: "j \<in> hd ` set ls \<or> (\<exists>l \<in> set ls. \<exists>xs ys. l = xs @ i # j # ys)"
    if "i \<in> set (concat ls)" "(j, forced) \<in> set (steps dis templates i)" for i j forced
  proof (cases "leader ! j")
    case True
    have "in_function dis templates r0 i" using that(1) l mem(1) by fastforce
    then have "j \<in> set members" using that(2) mem(1) in_function_step by fast
    then show ?thesis using True heads by auto
  next
    case False
    have "\<exists>l \<in> set ls. i \<in> set l" using that(1) by auto
    then obtain l where "l \<in> set ls" "i \<in> set l" by blast
    then obtain xs ys where l_eq: "l = xs @ i # ys" by (meson split_list)
    have i: "i \<in> set members" using l \<open>l \<in> set ls\<close> \<open>i \<in> set l\<close> by blast
    then have "j \<in> set members" using that(2) mem(1) in_function_step by fast
    then have f: "follows dis templates leader i j"
      using non_leader_pred(1)[OF ok _ False i that(2)] False by (simp add: follows_def)
    then have "ys \<noteq> []" using l[OF \<open>l \<in> set ls\<close>] l_eq by auto
    then obtain y zs where ys: "ys = y # zs" by (cases ys) auto
    then have "follows dis templates leader i y"
      using l[OF \<open>l \<in> set ls\<close>] l_eq by (simp add: successively_append_iff)
    then have "y = j" using f by (simp add: follows_def)
    then show ?thesis using l_eq ys \<open>l \<in> set ls\<close> by blast
  qed
  moreover have "set (concat ls) = {j. in_function dis templates r0 j}"
  proof
    show "set (concat ls) \<subseteq> {j. in_function dis templates r0 j}" using l mem(1) by fastforce
    have "j \<in> set (concat ls)" if "in_function dis templates r0 j" for j
      using that
    proof (induction rule: in_function.induct)
      case in_function_root
      have "r0 \<in> set members" using mem(1) in_function.in_function_root by fast
      moreover from this have "leader ! r0" using ok unfolding function_ok_def by blast
      ultimately obtain x where "x \<in> set ls" "hd x = r0" using heads by (metis (mono_tags, lifting) imageE mem_Collect_eq)
      then show ?case using l by (metis UN_I hd_in_set set_concat)
    next
      case (in_function_step i j forced)
      from goes[OF in_function_step.IH in_function_step.hyps(2)] show ?case
      proof
        assume "j \<in> hd ` set ls"
        then show ?thesis using l by (metis UN_I hd_in_set imageE set_concat)
      next
        assume "\<exists>l \<in> set ls. \<exists>xs ys. l = xs @ i # j # ys"
        then obtain l xs ys where "l \<in> set ls" "l = xs @ i # j # ys" by blast
        moreover from this have "j \<in> set l" by simp
        ultimately show ?thesis by (auto simp only: set_concat)
      qed
    qed
    then show "{j. in_function dis templates r0 j} \<subseteq> set (concat ls)" by blast
  qed
  moreover have "successively (\<lambda>a b. (b, False) \<in> set (steps dis templates a)) x" if "x \<in> set ls" for x
  proof -
    have "successively (follows dis templates leader) x" "set x \<subseteq> set members" using l[OF that] by auto
    moreover have "follows dis templates leader a b \<Longrightarrow> a \<in> set members \<Longrightarrow> (b, False) \<in> set (steps dis templates a)" for a b
      using next_in_steps[OF dok mem(3)] by (simp add: follows_def)
    ultimately show ?thesis by (auto intro: successively_mono[where P = "follows dis templates leader"])
  qed
  ultimately show ?thesis using l mem(1) unfolding basic_blocks_def by blast
qed

subsection \<open>All functions\<close>

text \<open>The instructions of the blocks of a span, as the program stores them.\<close>

definition block_members :: "decompiled \<Rightarrow> pblock \<Rightarrow> nat list" where
  "block_members p b = (case span_of (dp_block_instrs p) (pb_instrs b) of Some is \<Rightarrow> is | None \<Rightarrow> [])"

definition function_blocks :: "decompiled \<Rightarrow> pfunction \<Rightarrow> pblock list" where
  "function_blocks p f = (case span_of (dp_blocks p) (pf_blocks f) of Some bs \<Rightarrow> bs | None \<Rightarrow> [])"

text \<open>\<open>p'\<close> extends \<open>p\<close> by the blocks \<open>ls\<close>.\<close>

definition extends :: "pdisasm \<Rightarrow> nat list list \<Rightarrow> decompiled \<Rightarrow> decompiled \<Rightarrow> bool" where
  "extends dis ls p p' \<longleftrightarrow>
     dp_block_instrs p' = dp_block_instrs p @ concat ls \<and> dp_functions p' = dp_functions p
     \<and> (\<exists>bs. dp_blocks p' = dp_blocks p @ bs
          \<and> list_all2 (\<lambda>b l. span_of (dp_block_instrs p') (pb_instrs b) = Some l \<and> pb_pc b = pi_pc (da_instrs dis ! hd l)) bs ls)"

lemma extends_trans:
  assumes "extends dis ls p p'" "extends dis ms p' p''"
  shows "extends dis (ls @ ms) p p''"
proof -
  obtain bs cs where bs: "dp_blocks p' = dp_blocks p @ bs" "dp_blocks p'' = dp_blocks p' @ cs"
      "list_all2 (\<lambda>b l. span_of (dp_block_instrs p') (pb_instrs b) = Some l \<and> pb_pc b = pi_pc (da_instrs dis ! hd l)) bs ls"
      "list_all2 (\<lambda>b l. span_of (dp_block_instrs p'') (pb_instrs b) = Some l \<and> pb_pc b = pi_pc (da_instrs dis ! hd l)) cs ms"
    using assms unfolding extends_def by blast
  have "list_all2 (\<lambda>b l. span_of (dp_block_instrs p'') (pb_instrs b) = Some l \<and> pb_pc b = pi_pc (da_instrs dis ! hd l)) bs ls"
    using bs(3) assms(2) by (auto simp: extends_def span_of_append elim!: list_all2_mono)
  then show ?thesis using bs(1,2,4) assms by (auto simp: extends_def intro: list_all2_appendI)
qed

lemma blocks_exist:
  assumes ok: "function_ok dis templates stamp r0 members owner leader" and sub: "set is \<subseteq> set members"
  shows "\<exists>ls. list_all2 (\<lambda>i l. \<exists>t. block_loop dis templates owner leader stamp i = Some (l, t)) (filter (\<lambda>j. leader ! j) is) ls
    \<and> map hd ls = filter (\<lambda>j. leader ! j) is
    \<and> (\<forall>l \<in> set ls. l \<noteq> [] \<and> distinct l \<and> set l \<subseteq> set members \<and> successively (follows dis templates leader) l
        \<and> (\<forall>j. \<not> follows dis templates leader (last l) j))"
  using sub
proof (induction "is")
  case (Cons i "is")
  show ?case
  proof (cases "leader ! i")
    case True
    obtain l t where "block_loop dis templates owner leader stamp i = Some (l, t)" "l \<noteq> []" "hd l = i" "distinct l"
        "set l \<subseteq> set members" "successively (follows dis templates leader) l" "\<forall>j. \<not> follows dis templates leader (last l) j"
      using block_loop_ends[OF ok, of "[]" i] Cons.prems True by auto
    moreover obtain ls where "list_all2 (\<lambda>i l. \<exists>t. block_loop dis templates owner leader stamp i = Some (l, t)) (filter (\<lambda>j. leader ! j) is) ls"
        "map hd ls = filter (\<lambda>j. leader ! j) is"
        "\<forall>l \<in> set ls. l \<noteq> [] \<and> distinct l \<and> set l \<subseteq> set members \<and> successively (follows dis templates leader) l
          \<and> (\<forall>j. \<not> follows dis templates leader (last l) j)"
      using Cons by auto
    ultimately show ?thesis using True by (intro exI[of _ "l # ls"]) auto
  qed (use Cons in auto)
qed simp

lemma add_blocks_made:
  assumes "list_all2 (\<lambda>i l. \<exists>t. block_loop dis templates owner leader stamp i = Some (l, t)) (filter (\<lambda>j. leader ! j) is) ls"
    and "map hd ls = filter (\<lambda>j. leader ! j) is" "list_all (\<lambda>i. i < length (da_instrs dis)) is"
    and "length (dp_block_instrs p) + length (concat ls) < 2 ^ 32"
  shows "\<exists>p'. add_blocks dis templates owner leader stamp is p = Some p' \<and> extends dis ls p p'"
  using assms
proof (induction "is" arbitrary: p ls)
  case Nil
  then have "extends dis ls p p" by (simp add: extends_def)
  then show ?case by simp
next
  case (Cons i "is")
  show ?case
  proof (cases "leader ! i")
    case False
    then have "add_block dis templates owner leader stamp i p = Some p" by (simp add: add_block_def)
    then show ?thesis using Cons.IH[of ls p] Cons.prems False by simp
  next
    case True
    then obtain l t ms where l: "ls = l # ms" "block_loop dis templates owner leader stamp i = Some (l, t)" "hd l = i"
        "list_all2 (\<lambda>i l. \<exists>t. block_loop dis templates owner leader stamp i = Some (l, t)) (filter (\<lambda>j. leader ! j) is) ms"
        "map hd ms = filter (\<lambda>j. leader ! j) is"
      using Cons.prems(1,2) by (auto simp: list_all2_Cons1)
    define p1 where "p1 = p\<lparr>dp_block_instrs := dp_block_instrs p @ l,
        dp_blocks := dp_blocks p @ [\<lparr>pb_pc = pi_pc (da_instrs dis ! i),
          pb_instrs = \<lparr>sp_start = as_u32 (length (dp_block_instrs p)),
            sp_len = sub_u32 (as_u32 (length (dp_block_instrs p @ l))) (as_u32 (length (dp_block_instrs p)))\<rparr>, pb_term = t\<rparr>]\<rparr>"
    have add: "add_block dis templates owner leader stamp i p = Some p1"
      using True l(2) Cons.prems(3) by (simp add: add_block_def get_def Let_def p1_def)
    have ext: "extends dis [l] p p1"
      using l(1,3) Cons.prems(4) by (simp add: extends_def p1_def span_of_def get_range_def)
    have "length (dp_block_instrs p1) + length (concat ms) < 2 ^ 32" using Cons.prems(4) l(1) by (simp add: p1_def)
    from Cons.IH[OF l(4,5) _ this] Cons.prems(3) obtain p' where
      "add_blocks dis templates owner leader stamp is p1 = Some p'" "extends dis ms p1 p'" by auto
    then show ?thesis using add extends_trans[OF ext, of ms p'] l(1) by simp
  qed
qed

text \<open>What is done stays done when more blocks are added.\<close>

definition function_done :: "pdisasm \<Rightarrow> ('e + ('u, 'b, 'l) template) list \<Rightarrow> decompiled \<Rightarrow> pfunction \<Rightarrow> bool" where
  "function_done dis templates p f \<longleftrightarrow>
     (\<exists>r0 bs ls. instr_at dis (pf_entry f) = Some r0 \<and> basic_blocks dis templates r0 ls
        \<and> span_of (dp_blocks p) (pf_blocks f) = Some bs
        \<and> list_all2 (\<lambda>b l. span_of (dp_block_instrs p) (pb_instrs b) = Some l \<and> pb_pc b = pi_pc (da_instrs dis ! hd l)) bs ls)"

lemma function_done_extends:
  assumes "function_done dis templates p f" "extends dis ls p p'"
  shows "function_done dis templates p' f"
proof -
  obtain r0 bs ms where f: "instr_at dis (pf_entry f) = Some r0" "basic_blocks dis templates r0 ms"
      "span_of (dp_blocks p) (pf_blocks f) = Some bs"
      "list_all2 (\<lambda>b l. span_of (dp_block_instrs p) (pb_instrs b) = Some l \<and> pb_pc b = pi_pc (da_instrs dis ! hd l)) bs ms"
    using assms(1) unfolding function_done_def by blast
  have "list_all2 (\<lambda>b l. span_of (dp_block_instrs p') (pb_instrs b) = Some l \<and> pb_pc b = pi_pc (da_instrs dis ! hd l)) bs ms"
    using f(4) assms(2) by (auto simp: extends_def span_of_append elim!: list_all2_mono)
  moreover have "span_of (dp_blocks p') (pf_blocks f) = Some bs"
    using f(3) assms(2) by (auto simp: extends_def span_of_append)
  ultimately show ?thesis using f(1,2) unfolding function_done_def by blast
qed

text \<open>The state between two functions: no stamp from \<open>fi\<close> on is in use.\<close>

definition between :: "pdisasm \<Rightarrow> ('e + ('u, 'b, 'l) template) list \<Rightarrow> nat \<Rightarrow> nat list \<Rightarrow> explore \<times> decompiled \<Rightarrow> bool" where
  "between dis templates fi entries s \<longleftrightarrow>
     length (ex_owner (fst s)) = length (da_instrs dis) \<and> length (ex_preds (fst s)) = length (da_instrs dis)
     \<and> length (ex_leader (fst s)) = length (da_instrs dis)
     \<and> (\<forall>x \<in> set (ex_owner (fst s)). x < fi \<or> x = NOT_SEEN)
     \<and> length (dp_block_instrs (snd s)) \<le> fi * length (da_instrs dis)
     \<and> length (dp_blocks (snd s)) \<le> fi * length (da_instrs dis)
     \<and> map pf_entry (dp_functions (snd s)) = filter (\<lambda>e. instr_at dis e \<noteq> None) entries
     \<and> (\<forall>f \<in> set (dp_functions (snd s)). function_done dis templates (snd s) f)"

lemma explored_start:
  assumes "length (ex_owner st) = length (da_instrs dis)" "length (ex_preds st) = length (da_instrs dis)"
    "length (ex_leader st) = length (da_instrs dis)" "stamp \<notin> set (ex_owner st)" "r0 < length (da_instrs dis)"
  shows "explored dis templates stamp r0 (ex_owner st)
    \<lparr>ex_owner = (ex_owner st)[r0 := stamp], ex_preds = (ex_preds st)[r0 := 0],
     ex_leader = (ex_leader st)[r0 := True], ex_work = [r0], ex_members = []\<rparr>"
proof -
  have "owned stamp \<lparr>ex_owner = (ex_owner st)[r0 := stamp], ex_preds = (ex_preds st)[r0 := 0],
     ex_leader = (ex_leader st)[r0 := True], ex_work = [r0], ex_members = []\<rparr> j \<longleftrightarrow> j = r0" for j
    using assms(1,4,5) by (auto simp: owned_def update_nth split: if_splits)
  then show ?thesis
    using assms by (auto simp: explored_def explore_inv_def update_nth in_function_root)
qed

lemma explored_function_ok:
  assumes ok: "dis_ok dis templates" and ex: "explored dis templates stamp r0 owner0 st" "ex_work st = []"
  shows "function_ok dis templates stamp r0 (ex_members st) (ex_owner st)
    ((lead_members (ex_members st) (ex_preds st) (ex_leader st))[r0 := True])"
proof -
  let ?es = "concat (map (steps dis templates) (ex_members st))"
  have inv: "explore_inv (length (da_instrs dis)) stamp r0 owner0 ?es st" using ex(1) by (simp add: explored_def)
  note m = explored_members[OF ok ex]
  have l: "length (ex_owner st) = length (da_instrs dis)" "length (ex_leader st) = length (da_instrs dis)"
    using inv by (simp_all add: explore_inv_def)
  have low: "j < length (da_instrs dis)" if "j \<in> set (ex_members st)" for j
    using m that l(1) by (auto simp: owned_def)
  have "(lead_members (ex_members st) (ex_preds st) (ex_leader st))[r0 := True] ! j =
      (j = r0 \<or> (\<exists>i \<in> set (ex_members st). (j, True) \<in> set (steps dis templates i)) \<or> in_degree dis templates (ex_members st) j \<noteq> 1)"
    if j: "j \<in> set (ex_members st)" for j
  proof -
    have "owned stamp st j" using m j by blast
    then have "ex_preds st ! j = in_degree dis templates (ex_members st) j" "ex_leader st ! j = (j = r0 \<or> (j, True) \<in> set ?es)"
      using inv unfolding explore_inv_def in_degree_def by blast+
    then show ?thesis
      using lead_members_spec[of "ex_members st" "ex_preds st" "ex_leader st"] l(2) low[OF j] j by (auto simp: update_nth)
  qed
  moreover have "\<forall>j < length (ex_owner st). ex_owner st ! j = stamp \<longleftrightarrow> j \<in> set (ex_members st)"
    using m by (auto simp: owned_def)
  ultimately show ?thesis using ok m l(1) low by (simp add: function_ok_def)
qed

lemma sum_hd_length: "[] \<notin> set ls \<Longrightarrow> length ls \<le> length (concat ls)"
proof (induction ls)
  case (Cons a ls)
  then show ?case by (cases a) auto
qed simp

lemma add_function_between:
  assumes ok: "dis_ok dis templates" and b: "between dis templates fi done s"
    and fits: "(fi + 1) * length (da_instrs dis) < 2 ^ 32" and fi: "fi < NOT_SEEN"
  shows "\<exists>s'. add_function dis templates (as_u32 fi) entry s = Some s' \<and> between dis templates (fi + 1) (done @ [entry]) s'"
proof -
  obtain st p where s: "s = (st, p)" by (cases s) auto
  let ?n = "length (da_instrs dis)"
  have stamp: "as_u32 fi = fi" using fi by simp
  have len: "length (ex_owner st) = ?n" "length (ex_preds st) = ?n" "length (ex_leader st) = ?n"
    and own: "\<And>x. x \<in> set (ex_owner st) \<Longrightarrow> x < fi \<or> x = NOT_SEEN"
    and sizes: "length (dp_block_instrs p) \<le> fi * ?n" "length (dp_blocks p) \<le> fi * ?n"
    and fns: "map pf_entry (dp_functions p) = filter (\<lambda>e. instr_at dis e \<noteq> None) done"
      "\<And>f. f \<in> set (dp_functions p) \<Longrightarrow> function_done dis templates p f"
    using b by (auto simp: between_def s)
  show ?thesis
  proof (cases "instr_at dis entry")
    case None
    then show ?thesis using b by (force simp: add_function_def between_def s)
  next
    case (Some r0)
    have r0: "r0 < ?n" by (rule instr_at_bound[OF ok Some])
    have "fi \<notin> set (ex_owner st)" using own fi by force
    from explore_loop_explored[OF ok explored_start[OF len this r0]] obtain st' where
      st': "explore_loop dis templates fi \<lparr>ex_owner = (ex_owner st)[r0 := fi], ex_preds = (ex_preds st)[r0 := 0],
           ex_leader = (ex_leader st)[r0 := True], ex_work = [r0], ex_members = []\<rparr> = Some st'"
        "explored dis templates fi r0 (ex_owner st) st'" "ex_work st' = []" by blast
    define leader where "leader = (lead_members (ex_members st') (ex_preds st') (ex_leader st'))[r0 := True]"
    have fok: "function_ok dis templates fi r0 (ex_members st') (ex_owner st') leader"
      unfolding leader_def by (rule explored_function_ok[OF ok st'(2,3)])
    obtain ls where ls: "list_all2 (\<lambda>i l. \<exists>t. block_loop dis templates (ex_owner st') leader fi i = Some (l, t)) (filter (\<lambda>j. leader ! j) (ex_members st')) ls"
        "map hd ls = filter (\<lambda>j. leader ! j) (ex_members st')"
        "\<And>l. l \<in> set ls \<Longrightarrow> l \<noteq> [] \<and> distinct l \<and> set l \<subseteq> set (ex_members st') \<and> successively (follows dis templates leader) l
          \<and> (\<forall>j. \<not> follows dis templates leader (last l) j)"
      using blocks_exist[OF fok order_refl] by blast
    have bb: "basic_blocks dis templates r0 ls" by (rule basic_blocks_made[OF fok ls(2,3)])
    have low: "list_all (\<lambda>i. i < ?n) (ex_members st')" using fok by (simp add: function_ok_def list_all_iff)
    have "set (concat ls) \<subseteq> {..< ?n}" using ls(3) low by (fastforce simp: list_all_iff)
    then have "card (set (concat ls)) \<le> card {..< ?n}" by (intro card_mono) simp_all
    then have small: "length (concat ls) \<le> ?n" "length ls \<le> ?n"
      using bb distinct_card[of "concat ls"] sum_hd_length[of ls] by (auto simp: basic_blocks_def)
    obtain p' where p': "add_blocks dis templates (ex_owner st') leader fi (ex_members st') p = Some p'" "extends dis ls p p'"
      using add_blocks_made[OF ls(1,2) low, of p] sizes(1) small(1) fits by auto
    obtain bs where bs: "dp_blocks p' = dp_blocks p @ bs" "dp_functions p' = dp_functions p"
        "list_all2 (\<lambda>b l. span_of (dp_block_instrs p') (pb_instrs b) = Some l \<and> pb_pc b = pi_pc (da_instrs dis ! hd l)) bs ls"
        "dp_block_instrs p' = dp_block_instrs p @ concat ls"
      using p'(2) unfolding extends_def by blast
    define f where "f = \<lparr>pf_entry = entry, pf_blocks = \<lparr>sp_start = as_u32 (length (dp_blocks p)),
        sp_len = sub_u32 (as_u32 (length (dp_blocks p'))) (as_u32 (length (dp_blocks p)))\<rparr>\<rparr>"
    define q where "q = p'\<lparr>dp_functions := dp_functions p @ [f]\<rparr>"
    have res: "add_function dis templates (as_u32 fi) entry s = Some (st'\<lparr>ex_leader := leader\<rparr>, q)"
      using Some st'(1) p'(1) bs(2) len(1) r0
      by (simp add: add_function_def s stamp get_def Let_def leader_def[symmetric] f_def q_def)
    have l_bs: "length bs = length ls" using bs(3) by (rule list_all2_lengthD)
    have "span_of (dp_blocks p') (pf_blocks f) = Some bs"
      using sizes(2) small(2) fits l_bs bs(1) by (simp add: f_def span_of_def get_range_def)
    then have "function_done dis templates q f"
      unfolding function_done_def using Some bb bs(3) by (auto simp: q_def f_def)
    moreover have "function_done dis templates q g" if "g \<in> set (dp_functions p)" for g
      using function_done_extends[OF fns(2)[OF that] p'(2)] by (simp add: function_done_def q_def)
    moreover have "\<forall>x \<in> set (ex_owner st'). x < fi + 1 \<or> x = NOT_SEEN"
      using st'(2) own len(1) by (fastforce simp: explored_def explore_inv_def in_set_conv_nth)
    moreover have "length (ex_owner st') = ?n" "length (ex_preds st') = ?n" "length leader = ?n"
      using st'(2) lead_members_spec[of "ex_members st'" "ex_preds st'" "ex_leader st'"]
      by (auto simp: explored_def explore_inv_def leader_def)
    ultimately have "between dis templates (fi + 1) (done @ [entry]) (st'\<lparr>ex_leader := leader\<rparr>, q)"
      using sizes small l_bs bs(1,4) fns(1) Some by (auto simp: between_def q_def f_def)
    then show ?thesis using res by blast
  qed
qed

lemma add_functions_between:
  assumes "dis_ok dis templates" "between dis templates fi finished s"
    and "(fi + length entries) * length (da_instrs dis) < 2 ^ 32" "fi + length entries \<le> NOT_SEEN"
  shows "\<exists>s'. add_functions dis templates fi entries s = Some s' \<and> between dis templates (fi + length entries) (finished @ entries) s'"
  using assms
proof (induction entries arbitrary: fi finished s)
  case (Cons entry entries)
  have "(fi + 1) * length (da_instrs dis) \<le> (fi + length (entry # entries)) * length (da_instrs dis)"
    by (intro mult_le_mono1) simp
  then have room: "(fi + 1) * length (da_instrs dis) < 2 ^ 32" using Cons.prems(3) by (rule le_less_trans)
  have "fi < NOT_SEEN" using Cons.prems(4) by simp
  with room obtain s1 where s1: "add_function dis templates (as_u32 fi) entry s = Some s1"
      "between dis templates (fi + 1) (finished @ [entry]) s1"
    using add_function_between[OF Cons.prems(1,2), of entry] by blast
  have "\<exists>s'. add_functions dis templates (fi + 1) entries s1 = Some s'
      \<and> between dis templates (fi + 1 + length entries) ((finished @ [entry]) @ entries) s'"
    by (rule Cons.IH[OF Cons.prems(1) s1(2)]) (use Cons.prems(3,4) in \<open>simp_all add: add.commute add.left_commute\<close>)
  then show ?case using s1(1) by (auto simp: add.commute add.left_commute)
qed simp

lemma decompile_done:
  assumes "dis_ok dis templates" "length (da_entries dis) * length (da_instrs dis) < 2 ^ 32" "length (da_entries dis) < 2 ^ 32"
  shows "\<exists>p. decompile dis templates = Some p
    \<and> map pf_entry (dp_functions p) = filter (\<lambda>e. instr_at dis e \<noteq> None) (da_entries dis)
    \<and> (\<forall>f \<in> set (dp_functions p). function_done dis templates p f)"
proof -
  let ?s = "(\<lparr>ex_owner = replicate (length (da_instrs dis)) NOT_SEEN, ex_preds = replicate (length (da_instrs dis)) 0,
      ex_leader = replicate (length (da_instrs dis)) False, ex_work = [], ex_members = []\<rparr>,
      \<lparr>dp_block_instrs = [], dp_blocks = [], dp_functions = []\<rparr>)"
  have "between dis templates 0 [] ?s" by (simp add: between_def)
  from add_functions_between[OF assms(1) this, of "da_entries dis"] assms(2,3)
  obtain s' where "add_functions dis templates 0 (da_entries dis) ?s = Some s'" "between dis templates (length (da_entries dis)) (da_entries dis) s'"
    by auto
  then show ?thesis by (cases s') (simp add: decompile_def between_def Let_def)
qed

subsection \<open>What the disassembler delivers\<close>

lemma backed_le:
  assumes "backed view r"
  shows "length (da_instrs r) \<le> code_len view"
proof -
  have "card ((\<lambda>n. pi_pc (da_instrs r ! n)) ` {..< length (da_instrs r)}) = length (da_instrs r)"
    using backed_inj[OF assms] by (simp add: card_image)
  moreover have "(\<lambda>n. pi_pc (da_instrs r ! n)) ` {..< length (da_instrs r)} \<subseteq> {..< code_len view}"
    using assms by (auto simp: backed_def)
  then have "card ((\<lambda>n. pi_pc (da_instrs r ! n)) ` {..< length (da_instrs r)}) \<le> card {..< code_len view}"
    by (intro card_mono) auto
  ultimately show ?thesis by simp
qed

lemma disassembled_ok:
  assumes "view_ok k view" "\<forall>pc. marked r pc \<longrightarrow> mark_ok view r pc" "backed view r" "length (da_index r) = code_len view"
  shows "dis_ok r (vw_templates view)"
proof -
  have small: "length (da_instrs r) < BAD_INSTR" using backed_le[OF assms(3)] assms(1) by (simp add: view_ok_def)
  have "edges_of r (vw_templates view) (da_instrs r ! n) \<noteq> None" if n: "n < length (da_instrs r)" for n
  proof -
    let ?pc = "pi_pc (da_instrs r ! n)"
    have pc: "?pc < code_len view" "da_index r ! ?pc = n + 1" using assms(3) n by (auto simp: backed_def)
    then have "mark_ok view r ?pc" using assms(2,4) by (simp add: marked_def)
    then obtain ops where "span_of (da_operands r) (pi_ops (da_instrs r ! n)) = Some ops"
      using pc n small by (auto simp: mark_ok_def recorded_def split: option.splits)
    then show ?thesis by (auto simp: edges_of_def Let_def split: option.splits sum.splits)
  qed
  moreover have "i = NO_INSTR \<or> i = BAD_INSTR \<or> i \<le> length (da_instrs r)" if "i \<in> set (da_index r)" for i
  proof (cases "i = NO_INSTR")
    case False
    from that obtain pc where "pc < length (da_index r)" "da_index r ! pc = i" by (metis in_set_conv_nth)
    then have "mark_ok view r pc" using False assms(2) by (auto simp: marked_def)
    then show ?thesis using \<open>da_index r ! pc = i\<close> by (auto simp: mark_ok_def split: option.splits)
  qed simp
  ultimately show ?thesis by (simp add: dis_ok_def list_all_length)
qed

text \<open>The blocks of a finished function, read back from the program.\<close>

lemma function_done_blocks:
  assumes "function_done dis templates p f"
  shows "\<exists>r0. instr_at dis (pf_entry f) = Some r0
    \<and> basic_blocks dis templates r0 (map (block_members p) (function_blocks p f))
    \<and> (\<forall>b \<in> set (function_blocks p f). pb_pc b = pi_pc (da_instrs dis ! hd (block_members p b)))"
proof -
  obtain r0 bs ls where f: "instr_at dis (pf_entry f) = Some r0" "basic_blocks dis templates r0 ls"
      "span_of (dp_blocks p) (pf_blocks f) = Some bs"
      "list_all2 (\<lambda>b l. span_of (dp_block_instrs p) (pb_instrs b) = Some l \<and> pb_pc b = pi_pc (da_instrs dis ! hd l)) bs ls"
    using assms unfolding function_done_def by blast
  have "map (block_members p) bs = ls \<and> (\<forall>b \<in> set bs. pb_pc b = pi_pc (da_instrs dis ! hd (block_members p b)))"
    using f(4) by (induction rule: list_all2_induct) (simp_all add: block_members_def)
  moreover have "function_blocks p f = bs" using f(3) by (simp add: function_blocks_def)
  ultimately show ?thesis using f(1,2) by auto
qed

text \<open>C33: Decompiling what was disassembled always returns: no block loop runs forever and no index
  is out of range. It makes one function for every entry that was decoded, and splits it into
  basic blocks: every instruction that control reaches from the entry is in exactly one block;
  inside a block each instruction falls through to the next; control gets anywhere else only at
  the first instruction of a block, which is where the block says it is.\<close>

theorem decompile_splits:
  assumes "view_ok k view" "disassemble_payload view entry = Some dis"
    and "length (da_entries dis) * length (da_instrs dis) < 2 ^ 32" "length (da_entries dis) < 2 ^ 32"
  shows "\<exists>p. decompile dis (vw_templates view) = Some p
    \<and> map pf_entry (dp_functions p) = filter (\<lambda>e. instr_at dis e \<noteq> None) (da_entries dis)
    \<and> (\<forall>f \<in> set (dp_functions p). \<exists>r0. instr_at dis (pf_entry f) = Some r0
        \<and> basic_blocks dis (vw_templates view) r0 (map (block_members p) (function_blocks p f))
        \<and> (\<forall>b \<in> set (function_blocks p f). pb_pc b = pi_pc (da_instrs dis ! hd (block_members p b))))"
proof -
  have "dis_ok dis (vw_templates view)"
    using payload_disassemble_spec[OF assms(1), of entry] assms(2) disassembled_ok[OF assms(1), of dis] by auto
  from decompile_done[OF this assms(3,4)] show ?thesis using function_done_blocks by blast
qed

definition sample_dis :: pdisasm where
  "sample_dis = \<lparr>da_instrs = [\<lparr>pi_pc = 0, pi_handler = 0, pi_ops = \<lparr>sp_start = 0, sp_len = 2\<rparr>, pi_next = 3, pi_target = None\<rparr>],
     da_operands = [PO_Int 3, PO_True], da_index = [1, 0, 0], da_entries = [0]\<rparr>"

lemma sample_disassembled: "disassemble_payload sample_view 0 = Some sample_dis"
proof -
  let ?sh = "shapes_new (vw_templates sample_view)" and ?ft = "fast_new (vw_decoder sample_view)"
  let ?st = "\<lparr>da_instrs = [], da_operands = [], da_index = [0, 0, 0], da_entries = [0], dl_work = []\<rparr> :: dis_state"
  let ?st1 = "\<lparr>da_instrs = da_instrs sample_dis, da_operands = da_operands sample_dis, da_index = [1, 0, 0], da_entries = [0],
      dl_work = [3, 3]\<rparr> :: dis_state"
  have code: "code_len sample_view = 3" by (simp add: sample_view_def sample_decoder_def)
  have "handler_at sample_view 0 = Some (Some 0)"
    by (simp add: handler_at_def sample_view_def sample_decoder_def generation_at_def get_def)
  then have "ref_template sample_view 0 = Some (0, sample_template)"
    using code by (simp add: ref_template_def) (simp add: sample_view_def get_def)
  then have r: "ref_decode sample_view 0 = Some (0, sample_template, [PO_Int 3, PO_True], 3, None)"
    by (simp add: ref_decode_def sample_view_def sample_decode)
  have n: "next_pcs sample_view 0 = [3, 3]" "closure_entries sample_view 0 = []"
    by (simp_all add: next_pcs_def closure_entries_def r link_targets_def sample_template_def get_def int_target_def)
  have "dis_step sample_view ?sh ?ft 0 ?st = Some ?st1"
    using dis_step_turn[OF sample_view_ok, of 0 ?st] code
    by (simp add: r n found_state_def get_def sample_dis_def)
  moreover have "dis_step sample_view ?sh ?ft 3 st = Some st" for st using code by (simp add: dis_step_def)
  ultimately have "dis_loop sample_view ?sh ?ft (?st\<lparr>dl_work := [0]\<rparr>) = Some (?st1\<lparr>dl_work := []\<rparr>)"
    by (simp add: dis_loop.simps)
  moreover have "replicate (code_len sample_view) 0 = [0, 0, 0 :: nat]" by (simp add: code numeral_eq_Suc)
  ultimately show ?thesis by (simp add: disassemble_payload_def sample_dis_def)
qed

lemma decompile_splits_witness:
  "\<exists>p. decompile sample_dis [Inr sample_template :: nat + (unit, unit, unit) template] = Some p \<and> map pf_entry (dp_functions p) = [0]"
proof -
  have "vw_templates sample_view = [Inr sample_template]" by (simp add: sample_view_def)
  then show ?thesis
    using decompile_splits[OF sample_view_ok sample_disassembled]
    by (auto simp: sample_dis_def instr_at_def get_def)
qed

end
