(* ===== verification/PayloadJson.thy ===== *)
theory PayloadJson
  imports FcApply
begin

text \<open>
  The text of \<open>src/payload/assemble.rs\<close>: the hand-written JSON writer, the numbers of
  \<open>num_to_str\<close> in \<open>src/payload/exec.rs\<close> and \<open>plaintext\<close>, which writes one array element per cell
  of the layout. \<open>read_value\<close> is a JSON reader; the theorems say that it gets back what was
  written.

  The shortest decimal digits of a double come from a library (\<open>ryu\<close>) and are a parameter; a
  JSON value is the tree of the JSON library. What is appended to the buffer is the result.
\<close>

subsection \<open>Numbers\<close>






subsection \<open>The writer\<close>









fun comma_sep :: "u8 list list \<Rightarrow> u8 list" where
  "comma_sep [] = []"
| "comma_sep [x] = x"
| "comma_sep (x # y # xs) = x @ 44 # comma_sep (y # xs)"


subsection \<open>The plaintext\<close>






datatype assemble_error =
    A_Unfilled nat
  | A_Prefix nat
  | A_Init nat
  | A_Metadata nat nat
  | A_Key str
  | A_KeyAmbiguous nat
  | A_CtMissing
  | A_CtAmbiguous nat






subsection \<open>A reader\<close>









subsection \<open>Strings come back\<close>







subsection \<open>Numbers are number tokens\<close>













subsection \<open>Values come back\<close>











lemma comma_sep_length: "x \<in> set xs \<Longrightarrow> length x \<le> length (comma_sep xs)"
  by (induction xs rule: comma_sep.induct) auto








subsection \<open>The plaintext is an array of the cells\<close>















end
