(* ===== verification/PayloadCrypt.thy ===== *)
theory PayloadCrypt
  imports Prelude
begin

text \<open>
  The encryption of \<open>src/payload/assemble.rs\<close>: a variant of XTEA whose right shift is signed,
  chained over the blocks of the text. The blocks are taken out of a queue of five in an order
  that the previous block of the output decides. \<open>decrypt\<close> is the receiver: it follows the same
  queue with the numbers of the blocks. The last theorem says that it gets the text back.
\<close>

subsection \<open>Words and bytes\<close>

definition be_bytes :: "u32 \<Rightarrow> u8 list" where
  "be_bytes w = [ucast (drop_bit 24 w), ucast (drop_bit 16 w), ucast (drop_bit 8 w), ucast w]"

definition be_word :: "u8 list \<Rightarrow> u32" where
  "be_word bs = foldl (\<lambda>w b. push_bit 8 w OR ucast b) 0 bs"

lemma be_word_bytes [simp]: "be_word (be_bytes w) = w"
proof (rule bit_word_eqI)
  fix n
  assume "n < LENGTH(32)"
  then consider "n < 8" | "8 \<le> n" "n < 16" | "16 \<le> n" "n < 24" | "24 \<le> n" "n < 32" by fastforce
  then show "bit (be_word (be_bytes w)) n = bit w n"
    by cases (auto simp: be_word_def be_bytes_def bit_or_iff bit_push_bit_iff bit_ucast_iff bit_drop_bit_eq)
qed

lemma be_bytes_word:
  assumes "length bs = 4"
  shows "be_bytes (be_word bs) = bs"
proof -
  obtain a b c d where bs: "bs = [a, b, c, d]"
    using assms by (auto simp: numeral_eq_Suc length_Suc_conv)
  have high: "\<not> bit (x :: u8) (8 + n)" "\<not> bit x (16 + n)" "\<not> bit x (24 + n)" for x n
    by (auto dest: bit_imp_le_length)
  show ?thesis unfolding bs be_word_def be_bytes_def
    by (auto intro!: bit_word_eqI simp: bit_or_iff bit_push_bit_iff bit_ucast_iff bit_drop_bit_eq high)
qed

lemma be_bytes_length [simp]: "length (be_bytes w) = 4"
  by (simp add: be_bytes_def)

subsection \<open>The cipher\<close>

record keys =
  key_words :: "u32 list"
  key_token :: "u8 list"

definition FRAME :: "u8 list" where "FRAME = [0, 2]"

abbreviation (input) BLOCK :: nat where "BLOCK \<equiv> 8"
abbreviation (input) ROUNDS :: nat where "ROUNDS \<equiv> 32"
abbreviation (input) DELTA :: u32 where "DELTA \<equiv> 0x9E3779B9"
abbreviation (input) QUEUE_CAP :: nat where "QUEUE_CAP \<equiv> 5"
abbreviation (input) TOKEN_LEN :: nat where "TOKEN_LEN \<equiv> 8"

text \<open>What one half adds to the other; \<open>k\<close> has four words.\<close>

definition mix :: "u32 \<Rightarrow> u32 \<Rightarrow> u32 \<Rightarrow> u32" where
  "mix v sm k = ((push_bit 4 v XOR signed_drop_bit 5 v) + v) XOR (sm + k)"

fun xtea_rounds :: "nat \<Rightarrow> u32 list \<Rightarrow> u32 \<Rightarrow> u32 \<times> u32 \<Rightarrow> u32 \<times> u32" where
  "xtea_rounds 0 k sm v = v"
| "xtea_rounds (Suc n) k sm (v0, v1) =
     (let v0 = v0 + mix v1 sm (k ! unat (sm AND 3));
          sm = sm + DELTA;
          v1 = v1 + mix v0 sm (k ! unat (drop_bit 11 sm AND 3))
      in xtea_rounds n k sm (v0, v1))"

definition xtea :: "u32 list \<Rightarrow> u32 \<times> u32 \<Rightarrow> u32 \<times> u32" where
  "xtea k v = xtea_rounds ROUNDS k 0 v"

subsection \<open>Encryption\<close>

text \<open>A block past the end of the text is filled with zeros.\<close>

definition read_block :: "u8 list \<Rightarrow> nat \<Rightarrow> u32 \<times> u32" where
  "read_block b blk =
     (let start = blk * BLOCK;
          word = (\<lambda>pos. be_word (map (\<lambda>i. case get b (start + pos + i) of Some x \<Rightarrow> x | None \<Rightarrow> 0) [0..<4]))
      in (word 0, word 4))"

definition block_bytes :: "u32 \<times> u32 \<Rightarrow> u8 list" where
  "block_bytes s = be_bytes (fst s) @ be_bytes (snd s)"

definition xor_block :: "u32 \<times> u32 \<Rightarrow> u32 \<times> u32 \<Rightarrow> u32 \<times> u32" where
  "xor_block a b = (fst a XOR fst b, snd a XOR snd b)"

function fill_queue :: "u8 list \<Rightarrow> nat \<Rightarrow> nat \<Rightarrow> (u32 \<times> u32) list \<Rightarrow> (u32 \<times> u32) list \<times> nat" where
  "fill_queue plain g x queue =
     (if length queue < QUEUE_CAP \<and> x < g
      then fill_queue plain g (x + 1) (queue @ [read_block plain x])
      else (queue, x))"
  by pat_completeness auto
termination by (relation "measure (\<lambda>(_, g, x, _). g - x)") auto

definition next_index :: "int \<Rightarrow> u32 \<times> u32 \<Rightarrow> nat \<Rightarrow> int" where
  "next_index ix s len = (ix + sint (fst s)) mod int len"

definition remove_at :: "'a list \<Rightarrow> nat \<Rightarrow> 'a list" where
  "remove_at xs i = take i xs @ drop (i + 1) xs"

lemma next_index_range: "0 < len \<Longrightarrow> 0 \<le> next_index ix s len \<and> nat (next_index ix s len) < len"
  by (simp add: next_index_def nat_less_iff)

lemma remove_at_length: "i < length xs \<Longrightarrow> length (remove_at xs i) = length xs - 1"
  by (simp add: remove_at_def)

text \<open>The list is the part of the array that is in use.\<close>

function encrypt_loop ::
  "u32 list \<Rightarrow> u8 list \<Rightarrow> nat \<Rightarrow> nat \<Rightarrow> int \<Rightarrow> (u32 \<times> u32) list \<Rightarrow> u32 \<times> u32 \<Rightarrow> u8 list \<Rightarrow> u8 list"
where
  "encrypt_loop k plain g x ix queue s out =
     (if queue = [] then out
      else let ix = next_index ix s (length queue);
               pick = nat ix;
               s = xtea k (xor_block (queue ! pick) s);
               out = out @ block_bytes s
           in if x < g then encrypt_loop k plain g (x + 1) ix (queue[pick := read_block plain x]) s out
              else encrypt_loop k plain g x ix (remove_at queue pick) s out)"
  by pat_completeness auto

termination
proof (relation "measure (\<lambda>(_, _, g, x, _, queue, _). length queue + (g - x))")
qed (auto simp: remove_at_length next_index_range)

declare encrypt_loop.simps [simp del] fill_queue.simps [simp del]

definition encrypt :: "u8 list \<Rightarrow> keys \<Rightarrow> u8 list \<Rightarrow> u8 list" where
  "encrypt plain keys iv =
     (let g = (length plain + BLOCK - 1) div BLOCK;
          k = key_words keys;
          s = xtea k (be_word (take 4 iv), be_word (drop 4 iv));
          out = FRAME @ key_token keys @ block_bytes s;
          (queue, x) = fill_queue plain g 0 [(0, word_of_nat (length plain))]
      in encrypt_loop k plain g x 0 queue s out)"

subsection \<open>The receiver\<close>

fun xtea_unrounds :: "nat \<Rightarrow> u32 list \<Rightarrow> u32 \<Rightarrow> u32 \<times> u32 \<Rightarrow> u32 \<times> u32" where
  "xtea_unrounds 0 k sm v = v"
| "xtea_unrounds (Suc n) k sm v =
     (let (v0, v1) = xtea_unrounds n k (sm + DELTA) v;
          v1 = v1 - mix v0 (sm + DELTA) (k ! unat (drop_bit 11 (sm + DELTA) AND 3));
          v0 = v0 - mix v1 sm (k ! unat (sm AND 3))
      in (v0, v1))"

lemma xtea_unrounds: "xtea_unrounds n k sm (xtea_rounds n k sm v) = v"
  by (induction n k sm v rule: xtea_rounds.induct) (simp_all add: Let_def)

definition xtea_inv :: "u32 list \<Rightarrow> u32 \<times> u32 \<Rightarrow> u32 \<times> u32" where
  "xtea_inv k v = xtea_unrounds ROUNDS k 0 v"

lemma xtea_inv [simp]: "xtea_inv k (xtea k v) = v"
  unfolding xtea_inv_def xtea_def by (rule xtea_unrounds)

lemma xor_block_twice [simp]: "xor_block (xor_block a b) b = a"
  by (cases a; cases b) (simp add: xor_block_def xor.assoc)

text \<open>The receiver holds the numbers of the blocks: 0 for the length, \<open>i + 1\<close> for block \<open>i\<close> of the text.\<close>

fun decrypt_loop ::
  "u32 list \<Rightarrow> nat \<Rightarrow> nat \<Rightarrow> int \<Rightarrow> nat list \<Rightarrow> u32 \<times> u32 \<Rightarrow> (u32 \<times> u32) list \<Rightarrow> (nat \<times> u32 \<times> u32) list"
where
  "decrypt_loop k g x ix queue s [] = []"
| "decrypt_loop k g x ix queue s (c # cs) =
     (let ix = next_index ix s (length queue); pick = nat ix in
      (queue ! pick, xor_block (xtea_inv k c) s) #
      (if x < g then decrypt_loop k g (x + 1) ix (queue[pick := x + 1]) c cs
       else decrypt_loop k g x ix (remove_at queue pick) c cs))"

definition decrypt :: "u32 list \<Rightarrow> u8 list \<Rightarrow> u8 list" where
  "decrypt k text =
     (let body = drop (length FRAME + TOKEN_LEN) text;
          cs = map (read_block body) [0 ..< length body div BLOCK];
          g = length cs - 2;
          x = min g (QUEUE_CAP - 1);
          d = decrypt_loop k g x 0 [0 ..< x + 1] (hd cs) (tl cs);
          block = (\<lambda>p. case map_of d p of Some b \<Rightarrow> b | None \<Rightarrow> (0, 0))
      in take (unat (snd (block 0))) (concat (map (\<lambda>i. block_bytes (block (i + 1))) [0 ..< g])))"

subsection \<open>The receiver follows\<close>

definition numbered :: "u8 list \<Rightarrow> nat \<Rightarrow> u32 \<times> u32" where
  "numbered plain p = (if p = 0 then (0, word_of_nat (length plain)) else read_block plain (p - 1))"

lemma set_update_insert: "i < length xs \<Longrightarrow> insert (xs ! i) (set (xs[i := y])) = insert y (set xs)"
  by (induction xs arbitrary: i) (auto split: nat.splits simp: nth_Cons)

lemma set_remove_at: "i < length xs \<Longrightarrow> insert (xs ! i) (set (remove_at xs i)) = set xs"
  using id_take_nth_drop[of i xs] by (metis Un_insert_right append_Cons insert_is_Un list.set(2) remove_at_def set_append Suc_eq_plus1)

lemma map_remove_at: "map f (remove_at xs i) = remove_at (map f xs) i"
  by (simp add: remove_at_def take_map drop_map)

lemma encrypt_loop_decrypts:
  assumes "queue = map (numbered plain) ps" "x < g \<longrightarrow> ps \<noteq> []"
  shows "\<exists>cs. encrypt_loop k plain g x ix queue s out = out @ concat (map block_bytes cs)
    \<and> length cs = length ps + (g - x)
    \<and> (\<forall>(p, b) \<in> set (decrypt_loop k g x ix ps s cs). b = numbered plain p)
    \<and> fst ` set (decrypt_loop k g x ix ps s cs) = set ps \<union> {x + 1 .. g}"
  using assms
proof (induction k plain g x ix queue s out arbitrary: ps rule: encrypt_loop.induct)
  case (1 k plain g x ix queue s out)
  show ?case
  proof (cases "queue = []")
    case True
    then show ?thesis using 1(3,4) by (intro exI[of _ "[]"]) (simp add: encrypt_loop.simps[of _ _ _ _ _ "[]"])
  next
    case False
    define ix' where "ix' = next_index ix s (length queue)"
    define pick where "pick = nat ix'"
    define c where "c = xtea k (xor_block (queue ! pick) s)"
    have len: "length ps = length queue" using 1(3) by simp
    have pick: "pick < length queue" using False next_index_range[of "length queue" ix s] by (simp add: pick_def ix'_def)
    have b: "xor_block (xtea_inv k c) s = numbered plain (ps ! pick)"
      unfolding c_def xtea_inv xor_block_twice unfolding 1(3) using pick len by (intro nth_map) simp
    show ?thesis
    proof (cases "x < g")
      case True
      have q: "queue[pick := read_block plain x] = map (numbered plain) (ps[pick := x + 1])"
        unfolding 1(3) map_update by (simp add: numbered_def[of plain "Suc x"])
      have ne: "x + 1 < g \<longrightarrow> ps[pick := x + 1] \<noteq> []" using False len by auto
      obtain cs where cs: "encrypt_loop k plain g (x + 1) ix' (queue[pick := read_block plain x]) c (out @ block_bytes c)
            = (out @ block_bytes c) @ concat (map block_bytes cs)"
          "length cs = length (ps[pick := x + 1]) + (g - (x + 1))"
          "\<forall>(p, b) \<in> set (decrypt_loop k g (x + 1) ix' (ps[pick := x + 1]) c cs). b = numbered plain p"
          "fst ` set (decrypt_loop k g (x + 1) ix' (ps[pick := x + 1]) c cs) = set (ps[pick := x + 1]) \<union> {x + 1 + 1 .. g}"
        using 1(1)[OF False ix'_def pick_def c_def refl True q ne] by blast
      have "encrypt_loop k plain g x ix queue s out = out @ concat (map block_bytes (c # cs))"
        using False True cs(1) by (simp add: encrypt_loop.simps[of _ _ _ _ _ queue] ix'_def[symmetric] pick_def[symmetric] c_def[symmetric])
      moreover have "length (c # cs) = length ps + (g - x)" using cs(2) True by simp
      moreover have d: "decrypt_loop k g x ix ps s (c # cs)
          = (ps ! pick, numbered plain (ps ! pick)) # decrypt_loop k g (x + 1) ix' (ps[pick := x + 1]) c cs"
        using True b len by (simp add: ix'_def[symmetric] pick_def[symmetric])
      moreover have "insert (ps ! pick) (set (ps[pick := x + 1]) \<union> {x + 1 + 1 .. g}) = set ps \<union> {x + 1 .. g}"
      proof -
        have "insert (ps ! pick) (set (ps[pick := x + 1]) \<union> A) = set ps \<union> insert (x + 1) A" for A
          using set_update_insert[of pick ps "x + 1"] pick len by (metis Un_insert_left Un_insert_right)
        moreover have "insert (x + 1) {x + 1 + 1 .. g} = {x + 1 .. g}" using True by auto
        ultimately show ?thesis by metis
      qed
      ultimately show ?thesis using cs(3,4) by (intro exI[of _ "c # cs"]) (simp del: decrypt_loop.simps)
    next
      case False': False
      have q: "remove_at queue pick = map (numbered plain) (remove_at ps pick)" using 1(3) by (simp add: map_remove_at)
      obtain cs where cs: "encrypt_loop k plain g x ix' (remove_at queue pick) c (out @ block_bytes c)
            = (out @ block_bytes c) @ concat (map block_bytes cs)"
          "length cs = length (remove_at ps pick) + (g - x)"
          "\<forall>(p, b) \<in> set (decrypt_loop k g x ix' (remove_at ps pick) c cs). b = numbered plain p"
          "fst ` set (decrypt_loop k g x ix' (remove_at ps pick) c cs) = set (remove_at ps pick) \<union> {x + 1 .. g}"
        using 1(2)[OF False ix'_def pick_def c_def refl False' q] False' by metis
      have "encrypt_loop k plain g x ix queue s out = out @ concat (map block_bytes (c # cs))"
        using False False' cs(1) by (simp add: encrypt_loop.simps[of _ _ _ _ _ queue] ix'_def[symmetric] pick_def[symmetric] c_def[symmetric])
      moreover have "length (c # cs) = length ps + (g - x)" using cs(2) pick len by (simp add: remove_at_length)
      moreover have d: "decrypt_loop k g x ix ps s (c # cs)
          = (ps ! pick, numbered plain (ps ! pick)) # decrypt_loop k g x ix' (remove_at ps pick) c cs"
        using False' b len by (simp add: ix'_def[symmetric] pick_def[symmetric])
      moreover have "insert (ps ! pick) (set (remove_at ps pick) \<union> {x + 1 .. g}) = set ps \<union> {x + 1 .. g}"
        using set_remove_at[of pick ps] pick len by auto
      ultimately show ?thesis using cs(3,4) by (intro exI[of _ "c # cs"]) (simp del: decrypt_loop.simps)
    qed
  qed
qed

subsection \<open>Blocks of bytes\<close>

lemma block_bytes_length [simp]: "length (block_bytes s) = BLOCK"
  by (simp add: block_bytes_def)

lemma read_block_first: "read_block (block_bytes s @ r) 0 = s"
proof -
  have "map (\<lambda>i. case get (block_bytes s @ r) i of Some x \<Rightarrow> x | None \<Rightarrow> 0) [0..<4] = be_bytes (fst s)"
    "map (\<lambda>i. case get (block_bytes s @ r) (4 + i) of Some x \<Rightarrow> x | None \<Rightarrow> 0) [0..<4] = be_bytes (snd s)"
    by (simp_all add: block_bytes_def be_bytes_def get_def upt_rec nth_append)
  then show ?thesis by (simp add: read_block_def)
qed

lemma read_block_next: "read_block (block_bytes s @ r) (Suc i) = read_block r i"
proof -
  have "get (block_bytes s @ r) (Suc i * BLOCK + pos + j) = get r (i * BLOCK + pos + j)" for pos j
    by (simp add: get_def nth_append add.assoc)
  from this[of 0] this[of 4] show ?thesis by (simp add: read_block_def Let_def del: mult_Suc)
qed

lemma read_block_concat: "i < length cs \<Longrightarrow> read_block (concat (map block_bytes cs)) i = cs ! i"
  by (induction cs arbitrary: i) (auto simp: read_block_first read_block_next nth_Cons split: nat.splits)

definition padded :: "u8 list \<Rightarrow> nat \<Rightarrow> u8" where
  "padded b i = (case get b i of Some x \<Rightarrow> x | None \<Rightarrow> 0)"

lemma block_bytes_read: "block_bytes (read_block b i) = map (padded b) [i * BLOCK ..< Suc i * BLOCK]"
proof -
  have "[i * 8 ..< Suc i * 8] = map (\<lambda>j. i * 8 + j) [0..<4] @ map (\<lambda>j. i * 8 + 4 + j) [0..<4]"
    by (simp add: upt_rec)
  then show ?thesis
    by (simp add: read_block_def block_bytes_def be_bytes_word padded_def[abs_def] Let_def comp_def del: mult_Suc)
qed

lemma plain_blocks: "concat (map (\<lambda>i. block_bytes (read_block b i)) [0..<g]) = map (padded b) [0..<g * BLOCK]"
proof (induction g)
  case (Suc g)
  have "[0..<Suc g * BLOCK] = [0..<g * BLOCK] @ [g * BLOCK ..< Suc g * BLOCK]"
    using upt_add_eq_append[of 0 "g * BLOCK" BLOCK] by (simp add: add.commute)
  then show ?case using Suc by (simp only: upt_Suc_append map_append concat_append block_bytes_read list.map concat.simps append_Nil2 le0)
qed simp

lemma take_padded: "length b \<le> n \<Longrightarrow> take (length b) (map (padded b) [0..<n]) = b"
  by (rule nth_equalityI) (simp_all add: padded_def get_def)

subsection \<open>The text comes back\<close>

lemma fill_queue_spec:
  assumes "x \<le> g" "x \<le> QUEUE_CAP - 1" "queue = map (numbered plain) [0 ..< x + 1]"
  shows "fill_queue plain g x queue = (map (numbered plain) [0 ..< min g (QUEUE_CAP - 1) + 1], min g (QUEUE_CAP - 1))"
  using assms
proof (induction plain g x queue rule: fill_queue.induct)
  case (1 plain g x queue)
  show ?case
  proof (cases "length queue < QUEUE_CAP \<and> x < g")
    case True
    have q: "queue @ [read_block plain x] = map (numbered plain) [0 ..< (x + 1) + 1]"
      using 1(4) by (simp add: numbered_def[of plain "Suc x"])
    have "fill_queue plain g x queue = fill_queue plain g (x + 1) (queue @ [read_block plain x])"
      using True by (subst fill_queue.simps) simp
    also have "\<dots> = (map (numbered plain) [0 ..< min g (QUEUE_CAP - 1) + 1], min g (QUEUE_CAP - 1))"
      by (rule 1(1)[OF True _ _ q]) (use True 1(4) in simp_all)
    finally show ?thesis .
  next
    case False
    then have "x = min g (QUEUE_CAP - 1)" using 1(2-4) by auto
    moreover have "fill_queue plain g x queue = (queue, x)" by (subst fill_queue.simps) (use False in auto)
    ultimately show ?thesis using 1(4) by simp
  qed
qed

lemma map_of_numbered:
  assumes "\<forall>(p, b) \<in> set d. b = f p" "p \<in> fst ` set d"
  shows "map_of d p = Some (f p)"
proof -
  obtain b where "map_of d p = Some b" using assms(2) by (metis map_of_eq_None_iff not_None_eq)
  then show ?thesis using assms(1) map_of_SomeD by fastforce
qed

definition keys_ok :: "keys \<Rightarrow> bool" where
  "keys_ok keys \<longleftrightarrow> length (key_words keys) = 4 \<and> length (key_token keys) = TOKEN_LEN"

lemma encrypt_layout:
  fixes plain :: "u8 list"
  defines "g \<equiv> (length plain + BLOCK - 1) div BLOCK"
  shows "\<exists>c cs. encrypt plain keys iv = FRAME @ key_token keys @ concat (map block_bytes (c # cs)) \<and> length cs = g + 1
    \<and> (\<forall>(p, b) \<in> set (decrypt_loop (key_words keys) g (min g 4) 0 [0 ..< min g 4 + 1] c cs). b = numbered plain p)
    \<and> fst ` set (decrypt_loop (key_words keys) g (min g 4) 0 [0 ..< min g 4 + 1] c cs) = {0 .. g}"
proof -
  let ?x = "min g 4" and ?k = "key_words keys"
  define c where "c = xtea ?k (be_word (take 4 iv), be_word (drop 4 iv))"
  define out where "out = FRAME @ key_token keys @ block_bytes c"
  have fill: "fill_queue plain g 0 [(0, word_of_nat (length plain))] = (map (numbered plain) [0 ..< ?x + 1], ?x)"
    by (subst fill_queue_spec) (simp_all add: numbered_def)
  have enc: "encrypt plain keys iv = encrypt_loop ?k plain g ?x 0 (map (numbered plain) [0 ..< ?x + 1]) c out"
    by (simp only: encrypt_def Let_def g_def[symmetric] fill prod.case c_def[symmetric] out_def)
  have range: "set [0 ..< ?x + 1] \<union> {?x + 1 .. g} = {0 .. g}" by auto
  obtain cs where cs: "encrypt_loop ?k plain g ?x 0 (map (numbered plain) [0 ..< ?x + 1]) c out = out @ concat (map block_bytes cs)"
    "length cs = length [0 ..< ?x + 1] + (g - ?x)"
    "\<forall>(p, b) \<in> set (decrypt_loop ?k g ?x 0 [0 ..< ?x + 1] c cs). b = numbered plain p"
    "fst ` set (decrypt_loop ?k g ?x 0 [0 ..< ?x + 1] c cs) = {0 .. g}"
    using encrypt_loop_decrypts[OF refl, of ?x g "[0 ..< ?x + 1]" ?k plain 0 c out] unfolding range by fastforce
  then show ?thesis unfolding enc by (intro exI[of _ c] exI[of _ cs]) (simp add: out_def)
qed

text \<open>C34: Whoever has the key gets the text back: the receiver that follows the queue by block
  numbers decrypts what was encrypted, for every text below \<open>2 ^ 32\<close> bytes, key, token and
  initial vector. The encryption is the frame, the token and two blocks more than the text has,
  which is the capacity that the code reserves.\<close>

theorem encrypt_roundtrip:
  assumes "keys_ok keys" "length plain < 2 ^ 32"
  shows "decrypt (key_words keys) (encrypt plain keys iv) = plain
    \<and> length (encrypt plain keys iv) = length FRAME + TOKEN_LEN + ((length plain + BLOCK - 1) div BLOCK + 2) * BLOCK"
proof -
  define g where "g = (length plain + BLOCK - 1) div BLOCK"
  obtain c cs where e: "encrypt plain keys iv = FRAME @ key_token keys @ concat (map block_bytes (c # cs))" "length cs = g + 1"
    "\<forall>(p, b) \<in> set (decrypt_loop (key_words keys) g (min g 4) 0 [0 ..< min g 4 + 1] c cs). b = numbered plain p"
    "fst ` set (decrypt_loop (key_words keys) g (min g 4) 0 [0 ..< min g 4 + 1] c cs) = {0 .. g}"
    using encrypt_layout[of plain keys iv] unfolding g_def by blast
  have body: "drop (length FRAME + TOKEN_LEN) (encrypt plain keys iv) = concat (map block_bytes (c # cs))"
    using assms(1) e(1) by (simp add: keys_ok_def FRAME_def)
  have len: "length (concat (map block_bytes xs)) = length xs * BLOCK" for xs by (induction xs) simp_all
  have "map (read_block (concat (map block_bytes (c # cs)))) [0 ..< length (c # cs)] = c # cs"
    by (rule nth_equalityI) (simp_all add: read_block_concat del: upt_Suc concat.simps list.map)
  then have cs: "map (read_block (concat (map block_bytes (c # cs)))) [0 ..< length (concat (map block_bytes (c # cs))) div BLOCK] = c # cs"
    unfolding len by (simp del: concat.simps list.map upt_Suc)
  define d where "d = decrypt_loop (key_words keys) g (min g 4) 0 [0 ..< min g 4 + 1] c cs"
  have block: "map_of d p = Some (numbered plain p)" if "p \<le> g" for p
    using map_of_numbered[of d "numbered plain" p] e(3,4) that by (simp add: d_def)
  have "concat (map (\<lambda>i. block_bytes (case map_of d (i + 1) of Some b \<Rightarrow> b | None \<Rightarrow> (0, 0))) [0 ..< g])
      = concat (map (\<lambda>i. block_bytes (read_block plain i)) [0 ..< g])"
    by (intro arg_cong[of _ _ concat] map_cong) (simp_all add: block numbered_def)
  also have "\<dots> = map (padded plain) [0 ..< g * BLOCK]" by (rule plain_blocks)
  finally have whole: "concat (map (\<lambda>i. block_bytes (case map_of d (i + 1) of Some b \<Rightarrow> b | None \<Rightarrow> (0, 0))) [0 ..< g])
      = map (padded plain) [0 ..< g * BLOCK]" .
  have counts: "length (c # cs) - 2 = g" "(5 :: nat) - 1 = 4" using e(2) by simp_all
  have "decrypt (key_words keys) (encrypt plain keys iv)
      = take (unat (word_of_nat (length plain) :: u32)) (map (padded plain) [0 ..< g * BLOCK])"
    by (simp only: decrypt_def Let_def body cs counts list.sel d_def[symmetric] block le0 option.case whole)
      (simp add: numbered_def)
  moreover have "length plain \<le> g * BLOCK"
    using div_mult_mod_eq[of "length plain + 7" 8] mod_less_divisor[of 8 "length plain + 7"] by (simp add: g_def)
  ultimately have "decrypt (key_words keys) (encrypt plain keys iv) = plain"
    using assms(2) take_padded[of plain "g * BLOCK"] by (simp add: unat_of_nat take_bit_nat_eq_self)
  moreover have "length (encrypt plain keys iv) = length FRAME + TOKEN_LEN + (g + 2) * BLOCK"
    using assms(1) e(1,2) len[of "c # cs"] by (simp add: keys_ok_def)
  ultimately show ?thesis by (simp add: g_def)
qed

definition sample_keys :: keys where
  "sample_keys = \<lparr>key_words = [1, 2, 3, 4], key_token = [1, 2, 3, 4, 5, 6, 7, 8]\<rparr>"

lemma encrypt_roundtrip_witness:
  "decrypt [1, 2, 3, 4] (encrypt [65, 66, 67] sample_keys (replicate 8 7)) = [65, 66, 67]
    \<and> length (encrypt [65, 66, 67] sample_keys (replicate 8 7)) = 34"
  using encrypt_roundtrip[of sample_keys "[65, 66, 67]" "replicate 8 7"]
  by (simp add: keys_ok_def sample_keys_def FRAME_def)

end
