(* ===== verification/PayloadSort.thy ===== *)
theory PayloadSort
  imports Prelude F64
begin

text \<open>
  \<open>Array.prototype.sort\<close> in \<open>src/payload/exec.rs\<close>: the interpreter must give the order that the
  engine of a browser gives, so it carries the engine's own merge sort with runs, a stack of
  runs and galloping. This theory holds the sort, statement by statement; its lemmas are in
  \<open>PayloadGallop\<close> up to \<open>PayloadTimsort\<close>, its properties in \<open>PayloadArraySort\<close>.

  A comparison runs code of the script. It may change the state of the interpreter and may fail,
  so the sort is written in a monad of such actions; the slice that is sorted is a copy that the
  script cannot reach, hence an argument and a result. A position is a \<open>nat\<close>; where the source
  counts in \<open>isize\<close>, it is an \<open>int\<close>. An index out of range, a slice out of range and a subtraction
  that would wrap are the error \<open>SortPanic\<close>.
\<close>

subsection \<open>Actions\<close>

datatype 'e sort_err = SortPanic | SortErr 'e

type_synonym ('h, 'e, 'a) act = "'h \<Rightarrow> 'e sort_err + 'a \<times> 'h"

definition sret :: "'a \<Rightarrow> ('h, 'e, 'a) act" where
  "sret x = (\<lambda>h. Inr (x, h))"

definition spanic :: "('h, 'e, 'a) act" where
  "spanic = (\<lambda>h. Inl SortPanic)"

definition sbind :: "('h, 'e, 'a) act \<Rightarrow> ('a \<Rightarrow> ('h, 'e, 'b) act) \<Rightarrow> ('h, 'e, 'b) act" where
  "sbind m f = (\<lambda>h. case m h of Inl e \<Rightarrow> Inl e | Inr (x, h') \<Rightarrow> f x h')"

lemma sbind_cong [fundef_cong]:
  assumes "m = m'" "\<And>x h h'. m' h = Inr (x, h') \<Longrightarrow> f x = f' x"
  shows "sbind m f = sbind m' f'"
  using assms by (auto simp: sbind_def fun_eq_iff split: sum.split)

lemma sbind_Inr: "sbind m f h = Inr r \<longleftrightarrow> (\<exists>x h'. m h = Inr (x, h') \<and> f x h' = Inr r)"
  by (auto simp: sbind_def split: sum.split)

lemma sret_Inr [simp]: "sret x h = Inr (y, h') \<longleftrightarrow> y = x \<and> h' = h"
  by (auto simp: sret_def)

lemma spanic_Inr [simp]: "spanic h \<noteq> Inr r"
  by (simp add: spanic_def)

text \<open>What holds of every result that an action returns.\<close>

definition post :: "('h, 'e, 'a) act \<Rightarrow> ('a \<Rightarrow> bool) \<Rightarrow> bool" where
  "post m P \<longleftrightarrow> (\<forall>h x h'. m h = Inr (x, h') \<longrightarrow> P x)"

lemma post_bind: "(\<And>x h h'. m h = Inr (x, h') \<Longrightarrow> post (f x) P) \<Longrightarrow> post (sbind m f) P"
  unfolding post_def sbind_Inr by blast

lemma post_ret: "P x \<Longrightarrow> post (sret x) P"
  by (simp add: post_def)

lemma post_if: "(b \<Longrightarrow> post m P) \<Longrightarrow> (\<not> b \<Longrightarrow> post n P) \<Longrightarrow> post (if b then m else n) P"
  by simp

lemma post_mono: "post m P \<Longrightarrow> (\<And>x. P x \<Longrightarrow> Q x) \<Longrightarrow> post m Q"
  by (auto simp: post_def)

lemma postD: "post m P \<Longrightarrow> m h = Inr (x, h') \<Longrightarrow> P x"
  by (auto simp: post_def)

text \<open>Reading and writing a slice, copying between slices, and subtraction.\<close>

definition get_at :: "'a list \<Rightarrow> nat \<Rightarrow> ('h, 'e, 'a) act" where
  "get_at xs i = (if i < length xs then sret (xs ! i) else spanic)"

definition set_at :: "'a list \<Rightarrow> nat \<Rightarrow> 'a \<Rightarrow> ('h, 'e, 'a list) act" where
  "set_at xs i x = (if i < length xs then sret (xs[i := x]) else spanic)"

definition to_usize :: "int \<Rightarrow> ('h, 'e, nat) act" where
  "to_usize i = (if 0 \<le> i then sret (nat i) else spanic)"

definition minus_usize :: "nat \<Rightarrow> nat \<Rightarrow> ('h, 'e, nat) act" where
  "minus_usize a b = (if b \<le> a then sret (a - b) else spanic)"

definition region :: "'a list \<Rightarrow> nat \<Rightarrow> nat \<Rightarrow> 'a list" where
  "region xs i n = take n (drop i xs)"

definition clone_from :: "'a list \<Rightarrow> nat \<Rightarrow> nat \<Rightarrow> 'a list \<Rightarrow> nat \<Rightarrow> ('h, 'e, 'a list) act" where
  "clone_from w dest n t ct =
     (if dest + n \<le> length w \<and> ct + n \<le> length t
      then sret (take dest w @ region t ct n @ drop (dest + n) w) else spanic)"

lemma to_usize_Inr [simp]: "to_usize i h = Inr (n, h') \<longleftrightarrow> 0 \<le> i \<and> n = nat i \<and> h' = h"
  by (auto simp: to_usize_def)

lemma minus_usize_Inr [simp]: "minus_usize a b h = Inr (n, h') \<longleftrightarrow> b \<le> a \<and> n = a - b \<and> h' = h"
  by (auto simp: minus_usize_def)

text \<open>\<open>move_within\<close> copies element by element, in the direction that is right for an overlap.\<close>

fun move_loop :: "'a list \<Rightarrow> nat \<Rightarrow> nat \<Rightarrow> nat list \<Rightarrow> ('h, 'e, 'a list) act" where
  "move_loop w src dst [] = sret w"
| "move_loop w src dst (i # is) =
     sbind (get_at w (src + i)) (\<lambda>x. sbind (set_at w (dst + i) x) (\<lambda>w. move_loop w src dst is))"

definition move_within :: "'a list \<Rightarrow> nat \<Rightarrow> nat \<Rightarrow> nat \<Rightarrow> ('h, 'e, 'a list) act" where
  "move_within w src dst n = move_loop w src dst (if src < dst then rev [0..<n] else [0..<n])"

subsection \<open>Comparing\<close>

text \<open>
  What the sort calls of the interpreter: the conversion of a value to a string, the call of a
  comparison function with its two arguments, the conversion of its result to a number, the
  tests for \<open>undefined\<close> and for a function, the error for a comparison that is none, and the
  array that is sorted (reading it, replacing it, and a new array). The first three may throw or
  stop the interpreter.
\<close>

record ('h, 'e, 'v) host =
  host_str :: "'v \<Rightarrow> 'h \<Rightarrow> 'e + str \<times> 'h"
  host_call :: "'v \<Rightarrow> 'v list \<Rightarrow> 'h \<Rightarrow> 'e + 'v \<times> 'h"
  host_num :: "'v \<Rightarrow> 'h \<Rightarrow> 'e + f64 \<times> 'h"
  host_undef :: "'v \<Rightarrow> bool"
  host_callable :: "'v \<Rightarrow> bool"
  host_not_callable :: "'h \<Rightarrow> 'e"
  host_arr :: "'h \<Rightarrow> 'v list"
  host_set_arr :: "'v list \<Rightarrow> 'h \<Rightarrow> 'h"
  host_alloc :: "'v list \<Rightarrow> 'h \<Rightarrow> 'v \<times> 'h"

definition host_act :: "('h \<Rightarrow> 'e + 'a \<times> 'h) \<Rightarrow> ('h, 'e, 'a) act" where
  "host_act f = (\<lambda>h. map_err SortErr (f h))"

fun list_cmp :: "'a::linorder list \<Rightarrow> 'a list \<Rightarrow> int" where
  "list_cmp [] [] = 0"
| "list_cmp [] (b # bs) = -1"
| "list_cmp (a # as) [] = 1"
| "list_cmp (a # as) (b # bs) = (if a < b then -1 else if b < a then 1 else list_cmp as bs)"

definition cmp_utf16 :: "str \<Rightarrow> str \<Rightarrow> int" where
  "cmp_utf16 a b =
     (if list_all (\<lambda>c. c < 128) a \<and> list_all (\<lambda>c. c < 128) b
      then list_cmp (as_bytes a) (as_bytes b)
      else list_cmp (encode_utf16 a) (encode_utf16 b))"

definition sort_compare :: "('h, 'e, 'v) host \<Rightarrow> 'v \<Rightarrow> 'v \<Rightarrow> 'v \<Rightarrow> ('h, 'e, f64) act" where
  "sort_compare H cmp x y =
     (if host_undef H cmp then
        sbind (host_act (host_str H x)) (\<lambda>a. sbind (host_act (host_str H y)) (\<lambda>b. sret (f64_of_int (cmp_utf16 a b))))
      else
        sbind (host_act (host_call H cmp [x, y])) (\<lambda>r. sbind (host_act (host_num H r)) (\<lambda>v.
          sret (if v = FNan then f64_of_int 0 else v))))"

text \<open>The two tests that the sort makes of a comparison's result.\<close>

definition less_zero :: "f64 \<Rightarrow> bool" where
  "less_zero r = f64_lt r (f64_of_int 0)"

definition not_less_zero :: "f64 \<Rightarrow> bool" where
  "not_less_zero r = f64_le (f64_of_int 0) r"

subsection \<open>Galloping\<close>

text \<open>The next distance, with the check for an overflow of \<open>isize\<close>.\<close>

definition widen :: "int \<Rightarrow> int \<Rightarrow> int" where
  "widen mx off = (let n = signed_take_bit 63 (2 * off + 1) in if n \<le> 0 then mx else n)"

lemma widen_less:
  assumes "0 < off" "off < 2 ^ 63" "off < mx"
  shows "off < widen mx off"
proof (cases "2 * off + 1 < 2 ^ 63")
  case True
  then have "signed_take_bit 63 (2 * off + 1) = 2 * off + 1"
    using assms by (intro signed_take_bit_int_eq_self) auto
  then show ?thesis using assms by (simp add: widen_def Let_def)
next
  case False
  have "signed_take_bit 63 (2 * off + 1) = take_bit 64 (2 * off + 1 + 2 ^ 63) - 2 ^ 63"
    by (simp add: signed_take_bit_eq_take_bit_shift)
  also have "take_bit 64 (2 * off + 1 + 2 ^ 63) = (2 * off + 1 + 2 ^ 63) mod 2 ^ 64"
    by (simp add: take_bit_eq_mod)
  also have "\<dots> = (2 * off + 1 + 2 ^ 63 - 2 ^ 64) mod 2 ^ 64"
    by (metis minus_mod_self2)
  also have "\<dots> = 2 * off + 1 + 2 ^ 63 - 2 ^ 64"
    using False assms by (intro mod_pos_pos_trivial) auto
  finally have "signed_take_bit 63 (2 * off + 1) \<le> 0" using assms by simp
  then show ?thesis using assms by (simp add: widen_def)
qed

lemma widen_bound: "widen mx off = mx \<or> (0 < widen mx off \<and> widen mx off < 2 ^ 63)"
  using signed_take_bit_int_less_exp[of 63 "2 * off + 1"] by (auto simp: widen_def Let_def)

definition scan_left :: "int \<Rightarrow> int \<Rightarrow> nat" where
  "scan_left mx off =
     (if mx \<le> off then 0 else if 0 < off \<and> off < 2 ^ 63 then nat (mx - off) else nat mx + nat (mx - off) + 1)"

lemma scan_left_widen:
  assumes "off < mx"
  shows "scan_left mx (widen mx off) < scan_left mx off"
proof (cases "widen mx off = mx")
  case True
  then show ?thesis using assms by (simp add: scan_left_def)
next
  case False
  then have w: "0 < widen mx off" "widen mx off < 2 ^ 63" using widen_bound by blast+
  show ?thesis
  proof (cases "0 < off \<and> off < 2 ^ 63")
    case True
    then show ?thesis using w assms widen_less[of off mx] by (auto simp: scan_left_def)
  next
    case False
    then show ?thesis using w assms by (auto simp: scan_left_def)
  qed
qed

text \<open>
  The loop that all four gallops share: widen the distance until the element there ends the
  search. The result is the last distance that did not, and the one that did.
\<close>

function gallop_scan :: "(int \<Rightarrow> ('h, 'e, bool) act) \<Rightarrow> int \<Rightarrow> int \<Rightarrow> int \<Rightarrow> ('h, 'e, int \<times> int) act" where
  "gallop_scan stop mx lo off =
     (if off < mx
      then sbind (stop off) (\<lambda>b.
             if b then sret (lo, off) else gallop_scan stop mx off (widen mx off))
      else sret (lo, off))"
  by pat_completeness auto
termination
  by (relation "measure (\<lambda>(_, mx, _, off). scan_left mx off)") (auto simp: scan_left_widen)

text \<open>The binary search between two positions.\<close>

function bisect :: "(int \<Rightarrow> ('h, 'e, bool) act) \<Rightarrow> int \<Rightarrow> int \<Rightarrow> ('h, 'e, int) act" where
  "bisect right lo off =
     (if lo < off
      then let m = lo + (off - lo) div 2 in
           sbind (right m) (\<lambda>b. if b then bisect right (m + 1) off else bisect right lo m)
      else sret off)"
  by pat_completeness auto
termination by (relation "measure (\<lambda>(_, lo, off). nat (off - lo))") auto

declare gallop_scan.simps [simp del] bisect.simps [simp del]

definition rd_int :: "'a list \<Rightarrow> int \<Rightarrow> ('h, 'e, 'a) act" where
  "rd_int xs i = sbind (to_usize i) (get_at xs)"

type_synonym ('h, 'e, 'v) compare = "'v \<Rightarrow> 'v \<Rightarrow> ('h, 'e, f64) act"

text \<open>Galloping away from the hint, up or down; the last distance is cut to what there is.\<close>

definition gallop_up :: "(int \<Rightarrow> ('h, 'e, bool) act) \<Rightarrow> int \<Rightarrow> int \<Rightarrow> ('h, 'e, int \<times> int) act" where
  "gallop_up stop mx hint =
     sbind (gallop_scan (\<lambda>off. stop (hint + off)) mx 0 1) (\<lambda>(lo, off).
       let off = if mx < off then mx else off in sret (lo + hint, off + hint))"

definition gallop_down :: "(int \<Rightarrow> ('h, 'e, bool) act) \<Rightarrow> int \<Rightarrow> int \<Rightarrow> ('h, 'e, int \<times> int) act" where
  "gallop_down stop mx hint =
     sbind (gallop_scan (\<lambda>off. stop (hint - off)) mx 0 1) (\<lambda>(lo, off).
       let off = if mx < off then mx else off in sret (hint - off, hint - lo))"

text \<open>A test of the comparison of the element at \<open>m\<close> with the key, or of the key with it.\<close>

definition probe_left ::
  "('h, 'e, 'v) compare \<Rightarrow> 'v list \<Rightarrow> 'v \<Rightarrow> int \<Rightarrow> (f64 \<Rightarrow> bool) \<Rightarrow> int \<Rightarrow> ('h, 'e, bool) act"
where
  "probe_left c a y base test m =
     sbind (rd_int a (base + m)) (\<lambda>x. sbind (c x y) (\<lambda>r. sret (test r)))"

definition probe_right ::
  "('h, 'e, 'v) compare \<Rightarrow> 'v list \<Rightarrow> 'v \<Rightarrow> int \<Rightarrow> (f64 \<Rightarrow> bool) \<Rightarrow> int \<Rightarrow> ('h, 'e, bool) act"
where
  "probe_right c a y base test m =
     sbind (rd_int a (base + m)) (\<lambda>x. sbind (c y x) (\<lambda>r. sret (test r)))"

definition gallop_left ::
  "('h, 'e, 'v) compare \<Rightarrow> 'v list \<Rightarrow> 'v \<Rightarrow> nat \<Rightarrow> nat \<Rightarrow> nat \<Rightarrow> ('h, 'e, nat) act"
where
  "gallop_left c a y base len hint =
     (let probe = probe_left c a y (int base); len = int len; hint = int hint in
      sbind (probe less_zero hint) (\<lambda>less.
      sbind (if less then gallop_up (probe not_less_zero) (len - hint) hint
             else gallop_down (probe less_zero) (hint + 1) hint) (\<lambda>(lo, off).
      sbind (bisect (probe less_zero) (lo + 1) off) to_usize)))"

definition gallop_right ::
  "('h, 'e, 'v) compare \<Rightarrow> 'v list \<Rightarrow> 'v \<Rightarrow> nat \<Rightarrow> nat \<Rightarrow> nat \<Rightarrow> ('h, 'e, nat) act"
where
  "gallop_right c a y base len hint =
     (let probe = probe_right c a y (int base); len = int len; hint = int hint in
      sbind (probe less_zero hint) (\<lambda>less.
      sbind (if less then gallop_down (probe not_less_zero) (hint + 1) hint
             else gallop_up (probe less_zero) (len - hint) hint) (\<lambda>(lo, off).
      sbind (bisect (probe (\<lambda>r. \<not> less_zero r)) (lo + 1) off) to_usize)))"

subsection \<open>Runs and insertion\<close>

fun run_loop :: "('h, 'e, 'v) compare \<Rightarrow> 'v list \<Rightarrow> bool \<Rightarrow> 'v \<Rightarrow> nat \<Rightarrow> nat list \<Rightarrow> ('h, 'e, nat) act" where
  "run_loop c w desc prev run [] = sret run"
| "run_loop c w desc prev run (i # is) =
     sbind (get_at w i) (\<lambda>cur. sbind (c cur prev) (\<lambda>r.
       if (if desc then not_less_zero r else less_zero r) then sret run
       else run_loop c w desc cur (run + 1) is))"

definition reverse_range :: "'v list \<Rightarrow> nat \<Rightarrow> nat \<Rightarrow> ('h, 'e, 'v list) act" where
  "reverse_range w i n =
     (if i + n \<le> length w then sret (take i w @ rev (region w i n) @ drop (i + n) w) else spanic)"

definition count_and_make_run ::
  "('h, 'e, 'v) compare \<Rightarrow> 'v list \<Rightarrow> nat \<Rightarrow> nat \<Rightarrow> ('h, 'e, nat \<times> 'v list) act"
where
  "count_and_make_run c w low_arg high =
     (let low = low_arg + 1 in
      if low = high then sret (1, w)
      else sbind (get_at w low) (\<lambda>el. sbind (get_at w (low - 1)) (\<lambda>x. sbind (c el x) (\<lambda>order.
           let desc = less_zero order in
           sbind (run_loop c w desc el 2 [low + 1..<high]) (\<lambda>run.
           if desc then sbind (reverse_range w low_arg run) (\<lambda>w. sret (run, w)) else sret (run, w))))))"

function insert_search :: "('h, 'e, 'v) compare \<Rightarrow> 'v list \<Rightarrow> 'v \<Rightarrow> nat \<Rightarrow> nat \<Rightarrow> ('h, 'e, nat) act" where
  "insert_search c w pivot left right =
     (if left < right
      then let mid = left + (right - left) div 2 in
           sbind (get_at w mid) (\<lambda>x. sbind (c pivot x) (\<lambda>r.
             if less_zero r then insert_search c w pivot left mid
             else insert_search c w pivot (mid + 1) right))
      else sret left)"
  by pat_completeness auto
termination by (relation "measure (\<lambda>(_, _, _, left, right). right - left)") auto

fun shift_loop :: "'v list \<Rightarrow> nat list \<Rightarrow> ('h, 'e, 'v list) act" where
  "shift_loop w [] = sret w"
| "shift_loop w (p # ps) = sbind (get_at w (p - 1)) (\<lambda>x. sbind (set_at w p x) (\<lambda>w. shift_loop w ps))"

function insertion_loop :: "('h, 'e, 'v) compare \<Rightarrow> 'v list \<Rightarrow> nat \<Rightarrow> nat \<Rightarrow> nat \<Rightarrow> ('h, 'e, 'v list) act" where
  "insertion_loop c w low start high =
     (if start < high
      then sbind (get_at w start) (\<lambda>pivot.
           sbind (insert_search c w pivot low start) (\<lambda>left.
           sbind (shift_loop w (rev [left + 1..<start + 1])) (\<lambda>w.
           sbind (set_at w left pivot) (\<lambda>w. insertion_loop c w low (start + 1) high))))
      else sret w)"
  by pat_completeness auto
termination by (relation "measure (\<lambda>(_, _, _, start, high). high - start)") auto

declare insert_search.simps [simp del] insertion_loop.simps [simp del]

definition binary_insertion_sort ::
  "('h, 'e, 'v) compare \<Rightarrow> 'v list \<Rightarrow> nat \<Rightarrow> nat \<Rightarrow> nat \<Rightarrow> ('h, 'e, 'v list) act"
where
  "binary_insertion_sort c w low start_arg high =
     insertion_loop c w low (if low = start_arg then start_arg + 1 else start_arg) high"

subsection \<open>Merging from the left\<close>

definition SORT_MIN_GALLOP :: nat where "SORT_MIN_GALLOP = 7"

definition SORT_MIN_MERGE :: nat where "SORT_MIN_MERGE = 64"

datatype merge_end = Succeed | CopyRest

text \<open>How a loop of the merge goes on: out of the labelled block, or past the loop.\<close>

datatype ('s, 'm) leaving = Break merge_end 's | Past 'm

text \<open>
  The variables of \<open>merge_low\<close>: the slice, the positions, what is left of both sides and the
  caller's \<open>min_gallop\<close>; \<open>tmp\<close> does not change after the start.
\<close>

record 'v low =
  lw :: "'v list"
  ldest :: nat
  lct :: nat
  lcb :: nat
  lna :: nat
  lnb :: nat
  lgallop :: nat

text \<open>The step that takes the next element of the right side, or of the left side.\<close>

definition low_take_b :: "'v low \<Rightarrow> 'v \<Rightarrow> ('h, 'e, 'v low) act" where
  "low_take_b s x =
     sbind (set_at (lw s) (ldest s) x) (\<lambda>w. sbind (minus_usize (lnb s) 1) (\<lambda>nb.
       sret (s\<lparr>lw := w, ldest := ldest s + 1, lcb := lcb s + 1, lnb := nb\<rparr>)))"

definition low_take_a :: "'v low \<Rightarrow> 'v \<Rightarrow> ('h, 'e, 'v low) act" where
  "low_take_a s x =
     sbind (set_at (lw s) (ldest s) x) (\<lambda>w. sbind (minus_usize (lna s) 1) (\<lambda>na.
       sret (s\<lparr>lw := w, ldest := ldest s + 1, lct := lct s + 1, lna := na\<rparr>)))"

lemma low_take_less:
  "low_take_b s x h = Inr (s', h') \<Longrightarrow> lna s' = lna s \<and> lnb s = lnb s' + 1"
  "low_take_a s x h = Inr (s', h') \<Longrightarrow> lna s = lna s' + 1 \<and> lnb s' = lnb s"
  by (auto simp: low_take_b_def low_take_a_def sbind_Inr)

text \<open>One element at a time, until one side has won \<open>mg\<close> times in a row.\<close>

function low_pairs ::
  "('h, 'e, 'v) compare \<Rightarrow> 'v list \<Rightarrow> nat \<Rightarrow> 'v low \<Rightarrow> nat \<Rightarrow> nat \<Rightarrow>
   ('h, 'e, ('v low, 'v low \<times> nat \<times> nat) leaving) act"
where
  "low_pairs c tmp mg s wa wb =
     sbind (get_at (lw s) (lcb s)) (\<lambda>b. sbind (get_at tmp (lct s)) (\<lambda>a. sbind (c b a) (\<lambda>r.
       if less_zero r then
         sbind (low_take_b s b) (\<lambda>s.
           if lnb s = 0 then sret (Break Succeed s)
           else if mg \<le> wb + 1 then sret (Past (s, 0, wb + 1))
           else low_pairs c tmp mg s 0 (wb + 1))
       else
         sbind (low_take_a s a) (\<lambda>s.
           if lna s = 1 then sret (Break CopyRest s)
           else if mg \<le> wa + 1 then sret (Past (s, wa + 1, 0))
           else low_pairs c tmp mg s (wa + 1) 0))))"
  by pat_completeness auto
termination
  by (relation "measure (\<lambda>(_, _, _, s, _, _). lna s + lnb s)") (auto dest!: low_take_less)

declare low_pairs.simps [simp del]

text \<open>Runs of a side are found by galloping, as long as they are long.\<close>

definition low_gallop_a ::
  "('h, 'e, 'v) compare \<Rightarrow> 'v list \<Rightarrow> 'v low \<Rightarrow> ('h, 'e, nat \<times> 'v low) act"
where
  "low_gallop_a c tmp s =
     sbind (get_at (lw s) (lcb s)) (\<lambda>key.
     sbind (gallop_right c tmp key (lct s) (lna s) 0) (\<lambda>wa.
     if 0 < wa then
       sbind (clone_from (lw s) (ldest s) wa tmp (lct s)) (\<lambda>w.
       sbind (minus_usize (lna s) wa) (\<lambda>na.
         sret (wa, s\<lparr>lw := w, ldest := ldest s + wa, lct := lct s + wa, lna := na\<rparr>)))
     else sret (wa, s)))"

definition low_gallop_b ::
  "('h, 'e, 'v) compare \<Rightarrow> 'v list \<Rightarrow> 'v low \<Rightarrow> ('h, 'e, nat \<times> 'v low) act"
where
  "low_gallop_b c tmp s =
     sbind (get_at tmp (lct s)) (\<lambda>key.
     sbind (gallop_left c (lw s) key (lcb s) (lnb s) 0) (\<lambda>wb.
     if 0 < wb then
       sbind (move_within (lw s) (lcb s) (ldest s) wb) (\<lambda>w.
       sbind (minus_usize (lnb s) wb) (\<lambda>nb.
         sret (wb, s\<lparr>lw := w, ldest := ldest s + wb, lcb := lcb s + wb, lnb := nb\<rparr>)))
     else sret (wb, s)))"

lemma low_gallop_a_le: "low_gallop_a c tmp s h = Inr ((wa, s'), h') \<Longrightarrow> lna s' \<le> lna s \<and> lnb s' = lnb s"
  by (auto simp: low_gallop_a_def sbind_Inr split: if_splits)

lemma low_gallop_b_le: "low_gallop_b c tmp s h = Inr ((wa, s'), h') \<Longrightarrow> lna s' = lna s \<and> lnb s' \<le> lnb s"
  by (auto simp: low_gallop_b_def sbind_Inr split: if_splits)

text \<open>
  One round: gallop through the left run and take from the right, then the other way round. The
  round is left when a run is used up, or when one element of the left run remains.
\<close>

definition low_round_a ::
  "('h, 'e, 'v) compare \<Rightarrow> 'v list \<Rightarrow> 'v low \<Rightarrow> ('h, 'e, ('v low, 'v low \<times> nat) leaving) act"
where
  "low_round_a c tmp s =
     sbind (low_gallop_a c tmp s) (\<lambda>(wa, s).
       if 0 < wa \<and> lna s = 1 then sret (Break CopyRest s)
       else if 0 < wa \<and> lna s = 0 then sret (Break Succeed s)
       else
         sbind (get_at (lw s) (lcb s)) (\<lambda>b.
         sbind (low_take_b s b) (\<lambda>s.
           if lnb s = 0 then sret (Break Succeed s) else sret (Past (s, wa)))))"

definition low_round_b ::
  "('h, 'e, 'v) compare \<Rightarrow> 'v list \<Rightarrow> 'v low \<Rightarrow> ('h, 'e, ('v low, 'v low \<times> nat) leaving) act"
where
  "low_round_b c tmp s =
     sbind (low_gallop_b c tmp s) (\<lambda>(wb, s).
       if 0 < wb \<and> lnb s = 0 then sret (Break Succeed s)
       else
         sbind (get_at tmp (lct s)) (\<lambda>a.
         sbind (low_take_a s a) (\<lambda>s.
           if lna s = 1 then sret (Break CopyRest s) else sret (Past (s, wb)))))"

definition low_past_less :: "nat \<Rightarrow> ('v low, 'v low \<times> 'x) leaving \<Rightarrow> bool" where
  "low_past_less n r \<longleftrightarrow> (case r of Break e s \<Rightarrow> True | Past (s, x) \<Rightarrow> lna s + lnb s < n)"

lemma post_case_prod: "(\<And>a b. x = (a, b) \<Longrightarrow> post (f a b) P) \<Longrightarrow> post (case x of (a, b) \<Rightarrow> f a b) P"
  by (cases x) simp

lemma low_round_less:
  "post (low_round_a c tmp s) (low_past_less (lna s + lnb s))"
  "post (low_round_b c tmp s) (low_past_less (lna s + lnb s))"
  unfolding low_round_a_def low_round_b_def
  by (intro post_if post_bind post_case_prod post_ret;
      force simp: low_past_less_def dest: low_take_less low_gallop_a_le low_gallop_b_le)+

function low_gallops ::
  "('h, 'e, 'v) compare \<Rightarrow> 'v list \<Rightarrow> nat \<Rightarrow> 'v low \<Rightarrow> nat \<Rightarrow> nat \<Rightarrow> bool \<Rightarrow>
   ('h, 'e, ('v low, 'v low \<times> nat) leaving) act"
where
  "low_gallops c tmp mg s wa wb first =
     (if SORT_MIN_GALLOP \<le> wa \<or> SORT_MIN_GALLOP \<le> wb \<or> first then
        sbind (minus_usize mg 1) (\<lambda>m.
        sbind (low_round_a c tmp (s\<lparr>lgallop := max m 1\<rparr>)) (\<lambda>r. case r of
          Break e s \<Rightarrow> sret (Break e s)
        | Past (s, wa) \<Rightarrow>
            sbind (low_round_b c tmp s) (\<lambda>r. case r of
              Break e s \<Rightarrow> sret (Break e s)
            | Past (s, wb) \<Rightarrow> low_gallops c tmp (max m 1) s wa wb False)))
      else sret (Past (s, mg)))"
  by pat_completeness auto
termination
  by (relation "measure (\<lambda>(_, _, _, s, _, _, _). lna s + lnb s)")
    (auto simp: low_past_less_def dest!: postD[OF low_round_less(1)] postD[OF low_round_less(2)])

declare low_gallops.simps [simp del]

lemma low_pairs_less: "post (low_pairs c tmp mg s wa wb) (low_past_less (lna s + lnb s))"
proof (induction c tmp mg s wa wb rule: low_pairs.induct)
  case (1 c tmp mg s wa wb)
  show ?case
    apply (subst low_pairs.simps)
    apply (rule post_bind)+
    apply (rule post_if; rule post_bind; frule low_take_less; intro post_if post_ret)
         apply (simp add: low_past_less_def)
        apply (simp add: low_past_less_def)
       apply (rule post_mono, rule "1.IH"(1), assumption+)
       apply (auto simp: low_past_less_def split: leaving.splits)[1]
      apply (simp add: low_past_less_def)
     apply (simp add: low_past_less_def)
    apply (rule post_mono, rule "1.IH"(2), assumption+)
    apply (auto simp: low_past_less_def split: leaving.splits)[1]
    done
qed

lemma post_case_flow:
  "(\<And>e s. r = Break e s \<Longrightarrow> post (f e s) P) \<Longrightarrow> (\<And>x. r = Past x \<Longrightarrow> post (g x) P) \<Longrightarrow>
   post (case r of Break e s \<Rightarrow> f e s | Past x \<Rightarrow> g x) P"
  by (cases r) simp_all

lemma low_gallops_less: "post (low_gallops c tmp mg s wa wb first) (low_past_less (lna s + lnb s + 1))"
proof (induction "lna s + lnb s" arbitrary: mg s wa wb first rule: less_induct)
  case less
  show ?case
    apply (subst low_gallops.simps)
    apply (intro post_if post_bind post_case_flow post_case_prod post_ret)
       apply (simp_all only: low_past_less_def leaving.case prod.case)
    apply (rule post_mono, rule less.hyps)
     apply (auto simp: low_past_less_def dest!: postD[OF low_round_less(1)] postD[OF low_round_less(2)]
        split: leaving.splits)
    done
qed

function low_loop ::
  "('h, 'e, 'v) compare \<Rightarrow> 'v list \<Rightarrow> nat \<Rightarrow> 'v low \<Rightarrow> ('h, 'e, merge_end \<times> 'v low) act"
where
  "low_loop c tmp mg s =
     sbind (low_pairs c tmp mg s 0 0) (\<lambda>r. case r of
       Break e s \<Rightarrow> sret (e, s)
     | Past (s, wa, wb) \<Rightarrow>
         sbind (low_gallops c tmp (mg + 1) s wa wb True) (\<lambda>r. case r of
           Break e s \<Rightarrow> sret (e, s)
         | Past (s, mg) \<Rightarrow> low_loop c tmp (mg + 1) (s\<lparr>lgallop := mg + 1\<rparr>)))"
  by pat_completeness auto
termination
  by (relation "measure (\<lambda>(_, _, _, s). lna s + lnb s)")
    (auto simp: low_past_less_def dest!: postD[OF low_pairs_less] postD[OF low_gallops_less])

declare low_loop.simps [simp del]

definition low_finish :: "'v list \<Rightarrow> merge_end \<Rightarrow> 'v low \<Rightarrow> ('h, 'e, 'v list) act" where
  "low_finish tmp e s =
     (case e of
        Succeed \<Rightarrow>
          (if 0 < lna s then clone_from (lw s) (ldest s) (lna s) tmp (lct s) else sret (lw s))
      | CopyRest \<Rightarrow>
          sbind (move_within (lw s) (lcb s) (ldest s) (lnb s)) (\<lambda>w.
          sbind (get_at tmp (lct s)) (\<lambda>a. set_at w (ldest s + lnb s) a)))"

definition merge_low ::
  "('h, 'e, 'v) compare \<Rightarrow> 'v list \<Rightarrow> nat \<Rightarrow> nat \<Rightarrow> nat \<Rightarrow> nat \<Rightarrow> nat \<Rightarrow> ('h, 'e, 'v list \<times> nat) act"
where
  "merge_low c w base_a len_a base_b len_b min_gallop =
     (if base_a + len_a \<le> length w then
        let tmp = region w base_a len_a;
            s = \<lparr>lw = w, ldest = base_a, lct = 0, lcb = base_b, lna = len_a, lnb = len_b, lgallop = min_gallop\<rparr>
        in sbind (get_at w base_b) (\<lambda>b.
           sbind (low_take_b s b) (\<lambda>s.
           sbind (if lnb s = 0 then sret (Succeed, s)
                  else if lna s = 1 then sret (CopyRest, s)
                  else low_loop c tmp min_gallop s) (\<lambda>(e, s).
           sbind (low_finish tmp e s) (\<lambda>w. sret (w, lgallop s)))))
      else spanic)"

subsection \<open>Merging from the right\<close>

record 'v high =
  hw :: "'v list"
  hdest :: int
  hct :: int
  hca :: int
  hna :: int
  hnb :: int
  hgallop :: nat

definition wr_int :: "'a list \<Rightarrow> int \<Rightarrow> 'a \<Rightarrow> ('h, 'e, 'a list) act" where
  "wr_int xs i x = sbind (to_usize i) (\<lambda>i. set_at xs i x)"

definition high_take_a :: "'v high \<Rightarrow> 'v \<Rightarrow> ('h, 'e, 'v high) act" where
  "high_take_a s x =
     sbind (wr_int (hw s) (hdest s) x) (\<lambda>w.
       sret (s\<lparr>hw := w, hdest := hdest s - 1, hca := hca s - 1, hna := hna s - 1\<rparr>))"

definition high_take_b :: "'v high \<Rightarrow> 'v \<Rightarrow> ('h, 'e, 'v high) act" where
  "high_take_b s x =
     sbind (wr_int (hw s) (hdest s) x) (\<lambda>w.
       sret (s\<lparr>hw := w, hdest := hdest s - 1, hct := hct s - 1, hnb := hnb s - 1\<rparr>))"

text \<open>Every step writes at \<open>dest\<close> and moves it down, so the loops end.\<close>

lemma high_take_less:
  "high_take_a s x h = Inr (s', h') \<Longrightarrow> 0 \<le> hdest s \<and> hdest s = hdest s' + 1"
  "high_take_b s x h = Inr (s', h') \<Longrightarrow> 0 \<le> hdest s \<and> hdest s = hdest s' + 1"
  by (auto simp: high_take_a_def high_take_b_def wr_int_def sbind_Inr)

function high_pairs ::
  "('h, 'e, 'v) compare \<Rightarrow> 'v list \<Rightarrow> nat \<Rightarrow> 'v high \<Rightarrow> nat \<Rightarrow> nat \<Rightarrow>
   ('h, 'e, ('v high, 'v high \<times> nat \<times> nat) leaving) act"
where
  "high_pairs c tmp mg s wa wb =
     sbind (rd_int tmp (hct s)) (\<lambda>b. sbind (rd_int (hw s) (hca s)) (\<lambda>a. sbind (c b a) (\<lambda>r.
       if less_zero r then
         sbind (high_take_a s a) (\<lambda>s.
           if hna s = 0 then sret (Break Succeed s)
           else if mg \<le> wa + 1 then sret (Past (s, wa + 1, 0))
           else high_pairs c tmp mg s (wa + 1) 0)
       else
         sbind (high_take_b s b) (\<lambda>s.
           if hnb s = 1 then sret (Break CopyRest s)
           else if mg \<le> wb + 1 then sret (Past (s, 0, wb + 1))
           else high_pairs c tmp mg s 0 (wb + 1)))))"
  by pat_completeness auto
termination
  by (relation "measure (\<lambda>(_, _, _, s, _, _). nat (hdest s + 1))") (auto dest!: high_take_less)

declare high_pairs.simps [simp del]

definition high_gallop_a ::
  "('h, 'e, 'v) compare \<Rightarrow> 'v list \<Rightarrow> int \<Rightarrow> 'v high \<Rightarrow> ('h, 'e, nat \<times> 'v high) act"
where
  "high_gallop_a c tmp base_a s =
     sbind (rd_int tmp (hct s)) (\<lambda>key.
     sbind (to_usize base_a) (\<lambda>base. sbind (to_usize (hna s)) (\<lambda>na. sbind (to_usize (hna s - 1)) (\<lambda>hint.
     sbind (gallop_right c (hw s) key base na hint) (\<lambda>k.
     sbind (to_usize (hna s - int k)) (\<lambda>wa.
     if 0 < wa then
       let dest = hdest s - int wa; ca = hca s - int wa in
       sbind (to_usize (ca + 1)) (\<lambda>src. sbind (to_usize (dest + 1)) (\<lambda>dst.
       sbind (move_within (hw s) src dst wa) (\<lambda>w.
         sret (wa, s\<lparr>hw := w, hdest := dest, hca := ca, hna := hna s - int wa\<rparr>))))
     else sret (wa, s)))))))"

definition high_gallop_b ::
  "('h, 'e, 'v) compare \<Rightarrow> 'v list \<Rightarrow> 'v high \<Rightarrow> ('h, 'e, nat \<times> 'v high) act"
where
  "high_gallop_b c tmp s =
     sbind (rd_int (hw s) (hca s)) (\<lambda>key.
     sbind (to_usize (hnb s)) (\<lambda>nb. sbind (to_usize (hnb s - 1)) (\<lambda>hint.
     sbind (gallop_left c tmp key 0 nb hint) (\<lambda>k.
     sbind (to_usize (hnb s - int k)) (\<lambda>wb.
     if 0 < wb then
       let dest = hdest s - int wb; ct = hct s - int wb in
       sbind (to_usize (ct + 1)) (\<lambda>s0. sbind (to_usize (dest + 1)) (\<lambda>d0.
       sbind (clone_from (hw s) d0 wb tmp s0) (\<lambda>w.
         sret (wb, s\<lparr>hw := w, hdest := dest, hct := ct, hnb := hnb s - int wb\<rparr>))))
     else sret (wb, s))))))"

lemma high_gallop_le:
  "high_gallop_a c tmp base s h = Inr ((wa, s'), h') \<Longrightarrow> hdest s' \<le> hdest s"
  "high_gallop_b c tmp s h = Inr ((wb, s'), h') \<Longrightarrow> hdest s' \<le> hdest s"
  by (auto simp: high_gallop_a_def high_gallop_b_def sbind_Inr Let_def split: if_splits)

definition high_round_a ::
  "('h, 'e, 'v) compare \<Rightarrow> 'v list \<Rightarrow> int \<Rightarrow> 'v high \<Rightarrow> ('h, 'e, ('v high, 'v high \<times> nat) leaving) act"
where
  "high_round_a c tmp base_a s =
     sbind (high_gallop_a c tmp base_a s) (\<lambda>(wa, s).
       if 0 < wa \<and> hna s = 0 then sret (Break Succeed s)
       else
         sbind (rd_int tmp (hct s)) (\<lambda>b.
         sbind (high_take_b s b) (\<lambda>s.
           if hnb s = 1 then sret (Break CopyRest s) else sret (Past (s, wa)))))"

definition high_round_b ::
  "('h, 'e, 'v) compare \<Rightarrow> 'v list \<Rightarrow> 'v high \<Rightarrow> ('h, 'e, ('v high, 'v high \<times> nat) leaving) act"
where
  "high_round_b c tmp s =
     sbind (high_gallop_b c tmp s) (\<lambda>(wb, s).
       if 0 < wb \<and> hnb s = 1 then sret (Break CopyRest s)
       else if 0 < wb \<and> hnb s = 0 then sret (Break Succeed s)
       else
         sbind (rd_int (hw s) (hca s)) (\<lambda>a.
         sbind (high_take_a s a) (\<lambda>s.
           if hna s = 0 then sret (Break Succeed s) else sret (Past (s, wb)))))"

definition high_past_less :: "int \<Rightarrow> ('v high, 'v high \<times> 'x) leaving \<Rightarrow> bool" where
  "high_past_less n r \<longleftrightarrow> (case r of Break e s \<Rightarrow> True | Past (s, x) \<Rightarrow> hdest s < n)"

lemma high_round_less:
  "post (high_round_a c tmp base s) (\<lambda>r. 0 \<le> hdest s \<and> high_past_less (hdest s) r \<or> (\<exists>e s. r = Break e s))"
  "post (high_round_b c tmp s) (\<lambda>r. 0 \<le> hdest s \<and> high_past_less (hdest s) r \<or> (\<exists>e s. r = Break e s))"
  unfolding high_round_a_def high_round_b_def
  by (intro post_if post_bind post_case_prod post_ret;
      force simp: high_past_less_def dest: high_take_less high_gallop_le)+

function high_gallops ::
  "('h, 'e, 'v) compare \<Rightarrow> 'v list \<Rightarrow> int \<Rightarrow> nat \<Rightarrow> 'v high \<Rightarrow> nat \<Rightarrow> nat \<Rightarrow> bool \<Rightarrow>
   ('h, 'e, ('v high, 'v high \<times> nat) leaving) act"
where
  "high_gallops c tmp base_a mg s wa wb first =
     (if SORT_MIN_GALLOP \<le> wa \<or> SORT_MIN_GALLOP \<le> wb \<or> first then
        sbind (minus_usize mg 1) (\<lambda>m.
        sbind (high_round_a c tmp base_a (s\<lparr>hgallop := max m 1\<rparr>)) (\<lambda>r. case r of
          Break e s \<Rightarrow> sret (Break e s)
        | Past (s, wa) \<Rightarrow>
            sbind (high_round_b c tmp s) (\<lambda>r. case r of
              Break e s \<Rightarrow> sret (Break e s)
            | Past (s, wb) \<Rightarrow> high_gallops c tmp base_a (max m 1) s wa wb False)))
      else sret (Past (s, mg)))"
  by pat_completeness auto
termination
  by (relation "measure (\<lambda>(_, _, _, _, s, _, _, _). nat (hdest s + 1))")
    (auto simp: high_past_less_def dest!: postD[OF high_round_less(1)] postD[OF high_round_less(2)])

declare high_gallops.simps [simp del]

lemma high_pairs_less: "post (high_pairs c tmp mg s wa wb) (\<lambda>r. 0 \<le> hdest s \<and> high_past_less (hdest s) r)"
proof (induction c tmp mg s wa wb rule: high_pairs.induct)
  case (1 c tmp mg s wa wb)
  show ?case
    apply (subst high_pairs.simps)
    apply (rule post_bind)+
    apply (rule post_if; rule post_bind; frule high_take_less; intro post_if post_ret)
         apply (simp add: high_past_less_def)
        apply (simp add: high_past_less_def)
       apply (rule post_mono, rule "1.IH"(1), assumption+)
       apply (auto simp: high_past_less_def split: leaving.splits)[1]
      apply (simp add: high_past_less_def)
     apply (simp add: high_past_less_def)
    apply (rule post_mono, rule "1.IH"(2), assumption+)
    apply (auto simp: high_past_less_def split: leaving.splits)[1]
    done
qed

lemma high_gallops_less: "post (high_gallops c tmp base mg s wa wb first) (high_past_less (hdest s + 1))"
proof (induction "nat (hdest s + 1)" arbitrary: mg s wa wb first rule: less_induct)
  case less
  show ?case
    apply (subst high_gallops.simps)
    apply (intro post_if post_bind post_case_flow post_case_prod post_ret)
       apply (simp_all only: high_past_less_def leaving.case prod.case)
    apply (rule post_mono, rule less.hyps)
     apply (auto simp: high_past_less_def dest!: postD[OF high_round_less(1)] postD[OF high_round_less(2)]
        split: leaving.splits)
    done
qed

function high_loop ::
  "('h, 'e, 'v) compare \<Rightarrow> 'v list \<Rightarrow> int \<Rightarrow> nat \<Rightarrow> 'v high \<Rightarrow> ('h, 'e, merge_end \<times> 'v high) act"
where
  "high_loop c tmp base_a mg s =
     sbind (high_pairs c tmp mg s 0 0) (\<lambda>r. case r of
       Break e s \<Rightarrow> sret (e, s)
     | Past (s, wa, wb) \<Rightarrow>
         sbind (high_gallops c tmp base_a (mg + 1) s wa wb True) (\<lambda>r. case r of
           Break e s \<Rightarrow> sret (e, s)
         | Past (s, mg) \<Rightarrow> high_loop c tmp base_a (mg + 1) (s\<lparr>hgallop := mg + 1\<rparr>)))"
  by pat_completeness auto
termination
  by (relation "measure (\<lambda>(_, _, _, _, s). nat (hdest s + 1))")
    (auto simp: high_past_less_def dest!: postD[OF high_pairs_less] postD[OF high_gallops_less])

declare high_loop.simps [simp del]

definition high_finish :: "'v list \<Rightarrow> merge_end \<Rightarrow> 'v high \<Rightarrow> ('h, 'e, 'v list) act" where
  "high_finish tmp e s =
     (case e of
        Succeed \<Rightarrow>
          (if 0 < hnb s then
             sbind (to_usize (hdest s - (hnb s - 1))) (\<lambda>d0.
             sbind (to_usize (hnb s)) (\<lambda>nb. clone_from (hw s) d0 nb tmp 0))
           else sret (hw s))
      | CopyRest \<Rightarrow>
          let dest = hdest s - hna s; ca = hca s - hna s in
          sbind (to_usize (ca + 1)) (\<lambda>src. sbind (to_usize (dest + 1)) (\<lambda>dst. sbind (to_usize (hna s)) (\<lambda>n.
          sbind (move_within (hw s) src dst n) (\<lambda>w.
          sbind (rd_int tmp (hct s)) (\<lambda>b. wr_int w dest b))))))"

definition merge_high ::
  "('h, 'e, 'v) compare \<Rightarrow> 'v list \<Rightarrow> nat \<Rightarrow> nat \<Rightarrow> nat \<Rightarrow> nat \<Rightarrow> nat \<Rightarrow> ('h, 'e, 'v list \<times> nat) act"
where
  "merge_high c w base_a len_a base_b len_b min_gallop =
     (if base_b + len_b \<le> length w then
        let tmp = region w base_b len_b;
            s = \<lparr>hw = w, hdest = int base_b + int len_b - 1, hct = int len_b - 1,
                 hca = int base_a + int len_a - 1, hna = int len_a, hnb = int len_b, hgallop = min_gallop\<rparr>
        in sbind (rd_int w (hca s)) (\<lambda>a.
           sbind (high_take_a s a) (\<lambda>s.
           sbind (if hna s = 0 then sret (Succeed, s)
                  else if hnb s = 1 then sret (CopyRest, s)
                  else high_loop c tmp (int base_a) min_gallop s) (\<lambda>(e, s).
           sbind (high_finish tmp e s) (\<lambda>w. sret (w, hgallop s)))))
      else spanic)"

subsection \<open>The sort\<close>

type_synonym sort_runs = "(nat \<times> nat) list"

text \<open>
  The state of the sort: the slice, the stack of runs (start and length), and \<open>min_gallop\<close>.
  \<open>tmp\<close> is cleared before every use.
\<close>

type_synonym 'v sort_state = "'v list \<times> sort_runs \<times> nat"

text \<open>Two neighbouring runs: what is already in place at both ends is left out of the merge.\<close>

definition merge_runs ::
  "('h, 'e, 'v) compare \<Rightarrow> 'v list \<Rightarrow> nat \<Rightarrow> nat \<Rightarrow> nat \<Rightarrow> nat \<Rightarrow> nat \<Rightarrow> ('h, 'e, 'v list \<times> nat) act"
where
  "merge_runs c w base_a len_a base_b len_b mg =
     sbind (get_at w base_b) (\<lambda>x.
     sbind (gallop_right c w x base_a len_a 0) (\<lambda>k.
     sbind (minus_usize len_a k) (\<lambda>len_a.
     let base_a = base_a + k in
     if len_a = 0 then sret (w, mg)
     else
       sbind (get_at w (base_a + len_a - 1)) (\<lambda>x.
       sbind (minus_usize len_b 1) (\<lambda>hint.
       sbind (gallop_left c w x base_b len_b hint) (\<lambda>len_b.
       if len_b = 0 then sret (w, mg)
       else if len_a \<le> len_b then merge_low c w base_a len_a base_b len_b mg
       else merge_high c w base_a len_a base_b len_b mg))))))"

definition merge_at ::
  "('h, 'e, 'v) compare \<Rightarrow> 'v list \<Rightarrow> sort_runs \<Rightarrow> nat \<Rightarrow> nat \<Rightarrow> ('h, 'e, 'v sort_state) act"
where
  "merge_at c w runs i mg =
     sbind (get_at runs i) (\<lambda>(base_a, len_a). sbind (get_at runs (i + 1)) (\<lambda>(base_b, len_b).
     let runs = runs[i := (base_a, len_a + len_b)];
         runs = butlast (if i + 3 = length runs then runs[i + 1 := runs ! (i + 2)] else runs)
     in sbind (merge_runs c w base_a len_a base_b len_b mg) (\<lambda>(w, mg). sret (w, runs, mg))))"

lemma merge_at_less:
  "post (merge_at c w runs i mg) (\<lambda>(w', runs', mg'). runs \<noteq> [] \<and> length runs' = length runs - 1)"
  unfolding merge_at_def Let_def
  by (intro post_bind post_case_prod post_if post_ret) (auto simp: get_at_def split: if_splits)

definition run_invariant :: "sort_runs \<Rightarrow> nat \<Rightarrow> ('h, 'e, bool) act" where
  "run_invariant runs n =
     (if n < 2 then sret True
      else sbind (get_at runs (n - 2)) (\<lambda>x. sbind (get_at runs (n - 1)) (\<lambda>y. sbind (get_at runs n) (\<lambda>z.
             sret (snd y + snd z < snd x)))))"

text \<open>The position at which the stack of runs is merged next, or \<open>None\<close> when it need not be.\<close>

definition merge_position :: "sort_runs \<Rightarrow> ('h, 'e, nat option) act" where
  "merge_position runs =
     sbind (minus_usize (length runs) 2) (\<lambda>n.
     sbind (run_invariant runs (n + 1)) (\<lambda>ok1.
     sbind (if ok1 then run_invariant runs n else sret True) (\<lambda>ok0.
     if \<not> ok1 \<or> \<not> ok0 then
       sbind (minus_usize n 1) (\<lambda>m.
       sbind (get_at runs m) (\<lambda>x. sbind (get_at runs (n + 1)) (\<lambda>z.
         sret (Some (if snd x < snd z then m else n)))))
     else
       sbind (get_at runs n) (\<lambda>y. sbind (get_at runs (n + 1)) (\<lambda>z.
         sret (if snd y \<le> snd z then Some n else None))))))"

function collapse ::
  "('h, 'e, 'v) compare \<Rightarrow> 'v list \<Rightarrow> sort_runs \<Rightarrow> nat \<Rightarrow> ('h, 'e, 'v sort_state) act"
where
  "collapse c w runs mg =
     (if 1 < length runs
      then sbind (merge_position runs) (\<lambda>p. case p of
             None \<Rightarrow> sret (w, runs, mg)
           | Some n \<Rightarrow> sbind (merge_at c w runs n mg) (\<lambda>(w, runs, mg). collapse c w runs mg))
      else sret (w, runs, mg))"
  by pat_completeness auto
termination
  by (relation "measure (\<lambda>(_, _, runs, _). length runs)") (auto dest!: postD[OF merge_at_less])

function collapse_all ::
  "('h, 'e, 'v) compare \<Rightarrow> 'v list \<Rightarrow> sort_runs \<Rightarrow> nat \<Rightarrow> ('h, 'e, 'v sort_state) act"
where
  "collapse_all c w runs mg =
     (if 1 < length runs
      then sbind (minus_usize (length runs) 2) (\<lambda>n.
           sbind (if 0 < n
                  then sbind (get_at runs (n - 1)) (\<lambda>x. sbind (get_at runs (n + 1)) (\<lambda>z. sret (snd x < snd z)))
                  else sret False) (\<lambda>b.
           sbind (merge_at c w runs (if b then n - 1 else n) mg) (\<lambda>(w, runs, mg).
             collapse_all c w runs mg)))
      else sret (w, runs, mg))"
  by pat_completeness auto
termination
  by (relation "measure (\<lambda>(_, _, runs, _). length runs)") (auto dest!: postD[OF merge_at_less])

declare collapse.simps [simp del] collapse_all.simps [simp del]

function min_run_loop :: "nat \<Rightarrow> nat \<Rightarrow> nat" where
  "min_run_loop n r =
     (if SORT_MIN_MERGE \<le> n then min_run_loop (n div 2) (or r (n mod 2)) else n + r)"
  by pat_completeness auto
termination by (relation "measure fst") (auto simp: SORT_MIN_MERGE_def)

declare min_run_loop.simps [simp del]

definition min_run_length :: "nat \<Rightarrow> nat" where
  "min_run_length n = min_run_loop n 0"

lemma run_loop_le: "run_loop c w desc prev run is h = Inr (n, h') \<Longrightarrow> run \<le> n"
  by (induction "is" arbitrary: prev run h) (force simp: sbind_Inr split: if_splits)+

lemma count_and_make_run_pos: "post (count_and_make_run c w low high) (\<lambda>(run, w'). 0 < run)"
  unfolding count_and_make_run_def Let_def
  by (intro post_bind post_if post_ret) (auto dest!: run_loop_le)

function sort_loop ::
  "('h, 'e, 'v) compare \<Rightarrow> nat \<Rightarrow> 'v list \<Rightarrow> sort_runs \<Rightarrow> nat \<Rightarrow> nat \<Rightarrow> nat \<Rightarrow> ('h, 'e, 'v sort_state) act"
where
  "sort_loop c min_run w runs mg low remaining =
     (if remaining \<noteq> 0 then
        sbind (count_and_make_run c w low (low + remaining)) (\<lambda>(cur, w).
        sbind (if cur < min_run then
                 let forced = min min_run remaining in
                 sbind (binary_insertion_sort c w low (low + cur) (low + forced)) (\<lambda>w. sret (forced, w))
               else sret (cur, w)) (\<lambda>(cur, w).
        sbind (collapse c w (runs @ [(low, cur)]) mg) (\<lambda>(w, runs, mg).
        sbind (minus_usize remaining cur) (\<lambda>remaining.
          sort_loop c min_run w runs mg (low + cur) remaining))))
      else sret (w, runs, mg))"
  by pat_completeness auto
termination
  by (relation "measure (\<lambda>(_, _, _, _, _, _, remaining). remaining)")
    (auto simp: sbind_Inr Let_def dest!: postD[OF count_and_make_run_pos] split: if_splits)

declare sort_loop.simps [simp del]

definition timsort :: "('h, 'e, 'v) compare \<Rightarrow> 'v list \<Rightarrow> ('h, 'e, 'v list) act" where
  "timsort c w =
     (if length w < 2 then sret w
      else sbind (sort_loop c (min_run_length (length w)) w [] SORT_MIN_GALLOP 0 (length w)) (\<lambda>(w, runs, mg).
           sbind (collapse_all c w runs mg) (\<lambda>(w, runs, mg). sret w)))"

subsection \<open>The methods\<close>

text \<open>
  \<open>sort\<close> and \<open>toSorted\<close>: undefined values are left out of the sort and go to the end. The result
  is written back over the array as it is after the comparisons, which may have changed it.
\<close>

definition sorted_items :: "('h, 'e, 'v) host \<Rightarrow> 'v \<Rightarrow> 'v \<Rightarrow> 'v list \<Rightarrow> ('h, 'e, 'v list) act" where
  "sorted_items H undef cmp items =
     sbind (timsort (sort_compare H cmp) (filter (\<lambda>x. \<not> host_undef H x) items)) (\<lambda>work.
       sret (work @ replicate (length (filter (host_undef H) items)) undef))"

fun write_back :: "'v list \<Rightarrow> nat \<Rightarrow> 'v list \<Rightarrow> 'v list" where
  "write_back a i [] = a"
| "write_back a i (v # vs) = write_back (if i < length a then a[i := v] else a @ [v]) (i + 1) vs"

definition sort_method :: "('h, 'e, 'v) host \<Rightarrow> bool \<Rightarrow> 'v \<Rightarrow> 'v \<Rightarrow> 'v \<Rightarrow> ('h, 'e, 'v) act" where
  "sort_method H to_sorted undef this cmp = (\<lambda>h.
     if \<not> host_undef H cmp \<and> \<not> host_callable H cmp then Inl (SortErr (host_not_callable H h))
     else
       sbind (sorted_items H undef cmp (host_arr H h)) (\<lambda>work h.
         if to_sorted then Inr (host_alloc H work h)
         else Inr (this, host_set_arr H (write_back (host_arr H h) 0 work) h)) h)"

end
