(* ===== verification/PayloadGallop.thy ===== *)
theory PayloadGallop
  imports PayloadSort "HOL-Library.Sorting_Algorithms"
begin

text \<open>
  The means to prove the sort of \<open>PayloadSort\<close> correct, and its searches. For every comparison,
  even one that contradicts itself, the sort stays inside the slice and only permutes it; for a
  comparison that follows a total preorder it is the stable sort. Both are proved at once, with
  weakest preconditions: the flag \<open>N\<close> says that the comparison always returns, and then the sort
  does too; the flag \<open>G\<close> says that it can be trusted, and what is claimed about order holds under it. The merges are in \<open>PayloadMerge\<close>, the sort in
  \<open>PayloadTimsort\<close>.
\<close>

subsection \<open>Stable sorting\<close>

text \<open>How the stable sort of a list is made of its parts; the steps of every merge.\<close>

abbreviation ssort :: "'a comparator \<Rightarrow> 'a list \<Rightarrow> 'a list" where
  "ssort \<equiv> Sorting_Algorithms.sort"

abbreviation ssorted :: "'a comparator \<Rightarrow> 'a list \<Rightarrow> bool" where
  "ssorted \<equiv> Sorting_Algorithms.sorted"

lemma ssort_id: "ssorted K xs \<Longrightarrow> ssort K xs = xs"
  by (rule sort_eqI) simp_all

lemma ssort_take_front:
  assumes "ssorted K P" "\<forall>p \<in> set P. \<forall>a \<in> set A. compare K p a = Less"
    "\<forall>p \<in> set P. \<forall>b \<in> set B. compare K p b \<noteq> Greater"
  shows "ssort K (A @ P @ B) = P @ ssort K (A @ B)"
proof (rule sort_eqI)
  show "ssorted K (P @ ssort K (A @ B))"
    using assms by (auto simp: sorted_append_iff)
  fix y
  have "stable_segment K y A @ stable_segment K y P = stable_segment K y P @ stable_segment K y A"
  proof (cases "\<exists>p \<in> set P. compare K y p = Equiv")
    case True
    then have "\<forall>a \<in> set A. compare K y a \<noteq> Equiv"
      using assms(2) by (metis comp.distinct(1) compare.trans_equiv_less)
    then show ?thesis by (simp add: filter_empty_conv)
  next
    case False
    then show ?thesis by (simp add: filter_empty_conv)
  qed
  then show "stable_segment K y (A @ P @ B) = stable_segment K y (P @ ssort K (A @ B))"
    by (simp add: stable_sort)
qed (simp add: add.left_commute)

lemma ssort_take_back:
  assumes "ssorted K P" "\<forall>p \<in> set P. \<forall>b \<in> set B. compare K b p = Less"
    "\<forall>p \<in> set P. \<forall>a \<in> set A. compare K a p \<noteq> Greater"
  shows "ssort K (A @ P @ B) = ssort K (A @ B) @ P"
proof (rule sort_eqI)
  show "ssorted K (ssort K (A @ B) @ P)"
    using assms by (auto simp: sorted_append_iff)
  fix y
  have "stable_segment K y P @ stable_segment K y B = stable_segment K y B @ stable_segment K y P"
  proof (cases "\<exists>p \<in> set P. compare K y p = Equiv")
    case True
    then have "\<forall>b \<in> set B. compare K y b \<noteq> Equiv"
      using assms(2) by (metis comp.distinct(1) compare.sym compare.trans_less_equiv)
    then show ?thesis by (simp add: filter_empty_conv)
  next
    case False
    then show ?thesis by (simp add: filter_empty_conv)
  qed
  then show "stable_segment K y (A @ P @ B) = stable_segment K y (ssort K (A @ B) @ P)"
    by (simp add: stable_sort)
qed (simp add: ac_simps)

lemma ssort_append: "ssort K (ssort K xs @ ssort K ys) = ssort K (xs @ ys)"
  by (rule sort_eqI) (simp_all add: stable_sort)

lemma ssort_insert:
  assumes "ssorted K (L @ R)" "\<forall>x \<in> set L. compare K y x \<noteq> Less" "\<forall>x \<in> set R. compare K y x = Less"
  shows "ssort K (L @ R @ [y]) = L @ y # R"
proof -
  have "ssort K (R @ [y] @ []) = [y] @ ssort K (R @ [])"
    using assms by (intro ssort_take_front) auto
  moreover have "ssort K ([] @ L @ R @ [y]) = L @ ssort K ([] @ R @ [y])"
    using assms by (intro ssort_take_front) (auto simp: sorted_append_iff compare.greater_iff_sym_less)
  ultimately show ?thesis using assms by (simp add: sorted_append_iff ssort_id)
qed

lemma ssort_rev:
  assumes "sorted_wrt (\<lambda>x y. compare K y x = Less) xs"
  shows "ssort K xs = rev xs"
  using assms
proof (induction xs)
  case (Cons x xs)
  have "ssort K ([] @ [x] @ xs) = ssort K ([] @ xs) @ [x]"
    using Cons.prems by (intro ssort_take_back) auto
  then show ?case using Cons by simp
qed simp

lemma ssorted_wrt:
  "ssorted K xs \<longleftrightarrow> sorted_wrt (\<lambda>x y. compare K x y \<noteq> Greater) xs"
  by (induction xs)
    (auto intro: sorted_ConsI dest: sorted_Cons_imp_sorted sorted_Cons_imp_not_less)

subsection \<open>Weakest preconditions\<close>

definition wp :: "bool \<Rightarrow> ('h, 'e, 'a) act \<Rightarrow> ('a \<Rightarrow> bool) \<Rightarrow> bool" where
  "wp N m Q \<longleftrightarrow>
     (\<forall>h. case m h of Inl SortPanic \<Rightarrow> False | Inl (SortErr e) \<Rightarrow> \<not> N | Inr (x, h') \<Rightarrow> Q x)"

lemma wp_ret [simp]: "wp N (sret x) Q \<longleftrightarrow> Q x"
  by (simp add: wp_def sret_def)

lemma wp_bind: "wp N m (\<lambda>x. wp N (f x) Q) \<Longrightarrow> wp N (sbind m f) Q"
  unfolding wp_def sbind_def by (fastforce split: sum.splits sort_err.splits)

lemma wp_mono: "wp N m Q \<Longrightarrow> (\<And>x. Q x \<Longrightarrow> R x) \<Longrightarrow> wp N m R"
  unfolding wp_def by (fastforce split: sum.splits sort_err.splits)

lemma wp_bindI: "wp N m R \<Longrightarrow> (\<And>x. R x \<Longrightarrow> wp N (f x) Q) \<Longrightarrow> wp N (sbind m f) Q"
  by (rule wp_bind) (rule wp_mono)

lemma wp_rd [simp]: "wp N (get_at xs i) Q \<longleftrightarrow> i < length xs \<and> Q (xs ! i)"
  by (simp add: get_at_def) (simp add: wp_def spanic_def)

lemma wp_wr [simp]: "wp N (set_at xs i x) Q \<longleftrightarrow> i < length xs \<and> Q (xs[i := x])"
  by (simp add: set_at_def) (simp add: wp_def spanic_def)

lemma wp_to_usize [simp]: "wp N (to_usize i) Q \<longleftrightarrow> 0 \<le> i \<and> Q (nat i)"
  by (simp add: to_usize_def) (simp add: wp_def spanic_def)

lemma wp_minus_usize [simp]: "wp N (minus_usize a b) Q \<longleftrightarrow> b \<le> a \<and> Q (a - b)"
  by (simp add: minus_usize_def) (simp add: wp_def spanic_def)

lemma wp_rd_int [simp]: "wp N (rd_int xs i) Q \<longleftrightarrow> 0 \<le> i \<and> nat i < length xs \<and> Q (xs ! nat i)"
  unfolding rd_int_def wp_def sbind_def to_usize_def get_at_def sret_def spanic_def
  by (auto split: sum.splits if_splits)

lemma wp_clone_from [simp]:
  "wp N (clone_from w dest n t ct) Q \<longleftrightarrow>
     dest + n \<le> length w \<and> ct + n \<le> length t \<and> Q (take dest w @ region t ct n @ drop (dest + n) w)"
  by (auto simp: clone_from_def wp_def spanic_def sret_def)

subsection \<open>Moving elements\<close>

lemma region_append:
  "region (p @ xs @ q) (length p) (length xs) = xs"
  by (simp add: region_def)

text \<open>After some steps of the loop, the positions done hold the old elements.\<close>

definition moved :: "'a list \<Rightarrow> nat \<Rightarrow> nat \<Rightarrow> nat set \<Rightarrow> 'a list \<Rightarrow> bool" where
  "moved w src dst I v \<longleftrightarrow>
     length v = length w \<and>
     (\<forall>j<length w. v ! j = (if dst \<le> j \<and> j - dst \<in> I then w ! (src + (j - dst)) else w ! j))"

lemma move_loop_up:
  assumes "dst \<le> src" "moved w src dst {..<i} v" "src + n \<le> length w" "i \<le> n"
  shows "wp N (move_loop v src dst [i..<n]) (moved w src dst {..<n})"
  using assms(2-)
proof (induction "n - i" arbitrary: i v)
  case 0
  then show ?case by simp
next
  case (Suc k)
  then have i: "i < n" and up: "[i..<n] = i # [i + 1..<n]" by (auto simp: upt_conv_Cons)
  have "v ! (src + i) = w ! (src + i)"
    using Suc.prems i assms(1) by (auto simp: moved_def)
  then have "moved w src dst {..<i + 1} (v[dst + i := v ! (src + i)])"
    using Suc.prems i assms(1) by (auto simp: moved_def nth_list_update less_Suc_eq)
  note IH = Suc.hyps(1)[OF _ this]
  have "length v = length w" "src + i < length w" "dst + i < length w"
    using Suc.prems assms(1) i by (auto simp: moved_def)
  moreover have "k = n - (i + 1)" "i + 1 \<le> n" using Suc.hyps(2) i by simp_all
  ultimately show ?case
    unfolding up move_loop.simps using IH Suc.prems by (simp add: wp_bind)
qed

lemma move_loop_down:
  assumes "src < dst" "moved w src dst {i..<n} v" "dst + n \<le> length w" "i \<le> n"
  shows "wp N (move_loop v src dst (rev [0..<i])) (moved w src dst {0..<n})"
  using assms(2-)
proof (induction i arbitrary: v)
  case 0
  then show ?case by simp
next
  case (Suc i)
  have "v ! (src + i) = w ! (src + i)"
    using Suc.prems assms(1) by (auto simp: moved_def)
  then have "moved w src dst {i..<n} (v[dst + i := v ! (src + i)])"
    using Suc.prems assms(1) by (auto simp: moved_def nth_list_update)
  moreover have "length v = length w" "src + i < length w" "dst + i < length w"
    using Suc.prems assms(1) by (auto simp: moved_def)
  ultimately show ?case
    using Suc.IH Suc.prems by (simp add: wp_bind)
qed

lemma moved_all:
  assumes "moved w src dst {0..<n} v" "src + n \<le> length w" "dst + n \<le> length w"
  shows "v = take dst w @ region w src n @ drop (dst + n) w"
proof (rule nth_equalityI)
  show "length v = length (take dst w @ region w src n @ drop (dst + n) w)"
    using assms by (simp add: moved_def region_def)
  show "v ! j = (take dst w @ region w src n @ drop (dst + n) w) ! j" if "j < length v" for j
  proof -
    have "length (region w src n) = n" "length (take dst w) = dst" using assms by (simp_all add: region_def)
    then show ?thesis using assms that by (auto simp: moved_def nth_append region_def)
  qed
qed

lemma wp_move_within:
  assumes "src + n \<le> length w" "dst + n \<le> length w"
    and Q: "Q (take dst w @ region w src n @ drop (dst + n) w)"
  shows "wp N (move_within w src dst n) Q"
proof -
  have "wp N (move_within w src dst n) (moved w src dst {0..<n})"
  proof (cases "src < dst")
    case True
    have "moved w src dst {n..<n} w" by (simp add: moved_def)
    then show ?thesis using move_loop_down[OF True, of w n n w] True assms by (simp add: move_within_def)
  next
    case False
    have "moved w src dst {..<0} w" by (simp add: moved_def)
    then show ?thesis using move_loop_up[of dst src w 0 w n] False assms
      by (simp add: move_within_def lessThan_atLeast0)
  qed
  then show ?thesis
    by (rule wp_mono) (use moved_all[OF _ assms(1,2)] Q in auto)
qed

subsection \<open>Searching\<close>

lemma wp_scan:
  assumes probe: "\<And>off. 0 < off \<Longrightarrow> off < mx \<Longrightarrow> wp N (stop off) (\<lambda>b. G \<longrightarrow> b = C off)"
    and small: "mx < 2 ^ 63"
    and start: "0 \<le> lo" "lo < off" "lo < mx" "G \<longrightarrow> lo = 0 \<or> \<not> C lo"
  shows "wp N (gallop_scan stop mx lo off) (\<lambda>(lo, off).
           0 \<le> lo \<and> lo < off \<and> lo < mx \<and> (G \<longrightarrow> (lo = 0 \<or> \<not> C lo) \<and> (off < mx \<longrightarrow> C off)))"
  using assms
proof (induction "scan_left mx off" arbitrary: lo off rule: less_induct)
  case less
  show ?case
  proof (cases "off < mx")
    case True
    then have off: "0 < off" "off < widen mx off" using less.prems widen_less[of off mx] by auto
    have "wp N (if b then sret (lo, off) else gallop_scan stop mx off (widen mx off)) (\<lambda>(lo, off).
        0 \<le> lo \<and> lo < off \<and> lo < mx \<and> (G \<longrightarrow> (lo = 0 \<or> \<not> C lo) \<and> (off < mx \<longrightarrow> C off)))"
      if "G \<longrightarrow> b = C off" for b
      using that True off less.prems less.hyps[OF scan_left_widen[OF True], of off] by auto
    then show ?thesis
      unfolding gallop_scan.simps[of stop mx lo off]
      using True off less.prems by (auto intro!: wp_bindI[OF less.prems(1)[of off]])
  next
    case False
    then show ?thesis using less.prems by (subst gallop_scan.simps) simp
  qed
qed

lemma wp_bisect:
  assumes probe: "\<And>m. 0 \<le> m \<Longrightarrow> m < n \<Longrightarrow> wp N (right m) (\<lambda>b. G \<longrightarrow> b = B m)"
    and mono: "\<And>i j. G \<Longrightarrow> 0 \<le> i \<Longrightarrow> i \<le> j \<Longrightarrow> j < n \<Longrightarrow> B j \<Longrightarrow> B i"
    and start: "0 \<le> lo" "lo \<le> hi" "hi \<le> n"
      "G \<longrightarrow> (\<forall>i. 0 \<le> i \<and> i < lo \<longrightarrow> B i)" "G \<longrightarrow> (\<forall>i. hi \<le> i \<and> i < n \<longrightarrow> \<not> B i)"
  shows "wp N (bisect right lo hi) (\<lambda>k. 0 \<le> k \<and> k \<le> n \<and>
           (G \<longrightarrow> (\<forall>i. 0 \<le> i \<and> i < k \<longrightarrow> B i) \<and> (\<forall>i. k \<le> i \<and> i < n \<longrightarrow> \<not> B i)))"
  using start
proof (induction "nat (hi - lo)" arbitrary: lo hi rule: less_induct)
  case less
  show ?case
  proof (cases "lo < hi")
    case False
    then show ?thesis using less.prems by (subst bisect.simps) auto
  next
    case True
    define m where "m = lo + (hi - lo) div 2"
    have m: "lo \<le> m" "m < hi" using True by (auto simp: m_def)
    have left: "wp N (bisect right (m + 1) hi) (\<lambda>k. 0 \<le> k \<and> k \<le> n \<and>
        (G \<longrightarrow> (\<forall>i. 0 \<le> i \<and> i < k \<longrightarrow> B i) \<and> (\<forall>i. k \<le> i \<and> i < n \<longrightarrow> \<not> B i)))"
      if "G \<longrightarrow> B m"
    proof (rule less.hyps)
      show "G \<longrightarrow> (\<forall>i. 0 \<le> i \<and> i < m + 1 \<longrightarrow> B i)"
        using that m less.prems mono[of _ m] by auto
    qed (use m less.prems in auto)
    have right: "wp N (bisect right lo m) (\<lambda>k. 0 \<le> k \<and> k \<le> n \<and>
        (G \<longrightarrow> (\<forall>i. 0 \<le> i \<and> i < k \<longrightarrow> B i) \<and> (\<forall>i. k \<le> i \<and> i < n \<longrightarrow> \<not> B i)))"
      if "G \<longrightarrow> \<not> B m"
    proof (rule less.hyps)
      show "G \<longrightarrow> (\<forall>i. m \<le> i \<and> i < n \<longrightarrow> \<not> B i)"
        using that m less.prems mono[of m] by auto
    qed (use m less.prems in auto)
    show ?thesis
      unfolding bisect.simps[of right lo hi] Let_def m_def[symmetric]
      using True m less.prems left right
      by (auto intro!: wp_bindI[OF probe[of m]])
  qed
qed

text \<open>A position that splits the indices splits the list.\<close>

lemma search_split:
  assumes "0 \<le> k" "k \<le> int (length xs)"
    and "\<forall>i. 0 \<le> i \<and> i < k \<longrightarrow> B i" "\<forall>i. k \<le> i \<and> i < int (length xs) \<longrightarrow> \<not> B i"
    and B: "\<And>i. B i = P (xs ! nat i)"
  shows "(\<forall>x \<in> set (take (nat k) xs). P x) \<and> (\<forall>x \<in> set (drop (nat k) xs). \<not> P x)"
proof -
  have "P (xs ! i)" if "i < nat k" for i
    using spec[OF assms(3), of "int i"] that B[of "int i"] by auto
  moreover have "\<not> P (xs ! (nat k + i))" if "nat k + i < length xs" for i
    using assms(1) spec[OF assms(4), of "int (nat k + i)"] that B[of "int (nat k + i)"]
    by (simp del: of_nat_add)
  ultimately show ?thesis by (auto simp: in_set_conv_nth)
qed

text \<open>The slice that is searched, between its neighbours.\<close>

lemma slice_nth:
  assumes "a = p @ xs @ q" "0 \<le> i" "i < int (length xs)"
  shows "nat (int (length p) + i) < length a" "a ! nat (int (length p) + i) = xs ! nat i"
    "nat i < length xs"
  using assms by (auto simp: nat_add_distrib nth_append)

lemma sorted_nth:
  assumes "Sorting_Algorithms.sorted K xs" "i \<le> j" "j < length xs"
  shows "compare K (xs ! i) (xs ! j) \<noteq> Greater"
proof (cases "i = j")
  case False
  then have "xs ! j \<in> set (drop (i + 1) xs)"
    using assms(2,3) by (auto simp: in_set_conv_nth intro!: exI[of _ "j - (i + 1)"])
  moreover have "xs = take i xs @ xs ! i # drop (i + 1) xs"
    using assms(2,3) False by (simp add: id_take_nth_drop)
  ultimately show ?thesis
    using assms(1) by (metis sorted_append_iff sorted_Cons_imp_not_less)
qed simp

text \<open>
  Galloping and the search after it, for a predicate that holds up to some position: \<open>B\<close> is what
  the probes decide, and the answer is the number of positions where it holds.
\<close>

lemma wp_gallop_up:
  assumes stop: "\<And>m. 0 \<le> m \<Longrightarrow> m < n \<Longrightarrow> wp N (stop m) (\<lambda>b. G \<longrightarrow> b = (\<not> B m))"
    and hint: "0 \<le> hint" "hint < n" "n < 2 ^ 63" "G \<longrightarrow> B hint"
  shows "wp N (gallop_up stop (n - hint) hint) (\<lambda>(lo, off). - 1 \<le> lo \<and> lo < off \<and> off \<le> n \<and>
           (G \<longrightarrow> (lo = - 1 \<or> B lo) \<and> (off = n \<or> \<not> B off)))"
  unfolding gallop_up_def
proof (rule wp_bindI[OF wp_scan[where C = "\<lambda>off. \<not> B (hint + off)"]])
  show "wp N (stop (hint + off)) (\<lambda>b. G \<longrightarrow> b = (\<not> B (hint + off)))" if "0 < off" "off < n - hint" for off
    using stop that hint by simp
  fix r assume "case r of (lo, off) \<Rightarrow> 0 \<le> lo \<and> lo < off \<and> lo < n - hint \<and>
    (G \<longrightarrow> (lo = 0 \<or> \<not> \<not> B (hint + lo)) \<and> (off < n - hint \<longrightarrow> \<not> B (hint + off)))"
  then show "wp N (case r of (lo, off) \<Rightarrow> let off = if n - hint < off then n - hint else off in
        sret (lo + hint, off + hint))
      (\<lambda>(lo, off). - 1 \<le> lo \<and> lo < off \<and> off \<le> n \<and> (G \<longrightarrow> (lo = - 1 \<or> B lo) \<and> (off = n \<or> \<not> B off)))"
    using hint by (cases r) (auto simp: add.commute)
qed (use hint in auto)

lemma wp_gallop_down:
  assumes stop: "\<And>m. 0 \<le> m \<Longrightarrow> m < n \<Longrightarrow> wp N (stop m) (\<lambda>b. G \<longrightarrow> b = B m)"
    and hint: "0 \<le> hint" "hint < n" "n < 2 ^ 63" "G \<longrightarrow> \<not> B hint"
  shows "wp N (gallop_down stop (hint + 1) hint) (\<lambda>(lo, off). - 1 \<le> lo \<and> lo < off \<and> off \<le> n \<and>
           (G \<longrightarrow> (lo = - 1 \<or> B lo) \<and> (off = n \<or> \<not> B off)))"
  unfolding gallop_down_def
proof (rule wp_bindI[OF wp_scan[where C = "\<lambda>off. B (hint - off)"]])
  show "wp N (stop (hint - off)) (\<lambda>b. G \<longrightarrow> b = B (hint - off))" if "0 < off" "off < hint + 1" for off
    using stop that hint by simp
  fix r assume "case r of (lo, off) \<Rightarrow> 0 \<le> lo \<and> lo < off \<and> lo < hint + 1 \<and>
    (G \<longrightarrow> (lo = 0 \<or> \<not> B (hint - lo)) \<and> (off < hint + 1 \<longrightarrow> B (hint - off)))"
  then show "wp N (case r of (lo, off) \<Rightarrow> let off = if hint + 1 < off then hint + 1 else off in
        sret (hint - off, hint - lo))
      (\<lambda>(lo, off). - 1 \<le> lo \<and> lo < off \<and> off \<le> n \<and> (G \<longrightarrow> (lo = - 1 \<or> B lo) \<and> (off = n \<or> \<not> B off)))"
    using hint by (cases r) auto
qed (use hint in auto)

lemma wp_gallop_finish:
  assumes probe: "\<And>m. 0 \<le> m \<Longrightarrow> m < int (length xs) \<Longrightarrow> wp N (right m) (\<lambda>b. G \<longrightarrow> b = P (xs ! nat m))"
    and mono: "\<And>i j. G \<Longrightarrow> i \<le> j \<Longrightarrow> j < length xs \<Longrightarrow> P (xs ! j) \<Longrightarrow> P (xs ! i)"
    and lo: "- 1 \<le> lo" "lo < off" "off \<le> int (length xs)"
      "G \<longrightarrow> (lo = - 1 \<or> P (xs ! nat lo)) \<and> (off = int (length xs) \<or> \<not> P (xs ! nat off))"
  shows "wp N (sbind (bisect right (lo + 1) off) to_usize) (\<lambda>k. k \<le> length xs \<and>
           (G \<longrightarrow> (\<forall>x \<in> set (take k xs). P x) \<and> (\<forall>x \<in> set (drop k xs). \<not> P x)))"
proof (rule wp_bindI[OF wp_bisect[where n = "int (length xs)" and B = "\<lambda>m. P (xs ! nat m)"]])
  show "P (xs ! nat i)" if "G" "0 \<le> i" "i \<le> j" "j < int (length xs)" "P (xs ! nat j)" for i j
    using mono[OF that(1) nat_mono[OF that(3)]] that by auto
  show "G \<longrightarrow> (\<forall>i. 0 \<le> i \<and> i < lo + 1 \<longrightarrow> P (xs ! nat i))"
  proof (intro impI allI)
    fix i assume "G" "0 \<le> i \<and> i < lo + 1"
    then show "P (xs ! nat i)" using lo mono[of "nat i" "nat lo"] by auto
  qed
  show "G \<longrightarrow> (\<forall>i. off \<le> i \<and> i < int (length xs) \<longrightarrow> \<not> P (xs ! nat i))"
  proof (intro impI allI)
    fix i assume "G" "off \<le> i \<and> i < int (length xs)"
    then show "\<not> P (xs ! nat i)" using lo mono[of "nat off" "nat i"] by (auto simp: nat_mono nat_less_iff)
  qed
  show "wp N (to_usize k) (\<lambda>k. k \<le> length xs \<and>
      (G \<longrightarrow> (\<forall>x \<in> set (take k xs). P x) \<and> (\<forall>x \<in> set (drop k xs). \<not> P x)))"
    if k: "0 \<le> k \<and> k \<le> int (length xs) \<and> (G \<longrightarrow> (\<forall>i. 0 \<le> i \<and> i < k \<longrightarrow> P (xs ! nat i)) \<and>
      (\<forall>i. k \<le> i \<and> i < int (length xs) \<longrightarrow> \<not> P (xs ! nat i)))" for k
  proof -
    have "(\<forall>x \<in> set (take (nat k) xs). P x) \<and> (\<forall>x \<in> set (drop (nat k) xs). \<not> P x)" if "G"
      by (rule search_split[where B = "\<lambda>m. P (xs ! nat m)"]) (use that k in simp_all)
    moreover have "0 \<le> k" "nat k \<le> length xs" using conjunct1[OF k] conjunct1[OF conjunct2[OF k]] by simp_all
    ultimately show ?thesis by simp
  qed
qed (use lo probe in auto)

text \<open>The two parts together; \<open>scan\<close> gallops up or down from the hint.\<close>

lemma wp_gallop_search:
  assumes up: "\<And>m. 0 \<le> m \<Longrightarrow> m < int (length xs) \<Longrightarrow> wp N (up m) (\<lambda>b. G \<longrightarrow> b = (\<not> P (xs ! nat m)))"
    and down: "\<And>m. 0 \<le> m \<Longrightarrow> m < int (length xs) \<Longrightarrow> wp N (down m) (\<lambda>b. G \<longrightarrow> b = P (xs ! nat m))"
    and right: "\<And>m. 0 \<le> m \<Longrightarrow> m < int (length xs) \<Longrightarrow> wp N (right m) (\<lambda>b. G \<longrightarrow> b = P (xs ! nat m))"
    and mono: "\<And>i j. G \<Longrightarrow> i \<le> j \<Longrightarrow> j < length xs \<Longrightarrow> P (xs ! j) \<Longrightarrow> P (xs ! i)"
    and hint: "hint < length xs" "length xs < 2 ^ 63" "G \<longrightarrow> b = P (xs ! hint)"
    and scan: "scan = (if b then gallop_up up (int (length xs) - int hint) (int hint)
                       else gallop_down down (int hint + 1) (int hint))"
  shows "wp N (sbind scan (\<lambda>(lo, off). sbind (bisect right (lo + 1) off) to_usize)) (\<lambda>k. k \<le> length xs \<and>
           (G \<longrightarrow> (\<forall>x \<in> set (take k xs). P x) \<and> (\<forall>x \<in> set (drop k xs). \<not> P x)))"
proof (rule wp_bindI[where R = "\<lambda>(lo, off). - 1 \<le> lo \<and> lo < off \<and> off \<le> int (length xs) \<and>
    (G \<longrightarrow> (lo = - 1 \<or> P (xs ! nat lo)) \<and> (off = int (length xs) \<or> \<not> P (xs ! nat off)))"])
  show "wp N scan (\<lambda>(lo, off). - 1 \<le> lo \<and> lo < off \<and> off \<le> int (length xs) \<and>
      (G \<longrightarrow> (lo = - 1 \<or> P (xs ! nat lo)) \<and> (off = int (length xs) \<or> \<not> P (xs ! nat off))))"
    unfolding scan using hint
    by (auto intro!: wp_gallop_up[where B = "\<lambda>m. P (xs ! nat m)"] up
        wp_gallop_down[where B = "\<lambda>m. P (xs ! nat m)"] down)
  fix r assume r: "case r of (lo, off) \<Rightarrow> - 1 \<le> lo \<and> lo < off \<and> off \<le> int (length xs) \<and>
    (G \<longrightarrow> (lo = - 1 \<or> P (xs ! nat lo)) \<and> (off = int (length xs) \<or> \<not> P (xs ! nat off)))"
  obtain lo off where lo: "r = (lo, off)" by (cases r)
  show "wp N (case r of (lo, off) \<Rightarrow> sbind (bisect right (lo + 1) off) to_usize)
    (\<lambda>k. k \<le> length xs \<and> (G \<longrightarrow> (\<forall>x \<in> set (take k xs). P x) \<and> (\<forall>x \<in> set (drop k xs). \<not> P x)))"
    unfolding lo prod.case by (rule wp_gallop_finish[where P = P]) (use right mono r lo in auto)
qed

subsection \<open>What a comparison promises\<close>

text \<open>
  \<open>c\<close> never leaves the slice by itself. Under \<open>N\<close> it returns for all values in \<open>S\<close>, in whatever
  state it is run; under \<open>G\<close> what it returns is the answer of the comparator \<open>K\<close>.
\<close>

locale compare_laws =
  fixes c :: "('h, 'e, 'v) compare" and N :: bool and G :: bool and K :: "'v comparator" and S :: "'v set"
  assumes no_panic: "c x y h \<noteq> Inl SortPanic"
    and returns: "N \<Longrightarrow> x \<in> S \<Longrightarrow> y \<in> S \<Longrightarrow> \<exists>r h'. c x y h = Inr (r, h')"
    and answers: "G \<Longrightarrow> x \<in> S \<Longrightarrow> y \<in> S \<Longrightarrow> c x y h = Inr (r, h') \<Longrightarrow>
      less_zero r = (compare K x y = Less) \<and> not_less_zero r = (compare K x y \<noteq> Less)"
begin

lemma wp_compare:
  assumes "x \<in> S" "y \<in> S"
  shows "wp N (c x y) (\<lambda>r. G \<longrightarrow> less_zero r = (compare K x y = Less) \<and> not_less_zero r = (compare K x y \<noteq> Less))"
proof -
  have "case c x y h of Inl SortPanic \<Rightarrow> False | Inl (SortErr e) \<Rightarrow> \<not> N
      | Inr (r, h') \<Rightarrow> G \<longrightarrow> less_zero r = (compare K x y = Less) \<and> not_less_zero r = (compare K x y \<noteq> Less)" for h
    using no_panic[of x y h] returns[OF _ assms, of h] answers[OF _ assms, of h]
    by (auto split: sum.split sort_err.split)
  then show ?thesis by (simp add: wp_def)
qed

lemma wp_probe_left:
  assumes "0 \<le> base + m" "nat (base + m) < length w" "w ! nat (base + m) = x" "x \<in> S" "y \<in> S"
    and f: "\<And>r. (G \<longrightarrow> less_zero r = (compare K x y = Less) \<and> not_less_zero r = (compare K x y \<noteq> Less)) \<Longrightarrow> Q (f r)"
  shows "wp N (probe_left c w y base f m) Q"
  unfolding probe_left_def using assms by (intro wp_bind) (auto intro!: wp_bindI[OF wp_compare])

lemma wp_probe_right:
  assumes "0 \<le> base + m" "nat (base + m) < length w" "w ! nat (base + m) = x" "x \<in> S" "y \<in> S"
    and f: "\<And>r. (G \<longrightarrow> less_zero r = (compare K y x = Less) \<and> not_less_zero r = (compare K y x \<noteq> Less)) \<Longrightarrow> Q (f r)"
  shows "wp N (probe_right c w y base f m) Q"
  unfolding probe_right_def using assms by (intro wp_bind) (auto intro!: wp_bindI[OF wp_compare])

lemma wp_gallop_left:
  assumes a: "a = p @ xs @ q" "base = length p" "len = length xs"
    and S: "set xs \<subseteq> S" "y \<in> S" and hint: "hint < len" and small: "len < 2 ^ 63"
    and sorted: "G \<longrightarrow> Sorting_Algorithms.sorted K xs"
  shows "wp N (gallop_left c a y base len hint) (\<lambda>k. k \<le> len \<and>
    (G \<longrightarrow> (\<forall>x \<in> set (take k xs). compare K x y = Less) \<and> (\<forall>x \<in> set (drop k xs). compare K x y \<noteq> Less)))"
proof -
  let ?P = "\<lambda>x. compare K x y = Less"
  have probe: "wp N (probe_left c a y (int base) f m) Q"
    if "0 \<le> m" "m < int len" "\<And>r. (G \<longrightarrow> less_zero r = ?P (xs ! nat m) \<and> not_less_zero r = (\<not> ?P (xs ! nat m))) \<Longrightarrow> Q (f r)"
    for m f Q
  proof (rule wp_probe_left[where x = "xs ! nat m"])
    show "nat (int base + m) < length a" "a ! nat (int base + m) = xs ! nat m"
      using slice_nth[OF a(1) that(1)] that(2) a by simp_all
    show "xs ! nat m \<in> S" using slice_nth(3)[OF a(1) that(1)] that(2) a(3) S(1) by (auto dest: nth_mem)
  qed (use that S in auto)
  have mono: "?P (xs ! i)" if "G" "i \<le> j" "j < length xs" "?P (xs ! j)" for i j
    using sorted_nth[of K xs i j] sorted that
    by (metis compare.trans_equiv_less compare.trans_less comp.exhaust)
  show ?thesis
    unfolding gallop_left_def Let_def a(3)
  proof (rule wp_bindI[where R = "\<lambda>b. G \<longrightarrow> b = ?P (xs ! hint)"], goal_cases)
    case 1
    show ?case by (rule probe) (use hint a(3) in auto)
  next
    case (2 b)
    show ?case
    proof (rule wp_gallop_search[where P = ?P and b = "b" and hint = hint])
      show "G \<longrightarrow> (b) = ?P (xs ! hint)" using 2 by auto
    qed (use hint small a(3) in \<open>auto intro: probe mono\<close>)
  qed
qed

lemma wp_gallop_right:
  assumes a: "a = p @ xs @ q" "base = length p" "len = length xs"
    and S: "set xs \<subseteq> S" "y \<in> S" and hint: "hint < len" and small: "len < 2 ^ 63"
    and sorted: "G \<longrightarrow> Sorting_Algorithms.sorted K xs"
  shows "wp N (gallop_right c a y base len hint) (\<lambda>k. k \<le> len \<and>
    (G \<longrightarrow> (\<forall>x \<in> set (take k xs). compare K y x \<noteq> Less) \<and> (\<forall>x \<in> set (drop k xs). compare K y x = Less)))"
proof -
  let ?P = "\<lambda>x. compare K y x \<noteq> Less"
  have probe: "wp N (probe_right c a y (int base) f m) Q"
    if "0 \<le> m" "m < int len" "\<And>r. (G \<longrightarrow> less_zero r = (\<not> ?P (xs ! nat m)) \<and> not_less_zero r = ?P (xs ! nat m)) \<Longrightarrow> Q (f r)"
    for m f Q
  proof (rule wp_probe_right[where x = "xs ! nat m"])
    show "nat (int base + m) < length a" "a ! nat (int base + m) = xs ! nat m"
      using slice_nth[OF a(1) that(1)] that(2) a by simp_all
    show "xs ! nat m \<in> S" using slice_nth(3)[OF a(1) that(1)] that(2) a(3) S(1) by (auto dest: nth_mem)
  qed (use that S in auto)
  have mono: "?P (xs ! i)" if "G" "i \<le> j" "j < length xs" "?P (xs ! j)" for i j
    using sorted_nth[of K xs i j] sorted that
    by (metis compare.trans_less_equiv compare.trans_less comp.exhaust)
  show ?thesis
    unfolding gallop_right_def Let_def a(3)
  proof (rule wp_bindI[where R = "\<lambda>b. G \<longrightarrow> b = (\<not> ?P (xs ! hint))"], goal_cases)
    case 1
    show ?case by (rule probe) (use hint a(3) in auto)
  next
    case (2 b)
    show ?case
    proof (rule wp_mono, rule wp_gallop_search[where P = ?P and b = "\<not> b" and hint = hint])
      show "G \<longrightarrow> (\<not> b) = ?P (xs ! hint)" using 2 by auto
      show "?P (xs ! i)" if "G" "i \<le> j" "j < length xs" "?P (xs ! j)" for i j
        using mono[OF that] .
    qed (use hint small a(3) in \<open>auto intro: probe\<close>)
  qed
qed

end

end
