(* ===== verification/PayloadMerge.thy ===== *)
theory PayloadMerge
  imports PayloadGallop
begin

text \<open>
  The merges of \<open>PayloadSort\<close>. While \<open>merge_low\<close> runs, the slice is made of what has been merged,
  a gap as long as what is left of the left run (which waits in \<open>tmp\<close>), and what is left of the
  right run; for \<open>merge_high\<close> it is the mirror image. Every step takes elements off one of the
  runs in a way that keeps the stable sort of the two.
\<close>

lemma wp_rdI: "i < length xs \<and> xs ! i = x \<Longrightarrow> wp N (f x) Q \<Longrightarrow> wp N (sbind (get_at xs i) f) Q"
  by (rule wp_bind) simp

lemma wp_if: "(b \<Longrightarrow> wp N m Q) \<Longrightarrow> (\<not> b \<Longrightarrow> wp N n Q) \<Longrightarrow> wp N (if b then m else n) Q"
  by simp

lemma wp_minusI: "b \<le> a \<Longrightarrow> wp N (f (a - b)) Q \<Longrightarrow> wp N (sbind (minus_usize a b) f) Q"
  by (rule wp_bind) simp

lemma wp_case_prod:
  "(\<And>a b. x = (a, b) \<Longrightarrow> wp N (f a b) Q) \<Longrightarrow> wp N (case x of (a, b) \<Rightarrow> f a b) Q"
  by (cases x) simp

lemma wp_post: "wp N m Q \<Longrightarrow> post m P \<Longrightarrow> wp N m (\<lambda>x. Q x \<and> P x)"
  unfolding wp_def post_def by (fastforce split: sum.splits sort_err.splits)

lemma wp_case_flow:
  "(\<And>e s. r = Break e s \<Longrightarrow> wp N (f e s) Q) \<Longrightarrow> (\<And>x. r = Past x \<Longrightarrow> wp N (g x) Q) \<Longrightarrow>
   wp N (case r of Break e s \<Rightarrow> f e s | Past x \<Rightarrow> g x) Q"
  by (cases r) simp_all

context compare_laws
begin

text \<open>What a merge must do to the elements \<open>xs\<close> between \<open>pre\<close> and \<open>suf\<close>.\<close>

definition sorts_to :: "'v list \<Rightarrow> 'v list \<Rightarrow> bool" where
  "sorts_to xs ys \<longleftrightarrow> mset ys = mset xs \<and> (G \<longrightarrow> ys = ssort K xs)"

definition merged :: "'v list \<Rightarrow> 'v list \<Rightarrow> 'v list \<Rightarrow> 'v list \<Rightarrow> bool" where
  "merged pre xs suf w \<longleftrightarrow> (\<exists>ys. w = pre @ ys @ suf \<and> sorts_to xs ys)"

subsection \<open>From the left\<close>

text \<open>What is left of the two runs, and what has been taken.\<close>

definition taking :: "'v list \<Rightarrow> 'v list \<Rightarrow> 'v list \<Rightarrow> 'v list \<Rightarrow> bool" where
  "taking xs out A B \<longleftrightarrow>
     mset out + mset A + mset B = mset xs \<and> set xs \<subseteq> S \<and> length xs < 2 ^ 63 \<and>
     (G \<longrightarrow> ssort K xs = out @ ssort K (A @ B) \<and> ssorted K A \<and> ssorted K B \<and>
        (A \<noteq> [] \<longrightarrow> (\<forall>b \<in> set B. compare K b (last A) = Less)))"

lemma taking_sets:
  assumes "taking xs out A B"
  shows "set A \<subseteq> S" "set B \<subseteq> S" "length A < 2 ^ 63" "length B < 2 ^ 63"
proof -
  have m: "mset out + mset A + mset B = mset xs" and x: "set xs \<subseteq> S" "length xs < 2 ^ 63"
    using assms by (auto simp: taking_def)
  from arg_cong[OF m, of set_mset] show "set A \<subseteq> S" "set B \<subseteq> S" using x by auto
  from arg_cong[OF m, of size] show "length A < 2 ^ 63" "length B < 2 ^ 63" using x by auto
qed

lemma taking_a:
  assumes "taking xs out (P @ A) B" "G \<longrightarrow> (\<forall>p \<in> set P. \<forall>b \<in> set B. compare K b p \<noteq> Less)"
  shows "taking xs (out @ P) A B"
proof -
  note t = assms(1)[unfolded taking_def]
  have "ssort K ([] @ P @ A @ B) = P @ ssort K ([] @ A @ B)" if "G"
    using t assms(2) that
    by (intro ssort_take_front) (auto simp: sorted_append_iff compare.greater_iff_sym_less)
  then show ?thesis using t by (auto simp: taking_def sorted_append_iff ac_simps)
qed

lemma taking_b:
  assumes "taking xs out A (P @ B)" "G \<longrightarrow> (\<forall>p \<in> set P. \<forall>a \<in> set A. compare K p a = Less)"
  shows "taking xs (out @ P) A B"
proof -
  note t = assms(1)[unfolded taking_def]
  have "ssort K (A @ P @ B) = P @ ssort K (A @ B)" if "G"
    using t assms(2) that by (intro ssort_take_front) (auto simp: sorted_append_iff)
  then show ?thesis using t by (auto simp: taking_def sorted_append_iff ac_simps)
qed

definition low_at :: "'v list \<Rightarrow> 'v list \<Rightarrow> 'v list \<Rightarrow> 'v low \<Rightarrow> 'v list \<Rightarrow> 'v list \<Rightarrow> 'v list \<Rightarrow> 'v list \<Rightarrow> bool" where
  "low_at pre suf tmp s out A gap B \<longleftrightarrow>
     lw s = pre @ out @ gap @ B @ suf \<and> ldest s = length pre + length out \<and>
     lcb s = ldest s + length A \<and> length gap = length A \<and> lna s = length A \<and> lnb s = length B \<and>
     drop (lct s) tmp = A \<and> lct s \<le> length tmp"

lemma low_at_gallop [simp]: "low_at pre suf tmp (s\<lparr>lgallop := n\<rparr>) = low_at pre suf tmp s"
  by (simp add: low_at_def fun_eq_iff)

lemma low_at_reads:
  assumes "low_at pre suf tmp s out A gap B"
  shows "B \<noteq> [] \<Longrightarrow> lcb s < length (lw s) \<and> lw s ! lcb s = hd B"
    "A \<noteq> [] \<Longrightarrow> lct s < length tmp \<and> tmp ! lct s = hd A"
proof -
  show "lcb s < length (lw s) \<and> lw s ! lcb s = hd B" if "B \<noteq> []"
    using assms that by (auto simp: low_at_def nth_append hd_conv_nth)
  show "lct s < length tmp \<and> tmp ! lct s = hd A" if "A \<noteq> []"
    using assms that by (auto simp: low_at_def hd_drop_conv_nth)
qed

lemma wp_low_take_b:
  assumes "low_at pre suf tmp s out A gap (b # B)" "A \<noteq> []"
    and Q: "\<And>s' gap'. low_at pre suf tmp s' (out @ [b]) A gap' B \<Longrightarrow> Q s'"
  shows "wp N (low_take_b s b) Q"
proof -
  obtain g gs where gap: "gap = g # gs" using assms by (cases gap) (auto simp: low_at_def)
  have "(lw s)[ldest s := b] = pre @ (out @ [b]) @ (gs @ [b]) @ B @ suf"
    using assms(1) gap by (simp add: low_at_def list_update_append)
  then have s': "low_at pre suf tmp (s\<lparr>lw := (lw s)[ldest s := b], ldest := ldest s + 1,
      lcb := lcb s + 1, lnb := lnb s - 1\<rparr>) (out @ [b]) A (gs @ [b]) B"
    using assms(1) gap by (simp add: low_at_def)
  have "ldest s < length (lw s)" "1 \<le> lnb s" using assms(1) gap by (simp_all add: low_at_def)
  with Q[OF s'] show ?thesis unfolding low_take_b_def by (simp add: wp_bind)
qed

lemma wp_low_take_a:
  assumes "low_at pre suf tmp s out (a # A) gap B"
    and Q: "\<And>s' gap'. low_at pre suf tmp s' (out @ [a]) A gap' B \<Longrightarrow> Q s'"
  shows "wp N (low_take_a s a) Q"
proof -
  obtain g gs where gap: "gap = g # gs" using assms by (cases gap) (auto simp: low_at_def)
  have "(lw s)[ldest s := a] = pre @ (out @ [a]) @ gs @ B @ suf"
    using assms(1) gap by (simp add: low_at_def list_update_append)
  moreover have "drop (lct s + 1) tmp = A"
    using assms(1) by (metis Suc_eq_plus1 drop_Suc list.sel(3) low_at_def tl_drop)
  moreover have "lct s < length tmp" using assms(1) by (auto simp: low_at_def intro: ccontr)
  ultimately have s': "low_at pre suf tmp (s\<lparr>lw := (lw s)[ldest s := a], ldest := ldest s + 1,
      lct := lct s + 1, lna := lna s - 1\<rparr>) (out @ [a]) A gs B"
    using assms(1) gap by (simp add: low_at_def)
  have "ldest s < length (lw s)" "1 \<le> lna s" using assms(1) gap by (simp_all add: low_at_def)
  with Q[OF s'] show ?thesis unfolding low_take_a_def by (simp add: wp_bind)
qed

text \<open>The states between steps: both runs wait, or the labelled block has been left.\<close>

definition low_open :: "'v list \<Rightarrow> 'v list \<Rightarrow> 'v list \<Rightarrow> 'v list \<Rightarrow> 'v low \<Rightarrow> bool" where
  "low_open pre suf tmp xs s \<longleftrightarrow>
     (\<exists>out A gap B. low_at pre suf tmp s out A gap B \<and> taking xs out A B \<and> 1 < length A \<and> B \<noteq> [])"

definition low_closed :: "'v list \<Rightarrow> 'v list \<Rightarrow> 'v list \<Rightarrow> 'v list \<Rightarrow> merge_end \<Rightarrow> 'v low \<Rightarrow> bool" where
  "low_closed pre suf tmp xs e s \<longleftrightarrow>
     (\<exists>out A gap B. low_at pre suf tmp s out A gap B \<and> taking xs out A B \<and>
        (case e of Succeed \<Rightarrow> A = [] \<or> B = [] | CopyRest \<Rightarrow> length A = 1))"

definition low_flow :: "'v list \<Rightarrow> 'v list \<Rightarrow> 'v list \<Rightarrow> 'v list \<Rightarrow> ('v low, 'v low \<times> 'x) leaving \<Rightarrow> bool" where
  "low_flow pre suf tmp xs r \<longleftrightarrow>
     (case r of Break e s \<Rightarrow> low_closed pre suf tmp xs e s | Past (s, x) \<Rightarrow> low_open pre suf tmp xs s)"

lemma hd_least:
  assumes "G" "ssorted K A" "A \<noteq> []" "compare K b (hd A) = Less" "a \<in> set A"
  shows "compare K b a = Less"
proof (cases A)
  case (Cons x xs)
  then show ?thesis
    using assms sorted_Cons_imp_not_less[of K x xs a]
    by (cases "a = x") (auto, metis comp.exhaust compare.trans_less compare.trans_less_equiv)
qed (use assms in simp)

lemma hd_least':
  assumes "G" "ssorted K B" "B \<noteq> []" "compare K (hd B) a \<noteq> Less" "b \<in> set B"
  shows "compare K b a \<noteq> Less"
proof (cases B)
  case (Cons x xs)
  then show ?thesis
    using assms sorted_Cons_imp_not_less[of K x xs b]
    by (cases "b = x") (auto, metis comp.exhaust compare.trans_less compare.trans_equiv_less)
qed (use assms in simp)

lemma wp_low_pairs:
  assumes "low_open pre suf tmp xs s"
  shows "wp N (low_pairs c tmp mg s wa wb) (low_flow pre suf tmp xs)"
  using assms
proof (induction "lna s + lnb s" arbitrary: s wa wb rule: less_induct)
  case less
  then obtain out A gap B where l: "low_at pre suf tmp s out A gap B"
    and t: "taking xs out A B" and len: "1 < length A" "B \<noteq> []"
    by (auto simp: low_open_def)
  obtain a A' where A: "A = a # A'" using len by (cases A) auto
  obtain b B' where B: "B = b # B'" using len by (cases B) auto
  have reads: "lcb s < length (lw s)" "lw s ! lcb s = b" "lct s < length tmp" "tmp ! lct s = a"
    using low_at_reads[OF l] A B by auto
  have inS: "a \<in> S" "b \<in> S" using taking_sets[OF t] A B by auto
  have sorted: "ssorted K A \<and> ssorted K B" if "G" using t[unfolded taking_def] that by simp
  have sizes: "lna s = length A" "lnb s = length B" using l by (simp_all add: low_at_def)
  have take_b: "wp N (sbind (low_take_b s b) (\<lambda>s.
      if lnb s = 0 then sret (Break Succeed s)
      else if mg \<le> wb + 1 then sret (Past (s, 0, wb + 1))
      else low_pairs c tmp mg s 0 (wb + 1))) (low_flow pre suf tmp xs)"
    if less_b: "G \<longrightarrow> compare K b a = Less"
  proof (rule wp_bind, rule wp_low_take_b[OF l[unfolded B]])
    fix s' gap' assume l': "low_at pre suf tmp s' (out @ [b]) A gap' B'"
    have t': "taking xs (out @ [b]) A B'"
      using taking_b[of xs out A "[b]" B'] t B A hd_least[of A b] sorted less_b by auto
    have open': "low_open pre suf tmp xs s'" if "B' \<noteq> []"
      using l' t' that len by (auto simp: low_open_def)
    have "lna s' = length A" "lnb s' = length B'" using l' by (simp_all add: low_at_def)
    then show "wp N (if lnb s' = 0 then sret (Break Succeed s')
        else if mg \<le> wb + 1 then sret (Past (s', 0, wb + 1))
        else low_pairs c tmp mg s' 0 (wb + 1)) (low_flow pre suf tmp xs)"
      using l' t' open' less.hyps[of s'] sizes B by (auto simp: low_flow_def low_closed_def)
  qed (use A in simp)
  have take_a: "wp N (sbind (low_take_a s a) (\<lambda>s.
      if lna s = 1 then sret (Break CopyRest s)
      else if mg \<le> wa + 1 then sret (Past (s, wa + 1, 0))
      else low_pairs c tmp mg s (wa + 1) 0)) (low_flow pre suf tmp xs)"
    if less_a: "G \<longrightarrow> compare K b a \<noteq> Less"
  proof (rule wp_bind, rule wp_low_take_a[OF l[unfolded A]])
    fix s' gap' assume l': "low_at pre suf tmp s' (out @ [a]) A' gap' B"
    have t': "taking xs (out @ [a]) A' B"
      using taking_a[of xs out "[a]" A' B] t B A hd_least'[of B a] sorted less_a by auto
    have n: "lna s' = length A'" "lnb s' = length B" using l' by (simp_all add: low_at_def)
    have open': "low_open pre suf tmp xs s'" if "length A' \<noteq> 1"
    proof -
      have "0 < length A'" using len A by simp
      then have "1 < length A'" using that by linarith
      then show ?thesis using l' t' len unfolding low_open_def by blast
    qed
    show "wp N (if lna s' = 1 then sret (Break CopyRest s')
        else if mg \<le> wa + 1 then sret (Past (s', wa + 1, 0))
        else low_pairs c tmp mg s' (wa + 1) 0) (low_flow pre suf tmp xs)"
      using l' t' open' less.hyps[of s'] sizes n A by (auto simp: low_flow_def low_closed_def)
  qed
  show ?case
    unfolding low_pairs.simps[of c tmp mg s wa wb]
    by (rule wp_rdI, rule conjI[OF reads(1,2)], rule wp_rdI, rule conjI[OF reads(3,4)],
        rule wp_bindI[OF wp_compare[OF inS(2,1)]]) (use take_a take_b in auto)
qed

text \<open>Galloping keeps both facts, and finds the place of the other run's head.\<close>

lemma wp_low_gallop_a:
  assumes l: "low_at pre suf tmp s out A gap B" and t: "taking xs out A B" and len: "A \<noteq> []" "B \<noteq> []"
    and Q: "\<And>wa s' out' A' gap'. low_at pre suf tmp s' out' A' gap' B \<Longrightarrow> taking xs out' A' B \<Longrightarrow>
      length A = wa + length A' \<Longrightarrow> G \<longrightarrow> (\<forall>a \<in> set A'. compare K (hd B) a = Less) \<Longrightarrow> Q (wa, s')"
  shows "wp N (low_gallop_a c tmp s) Q"
proof -
  have tmp: "tmp = take (lct s) tmp @ A @ []" "lct s = length (take (lct s) tmp)" "lna s = length A"
    using l by (auto simp: low_at_def)
  have sorted: "G \<longrightarrow> ssorted K A \<and> ssorted K B" using t[unfolded taking_def] by auto
  have hd: "hd B \<in> S" using taking_sets(2)[OF t] len by auto
  have go: "wp N (if 0 < wa then
        sbind (clone_from (lw s) (ldest s) wa tmp (lct s)) (\<lambda>w. sbind (minus_usize (lna s) wa) (\<lambda>na.
          sret (wa, s\<lparr>lw := w, ldest := ldest s + wa, lct := lct s + wa, lna := na\<rparr>)))
      else sret (wa, s)) Q"
    if wa: "wa \<le> length A" "G \<longrightarrow> (\<forall>x \<in> set (take wa A). compare K (hd B) x \<noteq> Less) \<and>
      (\<forall>x \<in> set (drop wa A). compare K (hd B) x = Less)" for wa
  proof -
    have A: "A = take wa A @ drop wa A" by simp
    have t': "taking xs (out @ take wa A) (drop wa A) B"
    proof (rule taking_a)
      show "taking xs out (take wa A @ drop wa A) B" using t by simp
      show "G \<longrightarrow> (\<forall>p \<in> set (take wa A). \<forall>b \<in> set B. compare K b p \<noteq> Less)"
      proof (intro impI ballI)
        fix p b assume g: "G" and p: "p \<in> set (take wa A)" and b: "b \<in> set B"
        have "compare K (hd B) p \<noteq> Less" using wa(2) g p by blast
        then show "compare K b p \<noteq> Less"
          by (rule hd_least'[OF g conjunct2[OF mp[OF sorted g]] len(2) _ b])
      qed
    qed
    let ?s = "s\<lparr>lw := pre @ (out @ take wa A) @ drop wa gap @ B @ suf, ldest := ldest s + wa,
      lct := lct s + wa, lna := lna s - wa\<rparr>"
    have l': "low_at pre suf tmp ?s (out @ take wa A) (drop wa A) (drop wa gap) B"
      using l wa(1) by (auto simp: low_at_def add.commute)
    have "take (ldest s) (lw s) @ region tmp (lct s) wa @ drop (ldest s + wa) (lw s) =
        pre @ (out @ take wa A) @ drop wa gap @ B @ suf"
      using l wa(1) by (auto simp: low_at_def region_def)
    moreover have "ldest s + wa \<le> length (lw s)" "lct s + wa \<le> length tmp" "wa \<le> lna s"
      using l wa(1) by (auto simp: low_at_def)
    moreover have "Q (wa, ?s)" using Q[OF l' t'] wa by simp
    moreover have "Q (wa, s)" if "wa = 0" using Q[OF l t, of wa] wa that by simp
    ultimately show ?thesis by (auto intro!: wp_bind)
  qed
  show ?thesis
    unfolding low_gallop_a_def
    by (rule wp_rdI, rule low_at_reads(1)[OF l len(2)], rule wp_bindI[OF wp_gallop_right[OF tmp]];
      (rule go)?; use taking_sets[OF t] len sorted tmp(3) hd in simp)
qed

lemma wp_low_gallop_b:
  assumes l: "low_at pre suf tmp s out A gap B" and t: "taking xs out A B" and len: "A \<noteq> []" "B \<noteq> []"
    and Q: "\<And>wb s' out' B' gap'. low_at pre suf tmp s' out' A gap' B' \<Longrightarrow> taking xs out' A B' \<Longrightarrow>
      length B = wb + length B' \<Longrightarrow> G \<longrightarrow> (\<forall>b \<in> set B'. compare K b (hd A) \<noteq> Less) \<Longrightarrow> Q (wb, s')"
  shows "wp N (low_gallop_b c tmp s) Q"
proof -
  have w: "lw s = (pre @ out @ gap) @ B @ suf" "lcb s = length (pre @ out @ gap)" "lnb s = length B"
    using l by (auto simp: low_at_def)
  have sorted: "G \<longrightarrow> ssorted K A \<and> ssorted K B" using t[unfolded taking_def] by auto
  have hd: "hd A \<in> S" using taking_sets(1)[OF t] len by auto
  have go: "wp N (if 0 < wb then
        sbind (move_within (lw s) (lcb s) (ldest s) wb) (\<lambda>w. sbind (minus_usize (lnb s) wb) (\<lambda>nb.
          sret (wb, s\<lparr>lw := w, ldest := ldest s + wb, lcb := lcb s + wb, lnb := nb\<rparr>)))
      else sret (wb, s)) Q"
    if wb: "wb \<le> length B" "G \<longrightarrow> (\<forall>x \<in> set (take wb B). compare K x (hd A) = Less) \<and>
      (\<forall>x \<in> set (drop wb B). compare K x (hd A) \<noteq> Less)" for wb
  proof -
    have t': "taking xs (out @ take wb B) A (drop wb B)"
    proof (rule taking_b)
      show "taking xs out A (take wb B @ drop wb B)" using t by simp
      show "G \<longrightarrow> (\<forall>p \<in> set (take wb B). \<forall>a \<in> set A. compare K p a = Less)"
      proof (intro impI ballI)
        fix p a assume g: "G" and p: "p \<in> set (take wb B)" and a: "a \<in> set A"
        have "compare K p (hd A) = Less" using wb(2) g p by blast
        then show "compare K p a = Less"
          by (rule hd_least[OF g conjunct1[OF mp[OF sorted g]] len(1) _ a])
      qed
    qed
    define rest where "rest = drop wb (gap @ take wb B)"
    let ?w = "pre @ (out @ take wb B) @ rest @ drop wb B @ suf"
    let ?s = "s\<lparr>lw := ?w, ldest := ldest s + wb, lcb := lcb s + wb, lnb := lnb s - wb\<rparr>"
    have l': "low_at pre suf tmp ?s (out @ take wb B) A rest (drop wb B)"
      using l wb(1) by (auto simp: low_at_def rest_def)
    have "drop (wb - length gap) (take wb B @ drop wb B) = drop (wb - length gap) (take wb B) @ drop wb B"
      using wb(1) by (subst drop_append) simp
    then have "drop wb (gap @ B) = rest @ drop wb B" unfolding rest_def by simp
    then have w': "take (ldest s) (lw s) @ region (lw s) (lcb s) wb @ drop (ldest s + wb) (lw s) = ?w"
      using l wb(1) by (auto simp: low_at_def region_def)
    have bounds: "lcb s + wb \<le> length (lw s)" "ldest s + wb \<le> length (lw s)" "wb \<le> lnb s"
      using l wb(1) by (auto simp: low_at_def)
    have q: "Q (wb, ?s)" using Q[OF l' t'] wb by simp
    have "Q (wb, s)" if "wb = 0" using Q[OF l t, of wb] wb that by simp
    then show ?thesis
      using bounds q by (auto intro!: wp_bind wp_move_within simp: w')
  qed
  show ?thesis
    unfolding low_gallop_b_def
    by (rule wp_rdI, rule low_at_reads(2)[OF l len(1)], rule wp_bindI[OF wp_gallop_left[OF w]];
      (rule go)?; use taking_sets[OF t] len sorted w(3) hd in simp)
qed

lemma wp_low_round_a:
  assumes "low_open pre suf tmp xs s"
  shows "wp N (low_round_a c tmp s) (low_flow pre suf tmp xs)"
proof -
  from assms obtain out A gap B where l: "low_at pre suf tmp s out A gap B"
    and t: "taking xs out A B" and len: "1 < length A" "B \<noteq> []"
    by (auto simp: low_open_def)
  show ?thesis
    unfolding low_round_a_def
  proof (rule wp_bind, rule wp_low_gallop_a[OF l t _ len(2)], goal_cases)
    case (2 wa s1 out1 A1 gap1)
    note l1 = 2(1) and t1 = 2(2)
    have n1: "lna s1 = length A1" "lnb s1 = length B" using l1 by (simp_all add: low_at_def)
    obtain b B1 where B: "B = b # B1" using len by (cases B) auto
    show ?case
    proof (cases "0 < wa \<and> lna s1 \<le> 1")
      case True
      then have "lna s1 = 1 \<or> lna s1 = 0" by auto
      then show ?thesis using True l1 t1 n1 by (auto simp: low_flow_def low_closed_def)
    next
      case False
      then have A1: "1 < length A1" using 2(3) len n1 by auto
      have "wp N (low_take_b s1 b) (\<lambda>s. wp N (if lnb s = 0 then sret (Break Succeed s) else sret (Past (s, wa)))
          (low_flow pre suf tmp xs))"
      proof (rule wp_low_take_b[OF l1[unfolded B]])
        fix s2 gap2 assume l2: "low_at pre suf tmp s2 (out1 @ [b]) A1 gap2 B1"
        have "taking xs (out1 @ [b]) A1 B1"
          using taking_b[of xs out1 A1 "[b]" B1] t1 2(4) B by auto
        moreover have "lnb s2 = length B1" using l2 by (simp add: low_at_def)
        ultimately show "wp N (if lnb s2 = 0 then sret (Break Succeed s2) else sret (Past (s2, wa)))
            (low_flow pre suf tmp xs)"
          using l2 A1 by (auto simp: low_flow_def low_closed_def low_open_def)
      qed (use A1 in auto)
      then have go: "wp N (low_take_b s1 (hd B)) (\<lambda>s. wp N (if lnb s = 0 then sret (Break Succeed s)
          else sret (Past (s, wa))) (low_flow pre suf tmp xs))" using B by simp
      show ?thesis
        unfolding prod.case
        by (rule wp_if, use False in simp, rule wp_if, use False in simp, rule wp_rdI,
            rule low_at_reads(1)[OF l1 len(2)], rule wp_bind, rule go)
    qed
  qed (use len in auto)
qed

lemma wp_low_round_b:
  assumes "low_open pre suf tmp xs s"
  shows "wp N (low_round_b c tmp s) (low_flow pre suf tmp xs)"
proof -
  from assms obtain out A gap B where l: "low_at pre suf tmp s out A gap B"
    and t: "taking xs out A B" and len: "1 < length A" "B \<noteq> []"
    by (auto simp: low_open_def)
  show ?thesis
    unfolding low_round_b_def
  proof (rule wp_bind, rule wp_low_gallop_b[OF l t _ len(2)], goal_cases)
    case (2 wb s1 out1 B1 gap1)
    note l1 = 2(1) and t1 = 2(2)
    have n1: "lna s1 = length A" "lnb s1 = length B1" using l1 by (simp_all add: low_at_def)
    obtain a A1 where A: "A = a # A1" "A1 \<noteq> []" using len by (cases A) auto
    show ?case
    proof (cases "0 < wb \<and> lnb s1 = 0")
      case True
      then show ?thesis using l1 t1 n1 by (auto simp: low_flow_def low_closed_def)
    next
      case False
      then have B1: "B1 \<noteq> []" using 2(3) len n1 by auto
      have "wp N (low_take_a s1 a) (\<lambda>s. wp N (if lna s = 1 then sret (Break CopyRest s) else sret (Past (s, wb)))
          (low_flow pre suf tmp xs))"
      proof (rule wp_low_take_a[OF l1[unfolded A]])
        fix s2 gap2 assume l2: "low_at pre suf tmp s2 (out1 @ [a]) A1 gap2 B1"
        have "taking xs (out1 @ [a]) A1 B1"
          using taking_a[of xs out1 "[a]" A1 B1] t1 2(4) A by auto
        moreover have "lna s2 = length A1" using l2 by (simp add: low_at_def)
        moreover have "1 < length A1" if "length A1 \<noteq> 1" using that A(2) by (cases A1) auto
        ultimately show "wp N (if lna s2 = 1 then sret (Break CopyRest s2) else sret (Past (s2, wb)))
            (low_flow pre suf tmp xs)"
          using l2 B1 by (auto simp: low_flow_def low_closed_def low_open_def)
      qed
      then have go: "wp N (low_take_a s1 (hd A)) (\<lambda>s. wp N (if lna s = 1 then sret (Break CopyRest s)
          else sret (Past (s, wb))) (low_flow pre suf tmp xs))" using A by simp
      show ?thesis
        unfolding prod.case
        by (rule wp_if, use False in simp, rule wp_rdI, rule low_at_reads(2)[OF l1],
            use A in simp, rule wp_bind, rule go)
    qed
  qed (use len in auto)
qed

lemma wp_low_gallops:
  assumes "low_open pre suf tmp xs s" "0 < mg"
  shows "wp N (low_gallops c tmp mg s wa wb first) (low_flow pre suf tmp xs)"
  using assms
proof (induction "lna s + lnb s" arbitrary: s mg wa wb first rule: less_induct)
  case less
  have op: "low_open pre suf tmp xs (s\<lparr>lgallop := n\<rparr>)" for n
    using less.prems(1) by (simp add: low_open_def)
  show ?case
    apply (subst low_gallops.simps)
    apply (rule wp_if)
     apply (rule wp_minusI, use less.prems(2) in simp)
     apply (rule wp_bindI, rule wp_post[OF wp_low_round_a[OF op] low_round_less(1)])
     apply (rule wp_case_flow)
      apply (simp add: low_flow_def)
     apply (rule wp_case_prod)
     apply (rule wp_bindI, rule wp_post[OF wp_low_round_b[of pre suf tmp xs] low_round_less(2)])
      apply (simp add: low_flow_def)
     apply (rule wp_case_flow)
      apply (simp add: low_flow_def)
     apply (rule wp_case_prod)
     apply (rule less.hyps)
       apply (auto simp: low_flow_def low_past_less_def less.prems)
    done
qed

lemma wp_low_loop:
  assumes "low_open pre suf tmp xs s"
  shows "wp N (low_loop c tmp mg s) (\<lambda>(e, s). low_closed pre suf tmp xs e s)"
  using assms
proof (induction "lna s + lnb s" arbitrary: s mg rule: less_induct)
  case less
  show ?case
    apply (subst low_loop.simps)
    apply (rule wp_bindI, rule wp_post[OF wp_low_pairs[OF less.prems] low_pairs_less])
    apply (rule wp_case_flow)
     apply (simp add: low_flow_def)
    apply (rule wp_case_prod)+
    apply (rule wp_bindI, rule wp_post[OF wp_low_gallops[of pre suf tmp xs] low_gallops_less])
      apply (simp_all add: low_flow_def)
    apply (rule wp_case_flow)
     apply (simp add: low_flow_def)
    apply (rule wp_case_prod)
    apply (rule less.hyps)
     apply (auto simp: low_flow_def low_past_less_def low_open_def)
    done
qed

lemma wp_low_finish:
  assumes "low_closed pre suf tmp xs e s"
  shows "wp N (low_finish tmp e s) (merged pre xs suf)"
proof -
  from assms obtain out A gap B where l: "low_at pre suf tmp s out A gap B" and t: "taking xs out A B"
    and e: "case e of Succeed \<Rightarrow> A = [] \<or> B = [] | CopyRest \<Rightarrow> length A = 1"
    by (auto simp: low_closed_def)
  note t = t[unfolded taking_def]
  show ?thesis
  proof (cases e)
    case Succeed
    have "mset xs = mset (out @ A @ B)" using conjunct1[OF t, symmetric] by (simp add: add.assoc)
    moreover have "ssort K xs = out @ A @ B" if "G" using t that e Succeed by (auto simp: ssort_id)
    ultimately have m: "merged pre xs suf (pre @ (out @ A @ B) @ suf)" by (auto simp: merged_def sorts_to_def)
    have "take (ldest s) (lw s) @ region tmp (lct s) (lna s) @ drop (ldest s + lna s) (lw s) =
        pre @ (out @ A @ B) @ suf"
      using l by (auto simp: low_at_def region_def)
    moreover have "ldest s + lna s \<le> length (lw s)" "lct s + lna s \<le> length tmp" using l by (auto simp: low_at_def)
    moreover have "lw s = pre @ (out @ A @ B) @ suf" if "lna s = 0" using l that by (auto simp: low_at_def)
    ultimately show ?thesis using m Succeed by (simp add: low_finish_def)
  next
    case CopyRest
    then obtain a where A: "A = [a]" using e by (cases A) auto
    have "mset xs = mset (out @ B @ [a])" using conjunct1[OF t, symmetric] A by simp
    moreover have "ssort K xs = out @ B @ [a]" if "G"
    proof -
      have "ssort K ([] @ [a] @ B) = ssort K ([] @ B) @ [a]" using t that A by (intro ssort_take_back) auto
      then show ?thesis using t that A by (simp add: ssort_id)
    qed
    ultimately have m: "merged pre xs suf (pre @ (out @ B @ [a]) @ suf)" by (auto simp: merged_def sorts_to_def)
    obtain g where gap: "gap = [g]" using l A by (cases gap) (auto simp: low_at_def)
    have "length (drop (length B) (gap @ B)) = 1" using gap by simp
    then obtain y where y: "drop (length B) (gap @ B) = [y]" by (metis One_nat_def length_0_conv length_Suc_conv)
    have w: "take (ldest s) (lw s) @ region (lw s) (lcb s) (lnb s) @ drop (ldest s + lnb s) (lw s) =
        pre @ out @ B @ [y] @ suf"
      using l A y by (auto simp: low_at_def region_def)
    have "lcb s + lnb s \<le> length (lw s)" "ldest s + lnb s \<le> length (lw s)" using l by (auto simp: low_at_def)
    moreover have "(pre @ out @ B @ [y] @ suf)[ldest s + lnb s := a] = pre @ (out @ B @ [a]) @ suf"
      using l by (simp add: low_at_def list_update_append)
    moreover have "ldest s + lnb s < length (pre @ out @ B @ [y] @ suf)" using l by (simp add: low_at_def)
    moreover have "lct s < length tmp \<and> tmp ! lct s = a" using low_at_reads(2)[OF l] A by simp
    ultimately show ?thesis
      using m CopyRest by (auto simp: low_finish_def w intro!: wp_bind wp_move_within wp_rdI)
  qed
qed

lemma wp_merge_low:
  assumes w: "w = pre @ A @ B @ suf" "base_a = length pre" "len_a = length A"
      "base_b = length pre + length A" "len_b = length B"
    and ne: "A \<noteq> []" "B \<noteq> []" and t: "taking (A @ B) [] A B"
    and first: "G \<longrightarrow> compare K (hd B) (hd A) = Less"
  shows "wp N (merge_low c w base_a len_a base_b len_b mg) (\<lambda>(w', mg'). merged pre (A @ B) suf w')"
proof -
  obtain b B' where B: "B = b # B'" using ne by (cases B) auto
  let ?s = "\<lparr>lw = w, ldest = base_a, lct = 0, lcb = base_b, lna = len_a, lnb = len_b, lgallop = mg\<rparr>"
  have tmp: "region w base_a len_a = A" using w by (simp add: region_def)
  have l: "low_at pre suf A ?s [] A A (b # B')" using w B by (simp add: low_at_def)
  have t': "taking (A @ B) ([] @ [b]) A B'"
  proof (rule taking_b)
    show "taking (A @ B) [] A ([b] @ B')" using t B by simp
    show "G \<longrightarrow> (\<forall>p \<in> set [b]. \<forall>a \<in> set A. compare K p a = Less)"
    proof (intro impI ballI)
      fix p a assume g: "G" and p: "p \<in> set [b]" and a: "a \<in> set A"
      have "ssorted K A" "compare K p (hd A) = Less"
        using t[unfolded taking_def] first g p B by simp_all
      then show "compare K p a = Less" by (intro hd_least[OF g _ ne(1) _ a])
    qed
  qed
  have step: "wp N (low_take_b ?s b) (\<lambda>s. wp N
      (if lnb s = 0 then sret (Succeed, s) else if lna s = 1 then sret (CopyRest, s) else low_loop c A mg s)
      (\<lambda>(e, s). low_closed pre suf A (A @ B) e s))"
  proof (rule wp_low_take_b[OF l ne(1)])
    fix s gap assume s: "low_at pre suf A s ([] @ [b]) A gap B'"
    then have n: "lna s = length A" "lnb s = length B'" by (simp_all add: low_at_def)
    have "low_open pre suf A (A @ B) s" if "length A \<noteq> 1" "B' \<noteq> []"
    proof -
      have "0 < length A" using ne by simp
      then have "1 < length A" using that by linarith
      then show ?thesis using s t' that unfolding low_open_def by blast
    qed
    moreover have "low_closed pre suf A (A @ B) Succeed s" if "B' = []"
      using s t' that unfolding low_closed_def by auto
    moreover have "low_closed pre suf A (A @ B) CopyRest s" if "length A = 1"
      using s t' that unfolding low_closed_def by auto
    ultimately show "wp N (if lnb s = 0 then sret (Succeed, s) else if lna s = 1 then sret (CopyRest, s)
        else low_loop c A mg s) (\<lambda>(e, s). low_closed pre suf A (A @ B) e s)"
      using n wp_low_loop by simp
  qed
  show ?thesis
    unfolding merge_low_def Let_def tmp
    apply (rule wp_if, rule wp_rdI[where x = b])
      apply (use w B in \<open>simp add: nth_append\<close>)
     apply (rule wp_bind, rule wp_mono[OF step], rule wp_bindI, assumption)
     apply (rule wp_case_prod, rule wp_bindI, rule wp_low_finish, simp, simp)
    apply (use w in simp)
    done
qed

end

end
