(* ===== verification/PayloadMergeHigh.thy ===== *)
theory PayloadMergeHigh
  imports PayloadMerge
begin

text \<open>
  \<open>merge_high\<close> of \<open>PayloadSort\<close>: it fills the slice from the right. While it runs, the slice is
  made of what is left of the left run, a gap as long as what is left of the right run (the first
  elements of \<open>tmp\<close>), and what has been merged.
\<close>

lemma wp_rd_intI:
  "0 \<le> i \<and> nat i < length xs \<and> xs ! nat i = x \<Longrightarrow> wp N (f x) Q \<Longrightarrow> wp N (sbind (rd_int xs i) f) Q"
  by (rule wp_bind) simp

lemma wp_usizeI: "0 \<le> i \<Longrightarrow> wp N (f (nat i)) Q \<Longrightarrow> wp N (sbind (to_usize i) f) Q"
  by (rule wp_bind) simp

lemma wp_wr_int: "0 \<le> i \<Longrightarrow> nat i < length xs \<Longrightarrow> Q (xs[nat i := x]) \<Longrightarrow> wp N (wr_int xs i x) Q"
  unfolding wr_int_def by (rule wp_usizeI) simp_all

context compare_laws
begin

definition giving :: "'v list \<Rightarrow> 'v list \<Rightarrow> 'v list \<Rightarrow> 'v list \<Rightarrow> bool" where
  "giving xs A B out \<longleftrightarrow>
     mset A + mset B + mset out = mset xs \<and> set xs \<subseteq> S \<and> length xs < 2 ^ 63 \<and>
     (G \<longrightarrow> ssort K xs = ssort K (A @ B) @ out \<and> ssorted K A \<and> ssorted K B \<and>
        (B \<noteq> [] \<longrightarrow> (\<forall>a \<in> set A. compare K (hd B) a = Less)))"

lemma giving_sets:
  assumes "giving xs A B out"
  shows "set A \<subseteq> S" "set B \<subseteq> S" "length A < 2 ^ 63" "length B < 2 ^ 63"
proof -
  have m: "mset A + mset B + mset out = mset xs" and x: "set xs \<subseteq> S" "length xs < 2 ^ 63"
    using assms by (auto simp: giving_def)
  from arg_cong[OF m, of set_mset] show "set A \<subseteq> S" "set B \<subseteq> S" using x by auto
  from arg_cong[OF m, of size] show "length A < 2 ^ 63" "length B < 2 ^ 63" using x by auto
qed

lemma giving_a:
  assumes "giving xs (A @ P) B out" "G \<longrightarrow> (\<forall>p \<in> set P. \<forall>b \<in> set B. compare K b p = Less)"
  shows "giving xs A B (P @ out)"
proof -
  note t = assms(1)[unfolded giving_def]
  have "ssort K (A @ P @ B) = ssort K (A @ B) @ P" if "G"
    using t assms(2) that by (intro ssort_take_back) (auto simp: sorted_append_iff)
  then show ?thesis using t by (auto simp: giving_def sorted_append_iff ac_simps)
qed

lemma giving_b:
  assumes "giving xs A (B @ P) out" "G \<longrightarrow> (\<forall>p \<in> set P. \<forall>a \<in> set A. compare K a p \<noteq> Greater)"
  shows "giving xs A B (P @ out)"
proof -
  note t = assms(1)[unfolded giving_def]
  have "ssort K ((A @ B) @ P @ []) = ssort K ((A @ B) @ []) @ P" if "G"
    using t assms(2) that by (intro ssort_take_back) (auto simp: sorted_append_iff)
  then show ?thesis using t by (auto simp: giving_def sorted_append_iff ac_simps)
qed

definition high_at :: "'v list \<Rightarrow> 'v list \<Rightarrow> 'v list \<Rightarrow> 'v high \<Rightarrow> 'v list \<Rightarrow> 'v list \<Rightarrow> 'v list \<Rightarrow> 'v list \<Rightarrow> bool" where
  "high_at pre suf tmp s A B gap out \<longleftrightarrow>
     hw s = pre @ A @ gap @ out @ suf \<and> length gap = length B \<and>
     hdest s = int (length pre + length A + length B) - 1 \<and> hca s = int (length pre + length A) - 1 \<and>
     hct s = int (length B) - 1 \<and> hna s = int (length A) \<and> hnb s = int (length B) \<and>
     take (length B) tmp = B \<and> length B \<le> length tmp"

lemma high_at_gallop [simp]: "high_at pre suf tmp (s\<lparr>hgallop := n\<rparr>) = high_at pre suf tmp s"
  by (simp add: high_at_def fun_eq_iff)

lemma high_at_reads:
  assumes "high_at pre suf tmp s A B gap out"
  shows "A \<noteq> [] \<Longrightarrow> 0 \<le> hca s \<and> nat (hca s) < length (hw s) \<and> hw s ! nat (hca s) = last A"
    "B \<noteq> [] \<Longrightarrow> 0 \<le> hct s \<and> nat (hct s) < length tmp \<and> tmp ! nat (hct s) = last B"
proof -
  show "0 \<le> hca s \<and> nat (hca s) < length (hw s) \<and> hw s ! nat (hca s) = last A" if "A \<noteq> []"
  proof -
    from that obtain A0 x where A: "A = A0 @ [x]" by (cases A rule: rev_cases) auto
    have "hca s = int (length (pre @ A0))" "hw s = (pre @ A0) @ x # gap @ out @ suf"
      using assms A by (simp_all add: high_at_def)
    then show ?thesis using A by (simp only: nth_append_length nat_int) simp
  qed
  show "0 \<le> hct s \<and> nat (hct s) < length tmp \<and> tmp ! nat (hct s) = last B" if "B \<noteq> []"
  proof -
    have i: "nat (hct s) = length B - 1" "0 < length B" "length B \<le> length tmp" "hct s = int (length B) - 1"
      using assms that by (auto simp: high_at_def)
    then have "tmp ! nat (hct s) = take (length B) tmp ! (length B - 1)" by simp
    moreover have "take (length B) tmp = B" using assms by (simp add: high_at_def)
    moreover have "length B - 1 < length tmp" using i by linarith
    ultimately show ?thesis using i that by (simp add: last_conv_nth)
  qed
qed

lemma wp_high_take_a:
  assumes "high_at pre suf tmp s (A @ [a]) B gap out" "B \<noteq> []"
    and Q: "\<And>s' gap'. high_at pre suf tmp s' A B gap' (a # out) \<Longrightarrow> Q s'"
  shows "wp N (high_take_a s a) Q"
proof -
  obtain g gs where gap: "gap = gs @ [g]" using assms by (cases gap rule: rev_cases) (auto simp: high_at_def)
  have d: "nat (hdest s) = length (pre @ (A @ [a]) @ gs)" "0 \<le> hdest s"
    using assms(1) gap by (auto simp: high_at_def)
  have "hw s = (pre @ (A @ [a]) @ gs) @ g # out @ suf" using assms(1) gap by (simp add: high_at_def)
  then have "(hw s)[nat (hdest s) := a] = pre @ A @ (a # gs) @ (a # out) @ suf"
    unfolding d(1) by (simp only: list_update_length) simp
  then have s': "high_at pre suf tmp (s\<lparr>hw := (hw s)[nat (hdest s) := a], hdest := hdest s - 1,
      hca := hca s - 1, hna := hna s - 1\<rparr>) A B (a # gs) (a # out)"
    using assms(1) gap by (simp add: high_at_def)
  have "nat (hdest s) < length (hw s)" unfolding d(1) using assms(1) gap by (simp add: high_at_def)
  then show ?thesis unfolding high_take_a_def
    using d(2) Q[OF s'] by (intro wp_bind wp_wr_int) simp_all
qed

lemma wp_high_take_b:
  assumes "high_at pre suf tmp s A (B @ [b]) gap out"
    and Q: "\<And>s' gap'. high_at pre suf tmp s' A B gap' (b # out) \<Longrightarrow> Q s'"
  shows "wp N (high_take_b s b) Q"
proof -
  obtain g gs where gap: "gap = gs @ [g]" using assms by (cases gap rule: rev_cases) (auto simp: high_at_def)
  have d: "nat (hdest s) = length (pre @ A @ gs)" "0 \<le> hdest s"
    using assms(1) gap by (auto simp: high_at_def)
  have "hw s = (pre @ A @ gs) @ g # out @ suf" using assms(1) gap by (simp add: high_at_def)
  then have "(hw s)[nat (hdest s) := b] = pre @ A @ gs @ (b # out) @ suf"
    unfolding d(1) by (simp only: list_update_length) simp
  moreover have "take (length B) tmp = B"
    using assms(1) by (metis append_eq_conv_conj append_take_drop_id high_at_def append.assoc)
  ultimately have s': "high_at pre suf tmp (s\<lparr>hw := (hw s)[nat (hdest s) := b], hdest := hdest s - 1,
      hct := hct s - 1, hnb := hnb s - 1\<rparr>) A B gs (b # out)"
    using assms(1) gap by (simp add: high_at_def)
  have "nat (hdest s) < length (hw s)" unfolding d(1) using assms(1) gap by (simp add: high_at_def)
  then show ?thesis unfolding high_take_b_def
    using d(2) Q[OF s'] by (intro wp_bind wp_wr_int) simp_all
qed

definition high_open :: "'v list \<Rightarrow> 'v list \<Rightarrow> 'v list \<Rightarrow> 'v list \<Rightarrow> 'v high \<Rightarrow> bool" where
  "high_open pre suf tmp xs s \<longleftrightarrow>
     (\<exists>A B gap out. high_at pre suf tmp s A B gap out \<and> giving xs A B out \<and> A \<noteq> [] \<and> 1 < length B)"

definition high_closed :: "'v list \<Rightarrow> 'v list \<Rightarrow> 'v list \<Rightarrow> 'v list \<Rightarrow> merge_end \<Rightarrow> 'v high \<Rightarrow> bool" where
  "high_closed pre suf tmp xs e s \<longleftrightarrow>
     (\<exists>A B gap out. high_at pre suf tmp s A B gap out \<and> giving xs A B out \<and>
        (case e of Succeed \<Rightarrow> A = [] \<or> B = [] | CopyRest \<Rightarrow> length B = 1))"

definition high_flow :: "'v list \<Rightarrow> 'v list \<Rightarrow> 'v list \<Rightarrow> 'v list \<Rightarrow> ('v high, 'v high \<times> 'x) leaving \<Rightarrow> bool" where
  "high_flow pre suf tmp xs r \<longleftrightarrow>
     (case r of Break e s \<Rightarrow> high_closed pre suf tmp xs e s | Past (s, x) \<Rightarrow> high_open pre suf tmp xs s)"

lemma last_greatest:
  assumes "G" "ssorted K B" "B \<noteq> []" "compare K (last B) a = Less" "b \<in> set B"
  shows "compare K b a = Less"
proof -
  have "compare K b (last B) \<noteq> Greater"
    using assms(2,3,5) by (cases B rule: rev_cases) (auto simp: sorted_append_iff)
  then show ?thesis using assms(4) by (metis comp.exhaust compare.trans_less compare.trans_equiv_less)
qed

lemma last_greatest':
  assumes "G" "ssorted K A" "A \<noteq> []" "compare K b (last A) \<noteq> Less" "a \<in> set A"
  shows "compare K a b \<noteq> Greater"
proof -
  have "compare K a (last A) \<noteq> Greater"
    using assms(2,3,5) by (cases A rule: rev_cases) (auto simp: sorted_append_iff)
  moreover have "compare K (last A) b \<noteq> Greater" using assms(4) by (simp add: compare.greater_iff_sym_less)
  ultimately show ?thesis by (metis compare.trans_not_greater)
qed

lemma wp_high_pairs:
  assumes "high_open pre suf tmp xs s"
  shows "wp N (high_pairs c tmp mg s wa wb) (high_flow pre suf tmp xs)"
  using assms
proof (induction "nat (hdest s + 1)" arbitrary: s wa wb rule: less_induct)
  case less
  then obtain A B gap out where l: "high_at pre suf tmp s A B gap out"
    and t: "giving xs A B out" and len: "A \<noteq> []" "1 < length B"
    by (auto simp: high_open_def)
  obtain A' a where A: "A = A' @ [a]" using len by (cases A rule: rev_cases) auto
  obtain B' b where B: "B = B' @ [b]" using len by (cases B rule: rev_cases) auto
  have reads: "0 \<le> hca s \<and> nat (hca s) < length (hw s) \<and> hw s ! nat (hca s) = a"
    "0 \<le> hct s \<and> nat (hct s) < length tmp \<and> tmp ! nat (hct s) = b"
    using high_at_reads[OF l] A B by auto
  have inS: "a \<in> S" "b \<in> S" using giving_sets[OF t] A B by auto
  have sorted: "ssorted K A \<and> ssorted K B" if "G" using t[unfolded giving_def] that by simp
  have dest: "hdest s = int (length pre + length A + length B) - 1" using l by (simp add: high_at_def)
  have less': "nat (hdest s' + 1) < nat (hdest s + 1)" if "hdest s' = hdest s - 1" for s' :: "'v high"
    using that dest len by simp
  have take_a: "wp N (sbind (high_take_a s a) (\<lambda>s.
      if hna s = 0 then sret (Break Succeed s)
      else if mg \<le> wa + 1 then sret (Past (s, wa + 1, 0))
      else high_pairs c tmp mg s (wa + 1) 0)) (high_flow pre suf tmp xs)"
    if less_b: "G \<longrightarrow> compare K b a = Less"
  proof (rule wp_bind, rule wp_high_take_a[OF l[unfolded A]])
    fix s' gap' assume l': "high_at pre suf tmp s' A' B gap' (a # out)"
    have t': "giving xs A' B ([a] @ out)"
    proof (rule giving_a)
      show "giving xs (A' @ [a]) B out" using t A by simp
      show "G \<longrightarrow> (\<forall>p \<in> set [a]. \<forall>b \<in> set B. compare K b p = Less)"
        using last_greatest[of B a] len sorted less_b B by auto
    qed
    have n: "hna s' = int (length A')" "hdest s' = hdest s - 1" using l' dest A by (simp_all add: high_at_def)
    have "high_open pre suf tmp xs s'" if "A' \<noteq> []"
      using l' t' that len by (auto simp: high_open_def)
    then show "wp N (if hna s' = 0 then sret (Break Succeed s')
        else if mg \<le> wa + 1 then sret (Past (s', wa + 1, 0))
        else high_pairs c tmp mg s' (wa + 1) 0) (high_flow pre suf tmp xs)"
      using l' t' less.hyps[OF less'[OF n(2)]] n(1) by (auto simp: high_flow_def high_closed_def)
  qed (use len in auto)
  have take_b: "wp N (sbind (high_take_b s b) (\<lambda>s.
      if hnb s = 1 then sret (Break CopyRest s)
      else if mg \<le> wb + 1 then sret (Past (s, 0, wb + 1))
      else high_pairs c tmp mg s 0 (wb + 1))) (high_flow pre suf tmp xs)"
    if less_a: "G \<longrightarrow> compare K b a \<noteq> Less"
  proof (rule wp_bind, rule wp_high_take_b[OF l[unfolded B]])
    fix s' gap' assume l': "high_at pre suf tmp s' A B' gap' (b # out)"
    have t': "giving xs A B' ([b] @ out)"
    proof (rule giving_b)
      show "giving xs A (B' @ [b]) out" using t B by simp
      show "G \<longrightarrow> (\<forall>p \<in> set [b]. \<forall>a \<in> set A. compare K a p \<noteq> Greater)"
        using last_greatest'[of A b] len sorted less_a A by auto
    qed
    have n: "hnb s' = int (length B')" "hdest s' = hdest s - 1" using l' dest B by (simp_all add: high_at_def)
    have op: "high_open pre suf tmp xs s'" if "length B' \<noteq> 1"
    proof -
      have "0 < length B'" using len B by simp
      then have "1 < length B'" using that by linarith
      then show ?thesis using l' t' len unfolding high_open_def by auto
    qed
    show "wp N (if hnb s' = 1 then sret (Break CopyRest s')
        else if mg \<le> wb + 1 then sret (Past (s', 0, wb + 1))
        else high_pairs c tmp mg s' 0 (wb + 1)) (high_flow pre suf tmp xs)"
      using l' t' op less.hyps[OF less'[OF n(2)]] n(1) by (auto simp: high_flow_def high_closed_def)
  qed
  show ?case
    unfolding high_pairs.simps[of c tmp mg s wa wb]
    by (rule wp_rd_intI, rule reads(2), rule wp_rd_intI, rule reads(1),
        rule wp_bindI[OF wp_compare[OF inS(2,1)]]) (use take_a take_b in auto)
qed

lemma wp_high_gallop_a:
  assumes l: "high_at pre suf tmp s A B gap out" and t: "giving xs A B out" and len: "A \<noteq> []" "B \<noteq> []"
    and Q: "\<And>wa s' A' gap' out'. high_at pre suf tmp s' A' B gap' out' \<Longrightarrow> giving xs A' B out' \<Longrightarrow>
      length A = wa + length A' \<Longrightarrow> G \<longrightarrow> (\<forall>a \<in> set A'. compare K a (last B) \<noteq> Greater) \<Longrightarrow> Q (wa, s')"
  shows "wp N (high_gallop_a c tmp (int (length pre)) s) Q"
proof -
  have w: "hw s = pre @ A @ gap @ out @ suf" "nat (int (length pre)) = length pre" "nat (hna s) = length A"
    using l by (auto simp: high_at_def)
  have sorted: "G \<longrightarrow> ssorted K A \<and> ssorted K B" using t[unfolded giving_def] by auto
  have last: "last B \<in> S" using giving_sets(2)[OF t] len by auto
  have hna: "0 \<le> hna s" "0 \<le> hna s - 1" "nat (hna s - 1) < length A"
    using l len by (auto simp: high_at_def Suc_le_eq nat_less_iff)
  have go: "wp N (sbind (to_usize (hna s - int k)) (\<lambda>wa.
      if 0 < wa then
        let dest = hdest s - int wa; ca = hca s - int wa in
        sbind (to_usize (ca + 1)) (\<lambda>src. sbind (to_usize (dest + 1)) (\<lambda>dst.
        sbind (move_within (hw s) src dst wa) (\<lambda>w.
          sret (wa, s\<lparr>hw := w, hdest := dest, hca := ca, hna := hna s - int wa\<rparr>))))
      else sret (wa, s))) Q"
    if k: "k \<le> length A" "G \<longrightarrow> (\<forall>x \<in> set (take k A). compare K (last B) x \<noteq> Less) \<and>
      (\<forall>x \<in> set (drop k A). compare K (last B) x = Less)" for k
  proof -
    define wa where "wa = length A - k"
    have wa: "hna s - int k = int wa" using l k(1) by (simp add: high_at_def wa_def)
    have t': "giving xs (take k A) B (drop k A @ out)"
    proof (rule giving_a)
      show "giving xs (take k A @ drop k A) B out" using t by simp
      show "G \<longrightarrow> (\<forall>p \<in> set (drop k A). \<forall>b \<in> set B. compare K b p = Less)"
      proof (intro impI ballI)
        fix p b assume g: "G" and p: "p \<in> set (drop k A)" and b: "b \<in> set B"
        have "compare K (last B) p = Less" using k(2) g p by blast
        then show "compare K b p = Less"
          by (rule last_greatest[OF g conjunct2[OF mp[OF sorted g]] len(2) _ b])
      qed
    qed
    define rest where "rest = take (length B) (drop k A @ gap)"
    let ?w = "pre @ take k A @ rest @ (drop k A @ out) @ suf"
    let ?s = "s\<lparr>hw := ?w, hdest := hdest s - int wa, hca := hca s - int wa, hna := hna s - int wa\<rparr>"
    have l': "high_at pre suf tmp ?s (take k A) B rest (drop k A @ out)"
      using l k(1) by (auto simp: high_at_def rest_def wa_def)
    have src: "0 \<le> hca s - int wa + 1" "nat (hca s - int wa + 1) = length pre + k"
      and dst: "0 \<le> hdest s - int wa + 1" "nat (hdest s - int wa + 1) = length pre + k + length B"
      using l k(1) by (auto simp: high_at_def wa_def)
    have "take (length B + k) (A @ gap) = take k A @ rest"
      using k(1) by (simp add: rest_def add.commute take_add flip: take_append)
        (simp add: take_add)
    then have w': "take (length pre + k + length B) (hw s) @ region (hw s) (length pre + k) wa @
        drop (length pre + k + length B + wa) (hw s) = ?w"
      using l k(1) by (auto simp: high_at_def region_def wa_def add.commute)
    have bounds: "length pre + k + wa \<le> length (hw s)" "length pre + k + length B + wa \<le> length (hw s)"
      using l k(1) by (auto simp: high_at_def wa_def)
    have sorted_k: "G \<longrightarrow> (\<forall>a \<in> set (take k A). compare K a (last B) \<noteq> Greater)"
      using k(2) by (simp add: compare.greater_iff_sym_less)
    have "length A = wa + length (take k A)" using k(1) by (simp add: wa_def)
    then have q: "Q (wa, ?s)" by (rule Q[OF l' t' _ sorted_k])
    have q0: "Q (wa, s)" if "wa = 0"
    proof -
      have "k = length A" using that k(1) by (simp add: wa_def)
      then show ?thesis using Q[OF l t, of wa] sorted_k that by simp
    qed
    show ?thesis
      unfolding wa Let_def
      apply (rule wp_usizeI, simp)
      apply (rule wp_if)
       apply (rule wp_usizeI, use src in simp)
       apply (rule wp_usizeI, use dst in simp)
       apply (rule wp_bind, rule wp_move_within)
         apply (use bounds src in simp)
        apply (use bounds dst in simp)
       apply (use q w' src dst in simp)
      apply (use q0 in simp)
      done
  qed
  show ?thesis
    unfolding high_gallop_a_def
    by (rule wp_rd_intI, rule high_at_reads(2)[OF l len(2)], (rule wp_usizeI, use hna in simp)+,
        rule wp_bindI[OF wp_gallop_right[OF w(1)]];
        (rule go)?; use w(2,3) giving_sets[OF t] len hna sorted last in simp)
qed

lemma wp_high_gallop_b:
  assumes l: "high_at pre suf tmp s A B gap out" and t: "giving xs A B out" and len: "A \<noteq> []" "B \<noteq> []"
    and Q: "\<And>wb s' B' gap' out'. high_at pre suf tmp s' A B' gap' out' \<Longrightarrow> giving xs A B' out' \<Longrightarrow>
      length B = wb + length B' \<Longrightarrow> G \<longrightarrow> (\<forall>b \<in> set B'. compare K b (last A) = Less) \<Longrightarrow> Q (wb, s')"
  shows "wp N (high_gallop_b c tmp s) Q"
proof -
  have w: "tmp = [] @ B @ drop (length B) tmp" "0 = length []" "nat (hnb s) = length B"
    using l by (auto simp: high_at_def) (metis append_take_drop_id)
  have sorted: "G \<longrightarrow> ssorted K A \<and> ssorted K B" using t[unfolded giving_def] by auto
  have last: "last A \<in> S" using giving_sets(1)[OF t] len by auto
  have hnb: "0 \<le> hnb s" "0 \<le> hnb s - 1" "nat (hnb s - 1) < length B"
    using l len by (auto simp: high_at_def Suc_le_eq nat_less_iff)
  have go: "wp N (sbind (to_usize (hnb s - int k)) (\<lambda>wb.
      if 0 < wb then
        let dest = hdest s - int wb; ct = hct s - int wb in
        sbind (to_usize (ct + 1)) (\<lambda>s0. sbind (to_usize (dest + 1)) (\<lambda>d0.
        sbind (clone_from (hw s) d0 wb tmp s0) (\<lambda>w.
          sret (wb, s\<lparr>hw := w, hdest := dest, hct := ct, hnb := hnb s - int wb\<rparr>))))
      else sret (wb, s))) Q"
    if k: "k \<le> length B" "G \<longrightarrow> (\<forall>x \<in> set (take k B). compare K x (last A) = Less) \<and>
      (\<forall>x \<in> set (drop k B). compare K x (last A) \<noteq> Less)" for k
  proof -
    define wb where "wb = length B - k"
    have wb: "hnb s - int k = int wb" using l k(1) by (simp add: high_at_def wb_def)
    have t': "giving xs A (take k B) (drop k B @ out)"
    proof (rule giving_b)
      show "giving xs A (take k B @ drop k B) out" using t by simp
      show "G \<longrightarrow> (\<forall>p \<in> set (drop k B). \<forall>a \<in> set A. compare K a p \<noteq> Greater)"
      proof (intro impI ballI)
        fix p a assume g: "G" and p: "p \<in> set (drop k B)" and a: "a \<in> set A"
        have "compare K p (last A) \<noteq> Less" using k(2) g p by blast
        then show "compare K a p \<noteq> Greater"
          by (rule last_greatest'[OF g conjunct1[OF mp[OF sorted g]] len(1) _ a])
      qed
    qed
    let ?w = "pre @ A @ take k gap @ (drop k B @ out) @ suf"
    let ?s = "s\<lparr>hw := ?w, hdest := hdest s - int wb, hct := hct s - int wb, hnb := hnb s - int wb\<rparr>"
    have "take k (take (length B) tmp) = take k B" using l by (simp add: high_at_def)
    then have "take k tmp = take k B" using k(1) by (simp add: min_def)
    then have l': "high_at pre suf tmp ?s A (take k B) (take k gap) (drop k B @ out)"
      using l k(1) by (auto simp: high_at_def wb_def min_def)
    have s0: "0 \<le> hct s - int wb + 1" "nat (hct s - int wb + 1) = k"
      and d0: "0 \<le> hdest s - int wb + 1" "nat (hdest s - int wb + 1) = length pre + length A + k"
      using l k(1) by (auto simp: high_at_def wb_def)
    have "region tmp k wb = drop k B"
      using l k(1) by (auto simp: high_at_def region_def wb_def take_drop)
    then have w': "take (length pre + length A + k) (hw s) @ region tmp k wb @
        drop (length pre + length A + k + wb) (hw s) = ?w"
      using l k(1) by (auto simp: high_at_def wb_def)
    have bounds: "length pre + length A + k + wb \<le> length (hw s)" "k + wb \<le> length tmp"
      using l k(1) by (auto simp: high_at_def wb_def)
    have "length B = wb + length (take k B)" using k(1) by (simp add: wb_def)
    then have q: "Q (wb, ?s)" by (rule Q[OF l' t']) (use k(2) in blast)
    have q0: "Q (wb, s)" if "wb = 0"
    proof -
      have "k = length B" using that k(1) by (simp add: wb_def)
      then show ?thesis using Q[OF l t, of wb] k(2) that by simp
    qed
    show ?thesis
      unfolding wb Let_def
      apply (rule wp_usizeI, simp)
      apply (rule wp_if)
       apply (rule wp_usizeI, use s0 in simp)
       apply (rule wp_usizeI, use d0 in simp)
       apply (rule wp_bind, simp only: wp_clone_from, intro conjI)
         apply (use bounds d0 in simp)
        apply (use bounds s0 in simp)
       apply (use q w' s0 d0 in simp)
      apply (use q0 in simp)
      done
  qed
  show ?thesis
    unfolding high_gallop_b_def
    by (rule wp_rd_intI, rule high_at_reads(1)[OF l len(1)], (rule wp_usizeI, use hnb in simp)+,
        rule wp_bindI[OF wp_gallop_left[OF w(1,2)]];
        (rule go)?; use w(3) giving_sets[OF t] len hnb sorted last in simp)
qed

lemma wp_high_round_a:
  assumes "high_open pre suf tmp xs s"
  shows "wp N (high_round_a c tmp (int (length pre)) s) (high_flow pre suf tmp xs)"
proof -
  from assms obtain A B gap out where l: "high_at pre suf tmp s A B gap out"
    and t: "giving xs A B out" and len: "A \<noteq> []" "1 < length B"
    by (auto simp: high_open_def)
  then have ne: "B \<noteq> []" by auto
  show ?thesis
    unfolding high_round_a_def
  proof (rule wp_bind, rule wp_high_gallop_a[OF l t len(1) ne], goal_cases)
    case (1 wa s1 A1 gap1 out1)
    note l1 = 1(1) and t1 = 1(2)
    have n1: "hna s1 = int (length A1)" using l1 by (simp add: high_at_def)
    obtain B1 b where B: "B = B1 @ [b]" using ne by (cases B rule: rev_cases) auto
    show ?case
    proof (cases "0 < wa \<and> hna s1 = 0")
      case True
      then show ?thesis using l1 t1 n1 by (auto simp: high_flow_def high_closed_def)
    next
      case False
      then have A1: "A1 \<noteq> []" using 1(3) len n1 by auto
      have "wp N (high_take_b s1 b) (\<lambda>s. wp N (if hnb s = 1 then sret (Break CopyRest s) else sret (Past (s, wa)))
          (high_flow pre suf tmp xs))"
      proof (rule wp_high_take_b[OF l1[unfolded B]])
        fix s2 gap2 assume l2: "high_at pre suf tmp s2 A1 B1 gap2 (b # out1)"
        have "giving xs A1 B1 ([b] @ out1)"
          by (rule giving_b) (use t1 1(4) B in auto)
        moreover have "hnb s2 = int (length B1)" using l2 by (simp add: high_at_def)
        moreover have "1 < length B1" if "length B1 \<noteq> 1" using that len(2) B by (cases B1) auto
        ultimately show "wp N (if hnb s2 = 1 then sret (Break CopyRest s2) else sret (Past (s2, wa)))
            (high_flow pre suf tmp xs)"
          using l2 A1 by (auto simp: high_flow_def high_closed_def high_open_def)
      qed
      then have go: "wp N (high_take_b s1 (last B)) (\<lambda>s. wp N (if hnb s = 1 then sret (Break CopyRest s)
          else sret (Past (s, wa))) (high_flow pre suf tmp xs))" using B by simp
      show ?thesis
        unfolding prod.case
        by (rule wp_if, use False in simp, rule wp_rd_intI, rule high_at_reads(2)[OF l1 ne],
            rule wp_bind, rule go)
    qed
  qed
qed

lemma wp_high_round_b:
  assumes "high_open pre suf tmp xs s"
  shows "wp N (high_round_b c tmp s) (high_flow pre suf tmp xs)"
proof -
  from assms obtain A B gap out where l: "high_at pre suf tmp s A B gap out"
    and t: "giving xs A B out" and len: "A \<noteq> []" "1 < length B"
    by (auto simp: high_open_def)
  then have ne: "B \<noteq> []" by auto
  show ?thesis
    unfolding high_round_b_def
  proof (rule wp_bind, rule wp_high_gallop_b[OF l t len(1) ne], goal_cases)
    case (1 wb s1 B1 gap1 out1)
    note l1 = 1(1) and t1 = 1(2)
    have n1: "hnb s1 = int (length B1)" using l1 by (simp add: high_at_def)
    obtain A1 a where A: "A = A1 @ [a]" using len by (cases A rule: rev_cases) auto
    show ?case
    proof (cases "0 < wb \<and> (hnb s1 = 1 \<or> hnb s1 = 0)")
      case True
      then show ?thesis using l1 t1 n1 by (auto simp: high_flow_def high_closed_def)
    next
      case False
      then have "wb = 0 \<or> length B1 \<noteq> 1 \<and> length B1 \<noteq> 0" using n1 by auto
      then have B1: "1 < length B1" using 1(3) len by (cases "wb = 0"; linarith)
      have "wp N (high_take_a s1 a) (\<lambda>s. wp N (if hna s = 0 then sret (Break Succeed s) else sret (Past (s, wb)))
          (high_flow pre suf tmp xs))"
      proof (rule wp_high_take_a[OF l1[unfolded A]])
        fix s2 gap2 assume l2: "high_at pre suf tmp s2 A1 B1 gap2 (a # out1)"
        have "giving xs A1 B1 ([a] @ out1)"
          by (rule giving_a) (use t1 1(4) A in auto)
        moreover have "hna s2 = int (length A1)" using l2 by (simp add: high_at_def)
        ultimately show "wp N (if hna s2 = 0 then sret (Break Succeed s2) else sret (Past (s2, wb)))
            (high_flow pre suf tmp xs)"
          using l2 B1 by (auto simp: high_flow_def high_closed_def high_open_def)
      qed (use B1 in auto)
      then have go: "wp N (high_take_a s1 (last A)) (\<lambda>s. wp N (if hna s = 0 then sret (Break Succeed s)
          else sret (Past (s, wb))) (high_flow pre suf tmp xs))" using A by simp
      show ?thesis
        unfolding prod.case
        by (rule wp_if, use False in simp, rule wp_if, use False in simp, rule wp_rd_intI,
            rule high_at_reads(1)[OF l1 len(1)], rule wp_bind, rule go)
    qed
  qed
qed

lemma wp_high_gallops:
  assumes "high_open pre suf tmp xs s" "0 < mg"
  shows "wp N (high_gallops c tmp (int (length pre)) mg s wa wb first) (high_flow pre suf tmp xs)"
  using assms
proof (induction "nat (hdest s + 1)" arbitrary: s mg wa wb first rule: less_induct)
  case less
  have op: "high_open pre suf tmp xs (s\<lparr>hgallop := n\<rparr>)" for n
    using less.prems(1) by (simp add: high_open_def)
  show ?case
    apply (subst high_gallops.simps)
    apply (rule wp_if)
     apply (rule wp_minusI, use less.prems(2) in simp)
     apply (rule wp_bindI, rule wp_post[OF wp_high_round_a[OF op] high_round_less(1)])
     apply (rule wp_case_flow)
      apply (simp add: high_flow_def)
     apply (rule wp_case_prod)
     apply (rule wp_bindI, rule wp_post[OF wp_high_round_b[of pre suf tmp xs] high_round_less(2)])
      apply (simp add: high_flow_def)
     apply (rule wp_case_flow)
      apply (simp add: high_flow_def)
     apply (rule wp_case_prod)
     apply (rule less.hyps)
       apply (auto simp: high_flow_def high_past_less_def less.prems)
    done
qed

lemma wp_high_loop:
  assumes "high_open pre suf tmp xs s"
  shows "wp N (high_loop c tmp (int (length pre)) mg s) (\<lambda>(e, s). high_closed pre suf tmp xs e s)"
  using assms
proof (induction "nat (hdest s + 1)" arbitrary: s mg rule: less_induct)
  case less
  show ?case
    apply (subst high_loop.simps)
    apply (rule wp_bindI, rule wp_post[OF wp_high_pairs[OF less.prems] high_pairs_less])
    apply (rule wp_case_flow)
     apply (simp add: high_flow_def)
    apply (rule wp_case_prod)+
    apply (rule wp_bindI, rule wp_post[OF wp_high_gallops[of pre suf tmp xs] high_gallops_less])
      apply (simp_all add: high_flow_def)
    apply (rule wp_case_flow)
     apply (simp add: high_flow_def)
    apply (rule wp_case_prod)
    apply (rule less.hyps)
     apply (auto simp: high_flow_def high_past_less_def high_open_def)
    done
qed

lemma wp_high_finish:
  assumes "high_closed pre suf tmp xs e s"
  shows "wp N (high_finish tmp e s) (merged pre xs suf)"
proof -
  from assms obtain A B gap out where l: "high_at pre suf tmp s A B gap out" and t: "giving xs A B out"
    and e: "case e of Succeed \<Rightarrow> A = [] \<or> B = [] | CopyRest \<Rightarrow> length B = 1"
    by (auto simp: high_closed_def)
  note t = t[unfolded giving_def]
  show ?thesis
  proof (cases e)
    case Succeed
    have "mset xs = mset (A @ B @ out)" using conjunct1[OF t, symmetric] by (simp add: add.assoc)
    moreover have "ssort K xs = A @ B @ out" if "G" using t that e Succeed by (auto simp: ssort_id)
    ultimately have m: "merged pre xs suf (pre @ (A @ B @ out) @ suf)" by (auto simp: merged_def sorts_to_def)
    show ?thesis
    proof (cases "B = []")
      case True
      then have "hw s = pre @ (A @ B @ out) @ suf" "\<not> 0 < hnb s" using l by (auto simp: high_at_def)
      then show ?thesis using m Succeed by (simp add: high_finish_def)
    next
      case False
      then have A: "A = []" using e Succeed by simp
      have d: "0 \<le> hdest s - (hnb s - 1)" "nat (hdest s - (hnb s - 1)) = length pre"
        "0 \<le> hnb s" "nat (hnb s) = length B" using l A by (auto simp: high_at_def)
      have "take (length pre) (hw s) @ region tmp 0 (length B) @ drop (length pre + length B) (hw s) =
          pre @ (A @ B @ out) @ suf"
        using l A by (auto simp: high_at_def region_def)
      moreover have "length pre + length B \<le> length (hw s)" "0 + length B \<le> length tmp"
        using l A by (auto simp: high_at_def)
      moreover have "0 < hnb s" using l False by (simp add: high_at_def)
      ultimately show ?thesis
        unfolding high_finish_def Succeed merge_end.case
        by (simp only: if_True) (rule wp_usizeI[OF d(1)], rule wp_usizeI[OF d(3)], simp add: d m[simplified])
    qed
  next
    case CopyRest
    then obtain b where B: "B = [b]" using e by (cases B) auto
    have "mset xs = mset (b # A @ out)" using conjunct1[OF t, symmetric] B by simp
    moreover have "ssort K xs = b # A @ out" if "G"
    proof -
      have "ssort K (A @ [b] @ []) = [b] @ ssort K (A @ [])" using t that B by (intro ssort_take_front) auto
      then show ?thesis using t that B by (simp add: ssort_id)
    qed
    ultimately have m: "merged pre xs suf (pre @ (b # A @ out) @ suf)" by (auto simp: merged_def sorts_to_def)
    obtain g where gap: "gap = [g]" using l B by (cases gap) (auto simp: high_at_def)
    obtain y ys where y: "A @ [g] = y # ys" by (cases "A @ [g]") auto
    have src: "0 \<le> hca s - hna s + 1" "nat (hca s - hna s + 1) = length pre"
      and dst: "0 \<le> hdest s - hna s + 1" "nat (hdest s - hna s + 1) = length pre + 1"
      and na: "0 \<le> hna s" "nat (hna s) = length A"
      and d: "0 \<le> hdest s - hna s" "nat (hdest s - hna s) = length pre"
      using l B by (auto simp: high_at_def)
    have hw: "hw s = pre @ (A @ [g]) @ out @ suf" using l gap by (simp add: high_at_def)
    have "take (length pre + 1) (hw s) = pre @ [y]" unfolding hw y by simp
    moreover have "region (hw s) (length pre) (length A) = A" unfolding hw by (simp add: region_def)
    moreover have "drop (length pre + 1 + length A) (hw s) = out @ suf" unfolding hw by simp
    ultimately have w: "take (length pre + 1) (hw s) @ region (hw s) (length pre) (length A) @
        drop (length pre + 1 + length A) (hw s) = pre @ [y] @ A @ out @ suf" by simp
    have bounds: "length pre + length A \<le> length (hw s)" "length pre + 1 + length A \<le> length (hw s)"
      using l gap by (auto simp: high_at_def)
    have get_at: "0 \<le> hct s \<and> nat (hct s) < length tmp \<and> tmp ! nat (hct s) = b"
      using high_at_reads(2)[OF l] B by simp
    show ?thesis
      unfolding high_finish_def CopyRest merge_end.case Let_def
      apply (rule wp_usizeI[OF src(1)], rule wp_usizeI[OF dst(1)], rule wp_usizeI[OF na(1)])
      apply (unfold src(2) dst(2) na(2))
      apply (rule wp_bind, rule wp_move_within[OF bounds])
      apply (unfold w, rule wp_rd_intI[OF get_at], rule wp_wr_int[OF d(1)])
       apply (use d m in simp_all)
      done
  qed
qed

lemma wp_merge_high:
  assumes w: "w = pre @ A @ B @ suf" "base_a = length pre" "len_a = length A"
      "base_b = length pre + length A" "len_b = length B"
    and ne: "A \<noteq> []" "B \<noteq> []" and t: "giving (A @ B) A B []"
    and final: "G \<longrightarrow> (\<forall>b \<in> set B. compare K b (last A) = Less)"
  shows "wp N (merge_high c w base_a len_a base_b len_b mg) (\<lambda>(w', mg'). merged pre (A @ B) suf w')"
proof -
  obtain A' a where A: "A = A' @ [a]" using ne by (cases A rule: rev_cases) auto
  let ?s = "\<lparr>hw = w, hdest = int base_b + int len_b - 1, hct = int len_b - 1,
    hca = int base_a + int len_a - 1, hna = int len_a, hnb = int len_b, hgallop = mg\<rparr>"
  have tmp: "region w base_b len_b = B" using w by (simp add: region_def)
  have l: "high_at pre suf B ?s A B B []" using w by (simp add: high_at_def)
  have t': "giving (A @ B) A' B ([a] @ [])"
    by (rule giving_a) (use t A final in auto)
  have step: "wp N (high_take_a ?s a) (\<lambda>s. wp N
      (if hna s = 0 then sret (Succeed, s) else if hnb s = 1 then sret (CopyRest, s)
       else high_loop c B (int base_a) mg s)
      (\<lambda>(e, s). high_closed pre suf B (A @ B) e s))"
  proof (rule wp_high_take_a[OF l[unfolded A]])
    fix s gap assume s: "high_at pre suf B s A' B gap [a]"
    then have n: "hna s = int (length A')" "hnb s = int (length B)" by (simp_all add: high_at_def)
    have "high_open pre suf B (A @ B) s" if "A' \<noteq> []" "length B \<noteq> 1"
    proof -
      have "0 < length B" using ne by simp
      then have "1 < length B" using that by linarith
      then show ?thesis using s t' that unfolding high_open_def by auto
    qed
    moreover have "high_closed pre suf B (A @ B) Succeed s" if "A' = []"
      using s t' that unfolding high_closed_def by auto
    moreover have "high_closed pre suf B (A @ B) CopyRest s" if "length B = 1"
      using s t' that unfolding high_closed_def by auto
    ultimately show "wp N (if hna s = 0 then sret (Succeed, s) else if hnb s = 1 then sret (CopyRest, s)
        else high_loop c B (int base_a) mg s) (\<lambda>(e, s). high_closed pre suf B (A @ B) e s)"
      using n wp_high_loop w(2) by simp
  qed (rule ne)
  have get_at: "0 \<le> hca ?s \<and> nat (hca ?s) < length w \<and> w ! nat (hca ?s) = a"
    using high_at_reads(1)[OF l ne(1)] A by simp
  show ?thesis
    unfolding merge_high_def Let_def tmp
    apply (rule wp_if, rule wp_rd_intI[OF get_at])
     apply (rule wp_bind, rule wp_mono[OF step], rule wp_bindI, assumption)
     apply (rule wp_case_prod, rule wp_bindI, rule wp_high_finish, simp, simp)
    apply (use w in simp)
    done
qed

end

end
