(* ===== verification/PayloadTimsort.thy ===== *)
theory PayloadTimsort
  imports PayloadMergeHigh
begin

text \<open>
  The sort of \<open>PayloadSort\<close> as a whole: runs are found or made by insertion, and neighbouring
  runs on the stack are merged. At every moment the slice is a row of blocks, one for each run
  on the stack, in the order of the original, each the sorted form of the elements that were
  there, followed by what has not been looked at.
\<close>

context compare_laws
begin

subsection \<open>Runs\<close>

definition directed :: "bool \<Rightarrow> 'v list \<Rightarrow> bool" where
  "directed desc xs \<longleftrightarrow> (if desc then sorted_wrt (\<lambda>x y. compare K y x = Less) xs else ssorted K xs)"

lemma chain_snoc:
  assumes "directed desc xs" "xs \<noteq> []"
    and "if desc then compare K x (last xs) = Less else compare K x (last xs) \<noteq> Less"
  shows "directed desc (xs @ [x])"
proof -
  obtain ys p where xs: "xs = ys @ [p]" using assms(2) by (cases xs rule: rev_cases) auto
  have "compare K x y = Less" if "desc" "y \<in> set ys" for y
    using assms that by (auto simp: directed_def xs sorted_wrt_append intro: compare.trans_less)
  moreover have "compare K y x \<noteq> Greater" if "\<not> desc" "y \<in> set ys" for y
    using assms that by (auto simp: directed_def xs sorted_append_iff compare.greater_iff_sym_less
        intro: compare.trans_less compare.trans_not_less dest: compare.trans_not_less)
  ultimately show ?thesis
    using assms by (auto simp: directed_def xs sorted_append_iff sorted_wrt_append compare.greater_iff_sym_less)
qed

lemma wp_run_loop:
  assumes "w = pre @ xs @ suf" "set xs \<subseteq> S" "0 < r" "r \<le> length xs" "prev = xs ! (r - 1)"
    and "G \<longrightarrow> directed desc (take r xs)"
  shows "wp N (run_loop c w desc prev r [length pre + r..<length pre + length xs])
    (\<lambda>n. r \<le> n \<and> n \<le> length xs \<and> (G \<longrightarrow> directed desc (take n xs)))"
  using assms(3-)
proof (induction "length xs - r" arbitrary: r prev)
  case 0
  then show ?case by simp
next
  case (Suc k)
  then have r: "r < length xs" by simp
  let ?x = "xs ! r"
  have up: "[length pre + r..<length pre + length xs] = (length pre + r) # [length pre + (r + 1)..<length pre + length xs]"
    using r by (simp add: upt_conv_Cons)
  have get_at: "length pre + r < length w \<and> w ! (length pre + r) = ?x"
    using r by (simp add: assms(1) nth_append)
  have inS: "?x \<in> S" "prev \<in> S" using r Suc.prems assms(2) by (auto dest: nth_mem)
  have prev: "last (take r xs) = prev" using Suc.prems r by (subst last_conv_nth) auto
  show ?case
    unfolding up run_loop.simps
  proof (rule wp_rdI[OF get_at], rule wp_bindI[OF wp_compare[OF inS]], rule wp_if, goal_cases)
    case (1 res)
    then show ?case using Suc.prems by simp
  next
    case (2 res)
    have "directed desc (take r xs @ [?x])" if "G"
      using 2 that Suc.prems r prev by (intro chain_snoc) (auto split: if_splits)
    then have "G \<longrightarrow> directed desc (take (r + 1) xs)" using r by (simp add: take_Suc_conv_app_nth)
    moreover have "k = length xs - (r + 1)" using Suc.hyps(2) by simp
    ultimately show ?case
      using Suc.hyps(1)[of "r + 1" ?x] r by (auto elim!: wp_mono)
  qed
qed

lemma sorts_to_chain:
  assumes "G \<longrightarrow> directed desc xs"
  shows "sorts_to xs (if desc then rev xs else xs)"
  using assms by (auto simp: sorts_to_def directed_def ssort_id ssort_rev)

lemma wp_count_and_make_run:
  assumes w: "w = pre @ xs @ suf" "low = length pre" "high = length pre + length xs"
    and xs: "xs \<noteq> []" "set xs \<subseteq> S"
  shows "wp N (count_and_make_run c w low high)
    (\<lambda>(run, w'). 0 < run \<and> run \<le> length xs \<and> merged pre (take run xs) (drop run xs @ suf) w')"
proof (cases "length xs = 1")
  case True
  then have "merged pre (take 1 xs) (drop 1 xs @ suf) w"
    using sorts_to_chain[of False xs] by (cases xs) (auto simp: merged_def w directed_def)
  then show ?thesis using True w by (simp add: count_and_make_run_def)
next
  case False
  then have len: "1 < length xs" using xs by (cases xs) auto
  have get_at: "low + 1 < length w \<and> w ! (low + 1) = xs ! 1" "low < length w \<and> w ! low = xs ! 0"
    using len by (auto simp: w nth_append)
  have inS: "xs ! 1 \<in> S" "xs ! 0 \<in> S" using len xs by (auto dest: nth_mem)
  show ?thesis
    unfolding count_and_make_run_def Let_def
  proof (rule wp_if, use w False in simp, rule wp_rdI[OF get_at(1)], simp only: add_diff_cancel_right',
      rule wp_rdI[OF get_at(2)], rule wp_bindI[OF wp_compare[OF inS]], goal_cases)
    case (1 res)
    let ?desc = "less_zero res"
    have "directed ?desc ([xs ! 0] @ [xs ! 1])" if "G"
      by (rule chain_snoc) (use 1 that in \<open>auto simp: directed_def\<close>)
    moreover have "take 2 xs = [xs ! 0] @ [xs ! 1]"
      using len by (cases xs; cases "tl xs") (auto simp: numeral_2_eq_2)
    ultimately have start: "G \<longrightarrow> directed ?desc (take 2 xs)" by simp
    have "wp N (run_loop c w ?desc (xs ! 1) 2 [length pre + 2..<length pre + length xs])
        (\<lambda>n. 2 \<le> n \<and> n \<le> length xs \<and> (G \<longrightarrow> directed ?desc (take n xs)))"
      by (rule wp_run_loop[OF w(1)]) (use len xs start in auto)
    then have loop: "wp N (run_loop c w ?desc (xs ! 1) 2 [low + 1 + 1..<high])
        (\<lambda>n. 2 \<le> n \<and> n \<le> length xs \<and> (G \<longrightarrow> directed ?desc (take n xs)))"
      using w by (simp add: numeral_2_eq_2)
    show ?case
    proof (rule wp_bindI[OF loop])
      fix n assume n: "2 \<le> n \<and> n \<le> length xs \<and> (G \<longrightarrow> directed ?desc (take n xs))"
      then have s: "sorts_to (take n xs) (if ?desc then rev (take n xs) else take n xs)"
        by (intro sorts_to_chain) simp
      have rev: "take low w @ rev (region w low n) @ drop (low + n) w = pre @ rev (take n xs) @ drop n xs @ suf"
        using n by (simp add: w region_def)
      have id: "w = pre @ take n xs @ drop n xs @ suf" by (simp add: w)
      have "wp N (reverse_range w low n) (\<lambda>w'. w' = pre @ rev (take n xs) @ drop n xs @ suf)"
        using n rev by (simp add: reverse_range_def w)
      then have rev_wp: "wp N (sbind (reverse_range w low n) (\<lambda>w. sret (n, w)))
          (\<lambda>(run, w'). run = n \<and> w' = pre @ rev (take n xs) @ drop n xs @ suf)"
        by (rule wp_bindI) simp
      show "wp N (if ?desc then sbind (reverse_range w low n) (\<lambda>w. sret (n, w)) else sret (n, w))
        (\<lambda>(run, w'). 0 < run \<and> run \<le> length xs \<and> merged pre (take run xs) (drop run xs @ suf) w')"
      proof (rule wp_if)
        assume "?desc"
        then have "merged pre (take n xs) (drop n xs @ suf) (pre @ rev (take n xs) @ drop n xs @ suf)"
          using s by (auto simp: merged_def)
        then show "wp N (sbind (reverse_range w low n) (\<lambda>w. sret (n, w)))
          (\<lambda>(run, w'). 0 < run \<and> run \<le> length xs \<and> merged pre (take run xs) (drop run xs @ suf) w')"
          using n by (intro wp_mono[OF rev_wp]) auto
      next
        assume "\<not> ?desc"
        then have "merged pre (take n xs) (drop n xs @ suf) w"
          using s id by (auto simp: merged_def)
        then show "wp N (sret (n, w))
          (\<lambda>(run, w'). 0 < run \<and> run \<le> length xs \<and> merged pre (take run xs) (drop run xs @ suf) w')"
          using n by simp
      qed
    qed
  qed
qed

subsection \<open>Insertion\<close>

lemma wp_insert_search:
  assumes w: "w = pre @ ys @ suf" and S: "set ys \<subseteq> S" "y \<in> S" and sorted: "G \<longrightarrow> ssorted K ys"
    and ij: "i \<le> j" "j \<le> length ys" "G \<longrightarrow> (\<forall>x \<in> set (take i ys). compare K y x \<noteq> Less)"
      "G \<longrightarrow> (\<forall>x \<in> set (drop j ys). compare K y x = Less)"
  shows "wp N (insert_search c w y (length pre + i) (length pre + j)) (\<lambda>l. \<exists>k \<le> length ys. l = length pre + k \<and>
    (G \<longrightarrow> (\<forall>x \<in> set (take k ys). compare K y x \<noteq> Less) \<and> (\<forall>x \<in> set (drop k ys). compare K y x = Less)))"
  using ij
proof (induction "j - i" arbitrary: i j rule: less_induct)
  case less
  show ?case
  proof (cases "i < j")
    case False
    then show ?thesis using less.prems by (subst insert_search.simps) auto
  next
    case True
    define m where "m = i + (j - i) div 2"
    have m: "i \<le> m" "m < j" "m < length ys" using True less.prems by (auto simp: m_def)
    have mid: "length pre + i + (length pre + j - (length pre + i)) div 2 = length pre + m"
      by (simp add: m_def)
    have get_at: "length pre + m < length w \<and> w ! (length pre + m) = ys ! m"
      using m by (simp add: w nth_append)
    have inS: "ys ! m \<in> S" using m S by (auto dest: nth_mem)
    have left: "\<forall>x \<in> set (take (m + 1) ys). compare K y x \<noteq> Less"
      if "G" "compare K y (ys ! m) \<noteq> Less"
    proof
      fix x assume "x \<in> set (take (m + 1) ys)"
      then have "\<exists>i \<le> m. x = ys ! i" using m by (auto simp: in_set_conv_nth less_Suc_eq_le)
      then obtain i where "i \<le> m" "x = ys ! i" by blast
      then have "compare K x (ys ! m) \<noteq> Greater" using sorted_nth[of K ys i m] sorted that(1) m by auto
      then show "compare K y x \<noteq> Less"
        using that(2) by (metis comp.exhaust compare.trans_less compare.trans_less_equiv)
    qed
    have right: "\<forall>x \<in> set (drop m ys). compare K y x = Less"
      if "G" "compare K y (ys ! m) = Less"
    proof
      fix x assume "x \<in> set (drop m ys)"
      then obtain i where "m \<le> i" "i < length ys" "x = ys ! i"
        by (auto simp: in_set_conv_nth) (metis add.commute le_add2 less_diff_conv)
      then have "compare K (ys ! m) x \<noteq> Greater" using sorted_nth[of K ys m i] sorted that(1) m by auto
      then show "compare K y x = Less"
        using that(2) by (metis comp.exhaust compare.trans_less compare.trans_less_equiv)
    qed
    let ?Q = "\<lambda>l. \<exists>k \<le> length ys. l = length pre + k \<and>
      (G \<longrightarrow> (\<forall>x \<in> set (take k ys). compare K y x \<noteq> Less) \<and> (\<forall>x \<in> set (drop k ys). compare K y x = Less))"
    have down: "wp N (insert_search c w y (length pre + i) (length pre + m)) ?Q"
      if "G \<longrightarrow> compare K y (ys ! m) = Less"
      by (rule less.hyps; (use m in linarith)?; use that right less.prems(3) in blast)
    have up: "wp N (insert_search c w y (length pre + m + 1) (length pre + j)) ?Q"
      if "G \<longrightarrow> compare K y (ys ! m) \<noteq> Less"
      unfolding add.assoc
      by (rule less.hyps; (use m less.prems(2) in linarith)?; use that left less.prems(4) in blast)
    show ?thesis
      apply (subst insert_search.simps)
      apply (rule wp_if)
       apply (unfold Let_def mid, rule wp_rdI[OF get_at], rule wp_bindI[OF wp_compare[OF S(2) inS]], rule wp_if)
        apply (rule down, simp)
       apply (rule up, simp)
      apply (use True in simp)
      done
  qed
qed

text \<open>Moving the elements after the place up by one, and then writing there.\<close>

lemma wp_shift_loop:
  "wp N (shift_loop (P @ R @ p # T) (rev [length P + 1..<length P + length R + 1]))
     (\<lambda>w. length P < length w \<and> (\<forall>q. w[length P := q] = P @ q # R @ T))"
proof (induction R arbitrary: p T rule: rev_induct)
  case Nil
  then show ?case by simp
next
  case (snoc x R)
  have up: "rev [length P + 1..<length P + length (R @ [x]) + 1] =
      (length P + length R + 1) # rev [length P + 1..<length P + length R + 1]"
    by simp
  have "(P @ (R @ [x]) @ p # T) ! (length P + length R + 1 - 1) = x" by (simp add: nth_append)
  moreover have "(P @ (R @ [x]) @ p # T)[length P + length R + 1 := x] = P @ R @ x # (x # T)"
    by (simp add: list_update_append)
  ultimately show ?case
    unfolding up shift_loop.simps
    using snoc.IH[of x "x # T"] by (auto intro!: wp_rdI wp_bind)
qed

lemma wp_insertion_loop:
  assumes w: "w = pre @ ys @ drop k xs @ suf" "k \<le> length xs" "low = length pre"
    and s: "sorts_to (take k xs) ys" and S: "set xs \<subseteq> S"
  shows "wp N (insertion_loop c w low (length pre + k) (length pre + length xs)) (merged pre xs suf)"
  using assms(1,2) s
proof (induction "length xs - k" arbitrary: k w ys)
  case 0
  then show ?case
    by (subst insertion_loop.simps) (auto simp: merged_def)
next
  case (Suc n)
  then have k: "k < length xs" by simp
  let ?y = "xs ! k"
  have len: "length ys = k" using Suc.prems(3) k by (metis length_take min.absorb4 mset_eq_length sorts_to_def)
  have w: "w = pre @ ys @ ?y # drop (k + 1) xs @ suf"
    using Suc.prems(1) k by (simp flip: Cons_nth_drop_Suc)
  have yS: "set ys \<subseteq> S" "?y \<in> S"
    using Suc.prems(3) S k by (auto simp: sorts_to_def dest!: mset_eq_setD dest: in_set_takeD nth_mem)
  have sorted: "G \<longrightarrow> ssorted K ys" using Suc.prems(3) by (auto simp: sorts_to_def)
  have get_at: "length pre + k < length w \<and> w ! (length pre + k) = ?y"
    using len by (simp add: w nth_append)
  have search: "wp N (insert_search c w ?y low (length pre + k)) (\<lambda>l. \<exists>j \<le> length ys. l = length pre + j \<and>
      (G \<longrightarrow> (\<forall>x \<in> set (take j ys). compare K ?y x \<noteq> Less) \<and> (\<forall>x \<in> set (drop j ys). compare K ?y x = Less)))"
    using wp_insert_search[OF w yS sorted, of 0 k] len assms(3) by simp
  show ?case
    apply (subst insertion_loop.simps)
    apply (rule wp_if)
     apply (rule wp_rdI[OF get_at], rule wp_bindI[OF search])
     apply (elim exE conjE)
  proof goal_cases
    case (1 l j)
    let ?L = "take j ys" and ?R = "drop j ys"
    have l: "l = length (pre @ ?L)" "length pre + k = length (pre @ ?L) + length ?R" using 1 len by auto
    have w': "w = (pre @ ?L) @ ?R @ ?y # drop (k + 1) xs @ suf" by (simp add: w)
    have "mset (?L @ ?y # ?R) = mset (take (k + 1) xs)"
    proof -
      have "mset (?L @ ?y # ?R) = add_mset ?y (mset (?L @ ?R))" by (simp del: append_take_drop_id)
      then show ?thesis using Suc.prems(3) k by (simp add: sorts_to_def take_Suc_conv_app_nth)
    qed
    moreover have "?L @ ?y # ?R = ssort K (take (k + 1) xs)" if "G"
    proof -
      have "ssort K (?L @ ?R @ [?y]) = ?L @ ?y # ?R"
        by (rule ssort_insert) (use 1 sorted that in auto)
      moreover have "ssort K (ys @ [?y]) = ssort K (take k xs @ [?y])"
        using ssort_append[of K "take k xs" "[?y]"] Suc.prems(3)[unfolded sorts_to_def] that by simp
      moreover have "?L @ ?R @ [?y] = ys @ [?y]" by simp
      ultimately show ?thesis using k by (metis Suc_eq_plus1 take_Suc_conv_app_nth)
    qed
    ultimately have s': "sorts_to (take (k + 1) xs) (?L @ ?y # ?R)" by (simp add: sorts_to_def)
    have rest: "wp N (insertion_loop c (pre @ (?L @ ?y # ?R) @ drop (k + 1) xs @ suf) low
        (length pre + (k + 1)) (length pre + length xs)) (merged pre xs suf)"
      using Suc.hyps(1)[of "k + 1" _ "?L @ ?y # ?R"] Suc.hyps(2) k s' by simp
    show ?case
      unfolding w' l(2) unfolding l(1)
      apply (rule wp_bindI[OF wp_shift_loop], rule wp_bind)
      using rest len 1(2) by (auto simp: ac_simps)
  next
    case 2
    then show ?case using k by simp
  qed
qed

subsection \<open>Merging two runs\<close>

lemma sorts_to_trim:
  assumes s: "sorts_to (A2 @ B1) Z"
    and sorted: "G \<longrightarrow> ssorted K (A1 @ A2) \<and> ssorted K (B1 @ B2)"
    and A1: "G \<longrightarrow> (\<forall>x \<in> set A1. \<forall>y \<in> set (B1 @ B2). compare K x y \<noteq> Greater)"
    and B2: "G \<longrightarrow> (\<forall>x \<in> set A2. \<forall>y \<in> set B2. compare K x y \<noteq> Greater)"
  shows "sorts_to ((A1 @ A2) @ B1 @ B2) (A1 @ Z @ B2)"
proof -
  have "ssort K ([] @ A1 @ (A2 @ B1 @ B2)) = A1 @ ssort K ([] @ A2 @ B1 @ B2)" if "G"
    using that sorted A1 by (intro ssort_take_front) (auto simp: sorted_append_iff)
  moreover have "ssort K ((A2 @ B1) @ B2 @ []) = ssort K ((A2 @ B1) @ []) @ B2" if "G"
    using that sorted B2 by (intro ssort_take_back) (auto simp: sorted_append_iff)
  ultimately show ?thesis using s[unfolded sorts_to_def] by (auto simp: sorts_to_def)
qed

lemma wp_merge_trimmed:
  assumes w: "w = pre @ A @ B @ suf" and ne: "A \<noteq> []" "B \<noteq> []"
    and S: "set (A @ B) \<subseteq> S" "length (A @ B) < 2 ^ 63"
    and sorted: "G \<longrightarrow> ssorted K A \<and> ssorted K B"
    and first: "G \<longrightarrow> (\<forall>a \<in> set A. compare K (hd B) a = Less)"
    and final: "G \<longrightarrow> (\<forall>b \<in> set B. compare K b (last A) = Less)"
  shows "wp N (if length A \<le> length B
      then merge_low c w (length pre) (length A) (length pre + length A) (length B) mg
      else merge_high c w (length pre) (length A) (length pre + length A) (length B) mg)
    (\<lambda>(w', mg'). merged pre (A @ B) suf w')"
proof -
  have t: "taking (A @ B) [] A B" using S sorted final by (auto simp: taking_def)
  have g: "giving (A @ B) A B []" using S sorted first by (auto simp: giving_def)
  have hd: "G \<longrightarrow> compare K (hd B) (hd A) = Less" using first ne by auto
  show ?thesis
    by (rule wp_if; (rule wp_merge_low[OF w _ _ _ _ ne t hd] | rule wp_merge_high[OF w _ _ _ _ ne g final]);
        rule refl)
qed

text \<open>After the first gallop has left \<open>A1\<close> in place: the second gallop and the merge.\<close>

lemma wp_merge_rest:
  assumes w: "w = pre @ (A1 @ A2) @ B @ suf" "base_a = length pre + length A1"
      "base_b = length pre + length (A1 @ A2)"
    and ne: "A2 \<noteq> []" "B \<noteq> []" and S: "set ((A1 @ A2) @ B) \<subseteq> S" "length ((A1 @ A2) @ B) < 2 ^ 63"
    and sorted: "G \<longrightarrow> ssorted K (A1 @ A2) \<and> ssorted K B"
    and a1: "G \<longrightarrow> (\<forall>x \<in> set A1. \<forall>y \<in> set B. compare K x y \<noteq> Greater)"
    and a2: "G \<longrightarrow> (\<forall>x \<in> set A2. compare K (hd B) x = Less)"
    and m: "m \<le> length B" "G \<longrightarrow> (\<forall>x \<in> set (take m B). compare K x (last A2) = Less) \<and>
      (\<forall>x \<in> set (drop m B). compare K x (last A2) \<noteq> Less)"
  shows "wp N (if m = 0 then sret (w, mg)
      else if length A2 \<le> m then merge_low c w base_a (length A2) base_b m mg
      else merge_high c w base_a (length A2) base_b m mg)
    (\<lambda>(w', mg'). merged pre ((A1 @ A2) @ B) suf w')"
proof -
  define B1 where "B1 = take m B"
  define B2 where "B2 = drop m B"
  have B: "B = B1 @ B2" "length B1 = m" using m by (auto simp: B1_def B2_def)
  have b1: "G \<longrightarrow> (\<forall>x \<in> set B1. compare K x (last A2) = Less)" using m unfolding B1_def by blast
  have b2: "G \<longrightarrow> (\<forall>x \<in> set A2. \<forall>y \<in> set B2. compare K x y \<noteq> Greater)"
  proof (intro impI ballI)
    fix x y assume g: "G" and x: "x \<in> set A2" and y: "y \<in> set B2"
    have "compare K y (last A2) \<noteq> Less" using m g y unfolding B2_def by blast
    moreover have "ssorted K A2" using sorted g by (simp add: sorted_append_iff)
    ultimately show "compare K x y \<noteq> Greater" using last_greatest'[OF g _ ne(1) _ x] by blast
  qed
  show ?thesis
  proof (rule wp_if)
    assume "m = 0"
    have "\<not> G"
    proof
      assume g: "G"
      have "compare K (hd B) (last A2) \<noteq> Less" using m g \<open>m = 0\<close> ne by simp
      then show False using a2 g ne by simp
    qed
    then have "sorts_to ((A1 @ A2) @ B) ((A1 @ A2) @ B)" unfolding sorts_to_def by blast
    then show "wp N (sret (w, mg)) (\<lambda>(w', mg'). merged pre ((A1 @ A2) @ B) suf w')"
      using w by (auto simp: merged_def)
  next
    assume "m \<noteq> 0"
    then have ne1: "B1 \<noteq> []" using B by auto
    have hd: "hd B1 = hd B" using ne1 B by simp
    have w': "w = (pre @ A1) @ A2 @ B1 @ (B2 @ suf)" using w B by simp
    have "wp N (if length A2 \<le> length B1
        then merge_low c w (length (pre @ A1)) (length A2) (length (pre @ A1) + length A2) (length B1) mg
        else merge_high c w (length (pre @ A1)) (length A2) (length (pre @ A1) + length A2) (length B1) mg)
      (\<lambda>(w', mg'). merged (pre @ A1) (A2 @ B1) (B2 @ suf) w')"
      by (rule wp_merge_trimmed[OF w' ne(1) ne1])
        (use S sorted B a2 b1 hd in \<open>auto simp: sorted_append_iff\<close>)
    moreover have "sorts_to ((A1 @ A2) @ B) (A1 @ Z @ B2)" if "sorts_to (A2 @ B1) Z" for Z
      using sorts_to_trim[OF that, of A1 B2] sorted a1 b2 B by simp
    ultimately show "wp N (if length A2 \<le> m then merge_low c w base_a (length A2) base_b m mg
        else merge_high c w base_a (length A2) base_b m mg)
      (\<lambda>(w', mg'). merged pre ((A1 @ A2) @ B) suf w')"
      using B w(2,3) by (auto simp: merged_def ac_simps elim!: wp_mono)
  qed
qed

lemma wp_merge_runs:
  assumes w: "w = pre @ A @ B @ suf" "base_a = length pre" "base_b = length pre + length A"
    and ne: "A \<noteq> []" "B \<noteq> []" and S: "set (A @ B) \<subseteq> S" "length (A @ B) < 2 ^ 63"
    and sorted: "G \<longrightarrow> ssorted K A \<and> ssorted K B"
  shows "wp N (merge_runs c w base_a (length A) base_b (length B) mg) (\<lambda>(w', mg'). merged pre (A @ B) suf w')"
proof -
  have get_at: "base_b < length w \<and> w ! base_b = hd B"
    using ne by (cases B) (auto simp: w nth_append)
  have B_ge: "G \<longrightarrow> (\<forall>y \<in> set B. compare K (hd B) y \<noteq> Greater)"
    using ne sorted by (cases B) (auto dest: sorted_Cons_imp_not_less)
  have gallop_a: "wp N (gallop_right c w (hd B) base_a (length A) 0) (\<lambda>k. k \<le> length A \<and>
      (G \<longrightarrow> (\<forall>x \<in> set (take k A). compare K (hd B) x \<noteq> Less) \<and> (\<forall>x \<in> set (drop k A). compare K (hd B) x = Less)))"
    by (rule wp_gallop_right[of w pre A "B @ suf"]) (use w ne S sorted in auto)
  show ?thesis
    unfolding merge_runs_def Let_def
    apply (rule wp_rdI[OF get_at], rule wp_bindI[OF gallop_a])
    apply (rule wp_minusI, simp)
  proof goal_cases
    case (1 k)
    define A1 where "A1 = take k A"
    define A2 where "A2 = drop k A"
    have A: "A = A1 @ A2" "length A1 = k" "length A - k = length A2" using 1 by (auto simp: A1_def A2_def)
    have a1: "G \<longrightarrow> (\<forall>x \<in> set A1. \<forall>y \<in> set B. compare K x y \<noteq> Greater)"
      using 1 B_ge unfolding A1_def by (metis compare.greater_iff_sym_less compare.trans_not_greater)
    have a2: "G \<longrightarrow> (\<forall>x \<in> set A2. compare K (hd B) x = Less)" using 1 unfolding A2_def by blast
    show ?case
    proof (cases "A2 = []")
      case True
      then have "A = A1" using A by simp
      then have "sorts_to (A @ B) (A @ B)"
        using a1 sorted by (auto simp: sorts_to_def ssort_id sorted_append_iff)
      then have "merged pre (A @ B) suf w" using w by (auto simp: merged_def)
      then show ?thesis using True A by simp
    next
      case False
      then obtain A3 a where a: "A2 = A3 @ [a]" by (cases A2 rule: rev_cases) auto
      have pos: "base_a + k + length A2 - 1 = length (pre @ A1 @ A3)" "w = (pre @ A1 @ A3) @ a # B @ suf"
        using A a w by simp_all
      then have last: "base_a + k + length A2 - 1 < length w \<and> w ! (base_a + k + length A2 - 1) = last A2"
        using a by (simp only: nth_append_length) simp
      have last_S: "last A2 \<in> S" using S A False by auto
      have gallop_b: "wp N (gallop_left c w (last A2) base_b (length B) (length B - 1)) (\<lambda>m. m \<le> length B \<and>
          (G \<longrightarrow> (\<forall>x \<in> set (take m B). compare K x (last A2) = Less) \<and> (\<forall>x \<in> set (drop m B). compare K x (last A2) \<noteq> Less)))"
        by (rule wp_gallop_left[of w "pre @ A" B suf]) (use w ne S sorted last_S in auto)
      show ?thesis
        unfolding A(3)
        apply (rule wp_if, use False in simp)
        apply (rule wp_rdI[OF last], rule wp_minusI, use ne in \<open>simp add: Suc_le_eq\<close>)
        apply (rule wp_bindI[OF gallop_b], unfold A(1))
        apply (rule wp_merge_rest)
                 apply (use w A S sorted a1 a2 False ne in simp_all)
        done
    qed
  qed
qed

subsection \<open>The stack of runs\<close>

fun run_list :: "nat \<Rightarrow> nat list \<Rightarrow> sort_runs" where
  "run_list off [] = []"
| "run_list off (n # ns) = (off, n) # run_list (off + n) ns"

lemma run_list_length [simp]: "length (run_list off ns) = length ns"
  by (induction ns arbitrary: off) simp_all

lemma run_list_append: "run_list off (ns @ ms) = run_list off ns @ run_list (off + sum_list ns) ms"
  by (induction ns arbitrary: off) (simp_all add: add.assoc)

text \<open>\<open>w0\<close> is the original slice; the runs on the stack cover its first \<open>pos\<close> elements.\<close>

definition stacked :: "'v list \<Rightarrow> 'v list \<Rightarrow> sort_runs \<Rightarrow> nat \<Rightarrow> bool" where
  "stacked w0 w runs pos \<longleftrightarrow>
     (\<exists>Xs Ys rest. w0 = concat Xs @ rest \<and> w = concat Ys @ rest \<and> pos = length (concat Ys) \<and>
        runs = run_list 0 (map length Ys) \<and> list_all2 sorts_to Xs Ys \<and> [] \<notin> set Ys)"

lemma sorts_to_length: "sorts_to xs ys \<Longrightarrow> length ys = length xs"
  unfolding sorts_to_def by (metis size_mset)

lemma sorts_to_append:
  assumes "sorts_to X1 A" "sorts_to X2 B" "sorts_to (A @ B) Z"
  shows "sorts_to (X1 @ X2) Z"
proof -
  have "ssort K (A @ B) = ssort K (X1 @ X2)" if "G"
    using assms[unfolded sorts_to_def] that ssort_append[of K X1 X2] by simp
  then show ?thesis using assms by (auto simp: sorts_to_def)
qed

lemma sorts_to_concat: "list_all2 sorts_to Xs Ys \<Longrightarrow> mset (concat Ys) = mset (concat Xs)"
  by (induction rule: list_all2_induct) (auto simp: sorts_to_def)

lemma stack_merge:
  assumes len: "length runs = length Pre + 2 + length Post" "length Post \<le> 1"
    and runs: "runs = run_list 0 (map length (Pre @ [A, B] @ Post))"
    and Z: "length Z = length A + length B"
  defines "i \<equiv> length Pre"
  defines "r \<equiv> runs[i := (fst (runs ! i), length A + length B)]"
  shows "butlast (if i + 3 = length r then r[i + 1 := r ! (i + 2)] else r) = run_list 0 (map length (Pre @ [Z] @ Post))"
proof -
  let ?off = "sum_list (map length Pre)"
  have r: "runs = run_list 0 (map length Pre) @ (?off, length A) # (?off + length A, length B) #
      run_list (?off + length A + length B) (map length Post)"
    by (simp add: runs run_list_append)
  have i: "length (run_list 0 (map length Pre)) = i" by (simp add: i_def)
  have r': "r = run_list 0 (map length Pre) @ (?off, length A + length B) # (?off + length A, length B) #
      run_list (?off + length A + length B) (map length Post)"
    unfolding r_def using i by (simp add: r list_update_append nth_append)
  show ?thesis
  proof (cases Post)
    case Nil
    then show ?thesis using len Z i by (simp add: r' run_list_append butlast_append i_def)
  next
    case (Cons P Ps)
    then have "Ps = []" using len by simp
    then show ?thesis
      using Cons Z i by (simp add: r' run_list_append butlast_append list_update_append nth_append i_def add.assoc)
  qed
qed

lemma wp_merge_at:
  assumes st: "stacked w0 w runs pos" and S: "set w0 \<subseteq> S" "length w0 < 2 ^ 63"
    and i: "i + 1 < length runs" "length runs \<le> i + 3"
  shows "wp N (merge_at c w runs i mg) (\<lambda>(w', runs', mg'). stacked w0 w' runs' pos \<and> length runs' < length runs)"
proof -
  from st obtain Xs Ys rest where x: "w0 = concat Xs @ rest" "w = concat Ys @ rest" "pos = length (concat Ys)"
    "runs = run_list 0 (map length Ys)" "list_all2 sorts_to Xs Ys" "[] \<notin> set Ys"
    unfolding stacked_def by blast
  define Pre where "Pre = take i Ys"
  define Post where "Post = drop (i + 2) Ys"
  define A where "A = Ys ! i"
  define B where "B = Ys ! (i + 1)"
  have n: "length Ys = length runs" using x(4) by simp
  have Ys: "Ys = Pre @ [A, B] @ Post"
    using i n by (simp add: Pre_def Post_def A_def B_def Cons_nth_drop_Suc)
  have lens: "length Pre = i" "length Post \<le> 1" using i n by (auto simp: Pre_def Post_def)
  obtain XPre X1 X2 XPost where Xs: "Xs = XPre @ [X1, X2] @ XPost" "list_all2 sorts_to XPre Pre"
    "sorts_to X1 A" "sorts_to X2 B" "list_all2 sorts_to XPost Post"
    using x(5) unfolding Ys by (auto simp: list_all2_append2 list_all2_Cons2)
  let ?off = "sum_list (map length Pre)"
  have off: "length (concat Pre) = ?off" by (simp add: length_concat)
  have rds: "runs ! i = (?off, length A)" "runs ! (i + 1) = (?off + length A, length B)"
    using lens by (simp_all add: x(4) Ys run_list_append nth_append)
  have ne: "A \<noteq> []" "B \<noteq> []" using x(6) Ys by auto
  have sets: "set (A @ B) \<subseteq> S" "length (A @ B) < 2 ^ 63"
  proof -
    note m = sorts_to_concat[OF x(5)]
    have "set (concat Ys) \<subseteq> set w0" "length (concat Ys) \<le> length w0"
      unfolding x(1) mset_eq_setD[OF m] mset_eq_length[OF m] by auto
    then show "set (A @ B) \<subseteq> S" "length (A @ B) < 2 ^ 63" using S Ys by auto
  qed
  have sorted: "G \<longrightarrow> ssorted K A \<and> ssorted K B" using Xs(3,4) unfolding sorts_to_def by auto
  have w: "w = concat Pre @ A @ B @ (concat Post @ rest)" using x(2) Ys by simp
  have merge: "wp N (merge_runs c w ?off (length A) (?off + length A) (length B) mg)
      (\<lambda>(w', mg'). merged (concat Pre) (A @ B) (concat Post @ rest) w')"
    by (rule wp_merge_runs[OF w _ _ ne sets sorted]) (simp_all add: off)
  have step: "stacked w0 w' (run_list 0 (map length (Pre @ [Z] @ Post))) pos"
    if "w' = concat Pre @ Z @ concat Post @ rest" "sorts_to (A @ B) Z" for w' Z
    unfolding stacked_def
  proof (intro exI conjI)
    show "w0 = concat (XPre @ [X1 @ X2] @ XPost) @ rest" using x(1) Xs by simp
    show "w' = concat (Pre @ [Z] @ Post) @ rest" using that by simp
    show "pos = length (concat (Pre @ [Z] @ Post))" using x(3) Ys sorts_to_length[OF that(2)] by simp
    have "sorts_to (X1 @ X2) Z" by (rule sorts_to_append[OF Xs(3,4) that(2)])
    then show "list_all2 sorts_to (XPre @ [X1 @ X2] @ XPost) (Pre @ [Z] @ Post)"
      using Xs by (simp add: list_all2_appendI)
    show "[] \<notin> set (Pre @ [Z] @ Post)"
      using x(6) Ys ne sorts_to_length[OF that(2)] by auto
  qed simp
  have new: "butlast (if i + 3 = length (runs[i := (?off, length A + length B)])
        then runs[i := (?off, length A + length B), i + 1 := runs[i := (?off, length A + length B)] ! (i + 2)]
        else runs[i := (?off, length A + length B)]) = run_list 0 (map length (Pre @ [Z] @ Post))"
    if "length Z = length A + length B" for Z
  proof -
    have l: "length runs = length Pre + 2 + length Post" using n Ys by simp
    have "runs = run_list 0 (map length (Pre @ [A, B] @ Post))" using x(4) Ys by simp
    from stack_merge[OF l lens(2) this that] show ?thesis unfolding lens(1) rds(1) fst_conv .
  qed
  show ?thesis
    unfolding merge_at_def Let_def
    apply (rule wp_rdI, rule conjI[OF _ rds(1)], use i in simp)
    apply (unfold prod.case, rule wp_rdI, rule conjI[OF _ rds(2)], use i in simp)
    apply (unfold prod.case, rule wp_bindI[OF merge])
  proof goal_cases
    case (1 r)
    then obtain Z mg' where Z: "r = (concat Pre @ Z @ concat Post @ rest, mg')" "sorts_to (A @ B) Z"
      by (auto simp: merged_def)
    have "length Z = length A + length B" using sorts_to_length[OF Z(2)] by simp
    from new[OF this] step[OF refl Z(2)] show ?case using n Ys by (simp add: Z)
  qed
qed

lemma wp_run_invariant: "n < length runs \<Longrightarrow> wp N (run_invariant runs n) (\<lambda>b. n < 2 \<longrightarrow> b)"
  unfolding run_invariant_def by (auto intro!: wp_if wp_bind; linarith)

lemma wp_merge_position:
  assumes "1 < length runs"
  shows "wp N (merge_position runs) (\<lambda>p. case p of None \<Rightarrow> True
    | Some n \<Rightarrow> n + 1 < length runs \<and> length runs \<le> n + 3)"
proof -
  obtain m where m: "length runs = m + 2" by (rule that[of "length runs - 2"]) (use assms in simp)
  have inv: "wp N (if ok1 then run_invariant runs m else sret True) (\<lambda>b. m < 2 \<longrightarrow> b)" for ok1
    using m by (auto intro: wp_run_invariant)
  show ?thesis
    unfolding merge_position_def m
    apply (rule wp_minusI, simp)
    apply (unfold diff_add_inverse2, rule wp_bindI[OF wp_run_invariant], use m in simp)
    apply (rule wp_bindI[OF inv], rule wp_if)
     apply (rule wp_minusI, force)
     apply (use m in \<open>auto intro!: wp_bind; linarith\<close>)
    using m by (auto intro!: wp_bind)
qed

lemma wp_collapse:
  assumes "stacked w0 w runs pos" and S: "set w0 \<subseteq> S" "length w0 < 2 ^ 63"
  shows "wp N (collapse c w runs mg) (\<lambda>(w', runs', mg'). stacked w0 w' runs' pos)"
  using assms(1)
proof (induction "length runs" arbitrary: w runs mg rule: less_induct)
  case less
  show ?case
    apply (subst collapse.simps)
    apply (rule wp_if)
     apply (rule wp_bindI, rule wp_merge_position, simp)
     apply (simp split: option.split, intro conjI impI allI)
      apply (simp add: less.prems)
     apply (rule wp_bindI, rule wp_merge_at[OF less.prems S])
       apply simp_all
     apply (rule wp_case_prod)+
     apply (rule less.hyps)
      apply (use less.prems in simp_all)
    done
qed

lemma wp_collapse_all:
  assumes "stacked w0 w runs pos" and S: "set w0 \<subseteq> S" "length w0 < 2 ^ 63"
  shows "wp N (collapse_all c w runs mg) (\<lambda>(w', runs', mg'). stacked w0 w' runs' pos \<and> length runs' \<le> 1)"
  using assms(1)
proof (induction "length runs" arbitrary: w runs mg rule: less_induct)
  case less
  show ?case
  proof (cases "1 < length runs")
    case False
    then show ?thesis using less.prems by (subst collapse_all.simps) simp
  next
    case True
    obtain m where m: "length runs = m + 2" by (rule that[of "length runs - 2"]) (use True in simp)
    have test: "wp N (if 0 < m then sbind (get_at runs (m - 1)) (\<lambda>x. sbind (get_at runs (m + 1)) (\<lambda>z. sret (snd x < snd z)))
        else sret False) (\<lambda>b. b \<longrightarrow> 0 < m)"
      using m by (auto intro!: wp_if wp_bind)
    show ?thesis
      apply (subst collapse_all.simps)
      apply (rule wp_if)
       apply (rule wp_minusI, simp)
       apply (unfold m diff_add_inverse2)
       apply (rule wp_bindI[OF test])
       apply (rule wp_bindI, rule wp_merge_at[OF less.prems S])
         apply (use m in force)
        apply (use m in force)
       apply (rule wp_case_prod)+
       apply (rule less.hyps)
        apply (use less.prems m in auto)
      done
  qed
qed

lemma stacked_push:
  assumes "stacked w0 w runs (length pre)" "w = pre @ xs @ suf" "w' = pre @ ys @ suf" "sorts_to xs ys" "xs \<noteq> []"
  shows "stacked w0 w' (runs @ [(length pre, length xs)]) (length pre + length xs)"
proof -
  from assms(1) obtain Xs Ys rest where x: "w0 = concat Xs @ rest" "w = concat Ys @ rest" "length pre = length (concat Ys)"
    "runs = run_list 0 (map length Ys)" "list_all2 sorts_to Xs Ys" "[] \<notin> set Ys"
    unfolding stacked_def by blast
  have pre: "pre = concat Ys" "rest = xs @ suf" using x(2,3) assms(2) by auto
  have len: "length ys = length xs" using sorts_to_length[OF assms(4)] .
  show ?thesis
    unfolding stacked_def
  proof (intro exI conjI)
    show "w0 = concat (Xs @ [xs]) @ suf" using x pre by simp
    show "w' = concat (Ys @ [ys]) @ suf" using assms(3) pre by simp
    show "list_all2 sorts_to (Xs @ [xs]) (Ys @ [ys])" using x(5) assms(4) by (simp add: list_all2_appendI)
    show "[] \<notin> set (Ys @ [ys])" using x(6) len assms(5) by auto
    show "length pre + length xs = length (concat (Ys @ [ys]))" using pre len by simp
    show "runs @ [(length pre, length xs)] = run_list 0 (map length (Ys @ [ys]))"
      using x(4) pre len by (simp add: run_list_append length_concat)
  qed
qed

lemma stacked_split:
  assumes "stacked w0 w runs pos"
  obtains xs where "w = take pos w @ xs" "pos = length (take pos w)" "length xs = length w0 - pos"
    "set xs \<subseteq> set w0" "pos \<le> length w0"
proof -
  from assms obtain Xs Ys rest where x: "w0 = concat Xs @ rest" "w = concat Ys @ rest" "pos = length (concat Ys)"
    "list_all2 sorts_to Xs Ys"
    unfolding stacked_def by blast
  have "length (concat Ys) = length (concat Xs)" using sorts_to_concat[OF x(4)] mset_eq_length by blast
  then show thesis using that[of rest] x by simp
qed

lemma wp_sort_loop:
  assumes "stacked w0 w runs low" "remaining = length w0 - low" and S: "set w0 \<subseteq> S" "length w0 < 2 ^ 63"
  shows "wp N (sort_loop c min_run w runs mg low remaining) (\<lambda>(w', runs', mg'). stacked w0 w' runs' (length w0))"
  using assms(1,2)
proof (induction remaining arbitrary: w runs mg low rule: less_induct)
  case (less remaining)
  from less.prems(1) obtain xs where xs: "w = take low w @ xs" "low = length (take low w)"
    "length xs = length w0 - low" "set xs \<subseteq> set w0" "low \<le> length w0"
    by (rule stacked_split)
  let ?pre = "take low w"
  show ?case
  proof (cases "remaining = 0")
    case True
    then have "low = length w0" using less.prems(2) xs(5) by simp
    then show ?thesis using True less.prems(1) by (subst sort_loop.simps) simp
  next
    case False
    have ne: "xs \<noteq> []" and rem: "length xs = remaining" using False less.prems(2) xs(3) by auto
    have xsS: "set xs \<subseteq> S" using xs(4) S by blast
    have w: "w = ?pre @ xs @ []" using xs(1) by simp
    have find: "wp N (count_and_make_run c w low (low + remaining))
        (\<lambda>(run, w'). 0 < run \<and> run \<le> length xs \<and> merged ?pre (take run xs) (drop run xs @ []) w')"
      by (rule wp_count_and_make_run[OF w xs(2) _ ne xsS]) (use xs(2) rem in simp)
    have extend: "wp N (if cur < min_run then
          let forced = min min_run remaining in
          sbind (binary_insertion_sort c w' low (low + cur) (low + forced)) (\<lambda>w. sret (forced, w))
        else sret (cur, w'))
      (\<lambda>(cur, w''). 0 < cur \<and> cur \<le> remaining \<and> merged ?pre (take cur xs) (drop cur xs) w'')"
      if cur: "0 < cur" "cur \<le> length xs" and m: "merged ?pre (take cur xs) (drop cur xs) w'" for cur w'
    proof -
      let ?f = "min min_run remaining"
      obtain ys where ys: "w' = ?pre @ ys @ drop cur xs" "sorts_to (take cur xs) ys"
        using m by (auto simp: merged_def)
      have f: "cur \<le> ?f" "?f \<le> length xs" "0 < ?f" if "cur < min_run" using that cur rem by auto
      have "drop cur xs = drop cur (take ?f xs) @ drop ?f xs" if "cur < min_run"
      proof -
        have "drop cur (take ?f xs @ drop ?f xs) = drop cur (take ?f xs) @ drop ?f xs"
          using f[OF that] by (subst drop_append) simp
        then show ?thesis by simp
      qed
      then have "wp N (insertion_loop c w' low (length ?pre + cur) (length ?pre + length (take ?f xs)))
          (merged ?pre (take ?f xs) (drop ?f xs))" if "cur < min_run"
        using f[OF that] ys xsS xs(2) that
        by (intro wp_insertion_loop[of w' ?pre ys cur "take ?f xs"]) (auto simp: min_def dest: in_set_takeD)
      then have "wp N (binary_insertion_sort c w' low (low + cur) (low + ?f))
          (merged ?pre (take ?f xs) (drop ?f xs))" if "cur < min_run"
        using f[OF that] xs(2) that cur unfolding binary_insertion_sort_def by simp
      then show ?thesis
        unfolding Let_def
        by (intro wp_if wp_bindI) (use f cur rem m in auto)
    qed
    show ?thesis
      apply (subst sort_loop.simps)
      apply (rule wp_if)
       apply (rule wp_bindI[OF find], rule wp_case_prod)
       apply (rule wp_bindI[OF extend])
          apply simp_all[3]
       apply (rule wp_case_prod)
    proof goal_cases
      case (1 x cur w1 y cur' w2)
      then obtain ys where ys: "w2 = ?pre @ ys @ drop cur' xs" "sorts_to (take cur' xs) ys"
        and c: "0 < cur'" "cur' \<le> remaining"
        by (auto simp: merged_def)
      have "stacked w0 w2 (runs @ [(length ?pre, length (take cur' xs))]) (length ?pre + length (take cur' xs))"
      proof (rule stacked_push)
        show "stacked w0 w runs (length ?pre)" using less.prems(1) xs(2) by simp
        show "w = ?pre @ take cur' xs @ drop cur' xs" using xs(1) by simp
      qed (use ys c ne in auto)
      moreover have "length (take cur' xs) = cur'" using c rem by simp
      ultimately have st: "stacked w0 w2 (runs @ [(low, cur')]) (low + cur')"
        by (simp only: xs(2)[symmetric])
      have rest: "wp N (sort_loop c min_run w3 runs3 mg3 (low + cur') (remaining - cur'))
          (\<lambda>(w', runs', mg'). stacked w0 w' runs' (length w0))"
        if "stacked w0 w3 runs3 (low + cur')" for w3 runs3 mg3
        by (rule less.IH[OF _ that]) (use c less.prems(2) in auto)
      show ?case
        apply (rule wp_bindI[OF wp_collapse[OF st S]])
        apply (rule wp_case_prod)+
        apply (rule wp_minusI[OF c(2)], rule rest, simp)
        done
    next
      case 2
      then show ?case using False by simp
    qed
  qed
qed

theorem wp_timsort:
  assumes S: "set w \<subseteq> S" "length w < 2 ^ 63"
  shows "wp N (timsort c w) (sorts_to w)"
proof (cases "length w < 2")
  case True
  then have "ssort K w = w" by (cases w; cases "tl w") auto
  then show ?thesis using True by (simp add: timsort_def sorts_to_def)
next
  case False
  have st: "stacked w w [] 0"
    unfolding stacked_def by (rule exI[of _ "[]"], rule exI[of _ "[]"]) simp
  show ?thesis
    unfolding timsort_def
    apply (rule wp_if, use False in simp)
    apply (rule wp_bindI, rule wp_sort_loop[OF st _ S], simp)
    apply (rule wp_case_prod)+
    apply (rule wp_bindI, rule wp_collapse_all[OF _ S])
     apply simp
    apply (rule wp_case_prod)+
  proof goal_cases
    case (1 x w1 b1 r1 m1 y w2 b2 r2 m2)
    then have "stacked w w2 r2 (length w)" "length r2 \<le> 1" by auto
    then obtain Xs Ys rest where x: "w = concat Xs @ rest" "w2 = concat Ys @ rest" "length w = length (concat Ys)"
      "list_all2 sorts_to Xs Ys" "length Ys \<le> 1"
      unfolding stacked_def by auto
    have len: "length (concat Ys) = length (concat Xs)" using sorts_to_concat[OF x(4)] mset_eq_length by blast
    have "rest = []" using arg_cong[OF x(1), of length] x(3) len by simp
    obtain Y where Y: "Ys = [Y]" using x(3,5) False by (cases Ys) auto
    then obtain X where "Xs = [X]" "sorts_to X Y" using x(4) by (auto simp: list_all2_Cons2)
    then show ?case using x(1,2) Y \<open>rest = []\<close> by simp
  qed
qed

end

end
