(* ===== verification/PayloadArraySort.thy ===== *)
theory PayloadArraySort
  imports PayloadTimsort "HOL-Library.List_Lexorder"
begin

text \<open>
  The methods \<open>sort\<close> and \<open>toSorted\<close> of arrays: the contract \<open>compare_laws\<close> holds for the
  comparison that the interpreter makes (\<open>sort_compare\<close>), whether it orders strings or calls a
  function of the script, and what the sort promises follows for the methods.
\<close>

subsection \<open>The comparison keeps the contract\<close>

text \<open>
  The hypotheses on a comparison function of the script: on the elements of \<open>S\<close> it returns, and
  when it does, the sign says what the total preorder \<open>K\<close> says.
\<close>

definition host_returns :: "('h, 'e, 'v) host \<Rightarrow> 'v \<Rightarrow> 'v set \<Rightarrow> bool" where
  "host_returns H cmp S \<longleftrightarrow> (\<forall>x\<in>S. \<forall>y\<in>S. \<forall>h. \<exists>r h'. sort_compare H cmp x y h = Inr (r, h'))"

definition host_agrees :: "('h, 'e, 'v) host \<Rightarrow> 'v \<Rightarrow> 'v comparator \<Rightarrow> 'v set \<Rightarrow> bool" where
  "host_agrees H cmp K S \<longleftrightarrow>
     (\<forall>x\<in>S. \<forall>y\<in>S. \<forall>h r h'. sort_compare H cmp x y h = Inr (r, h') \<longrightarrow> less_zero r = (compare K x y = Less))"

lemma f64_diff_flip: "f64_diff s m e t n f = - f64_diff t n f s m e"
  by (simp add: f64_diff_def Let_def min.commute)

lemma not_below_iff:
  assumes "r \<noteq> FNan"
  shows "not_less_zero r \<longleftrightarrow> \<not> less_zero r"
proof -
  have z: "f64_of_int 0 = FFin False 0 (-1074)"
    by (simp add: f64_of_int_def f64_round_def f64_zero_def)
  show ?thesis
  proof (cases r)
    case (FFin t n f)
    then show ?thesis
      unfolding less_zero_def not_less_zero_def f64_le_def z using f64_diff_flip[of t n f False 0 "-1074"] by auto
  qed (use assms in \<open>simp_all add: less_zero_def not_less_zero_def f64_le_def z del: f64_of_int_0\<close>)
qed

lemma below_of_int: "\<bar>i\<bar> \<le> 2 ^ 53 \<Longrightarrow> less_zero (f64_of_int i) \<longleftrightarrow> i < 0"
  unfolding less_zero_def by (rule f64_lt_of_int) (simp_all add: f64_exact_small)

lemma f64_of_int_number: "f64_of_int i \<noteq> FNan"
  by (simp add: f64_of_int_def f64_round_def f64_pack_def f64_zero_def Let_def)

lemma sort_compare_number: "sort_compare H cmp x y h = Inr (r, h') \<Longrightarrow> r \<noteq> FNan"
  by (auto simp: sort_compare_def sbind_Inr f64_of_int_number f64_of_int_number[symmetric] simp del: f64_of_int_0 split: if_splits)

lemma host_act_no_panic: "host_act f h \<noteq> Inl SortPanic"
  by (cases "f h") (simp_all add: host_act_def)

lemma sort_compare_no_panic: "sort_compare H cmp x y h \<noteq> Inl SortPanic"
proof -
  have bind: "sbind m k h \<noteq> Inl SortPanic"
    if "\<And>h. m h \<noteq> Inl SortPanic" "\<And>x h. k x h \<noteq> Inl SortPanic"
    for m :: "('a, 'b, 'd) act" and k :: "'d \<Rightarrow> ('a, 'b, 'f) act" and h
    using that by (auto simp: sbind_def split: sum.split)
  show ?thesis
    unfolding sort_compare_def sbind_def sret_def
    using host_act_no_panic[of "host_str H x"] host_act_no_panic[of "host_str H y"]
      host_act_no_panic[of "host_call H cmp [x, y]"] host_act_no_panic[of "host_num H _"]
    by (auto split: sum.split)
qed

interpretation host_sort: compare_laws "sort_compare H cmp" "host_returns H cmp S" "host_agrees H cmp K S" K S
  for H cmp K S
proof unfold_locales
  show "sort_compare H cmp x y h \<noteq> Inl SortPanic" for x y h by (rule sort_compare_no_panic)
  show "\<exists>r h'. sort_compare H cmp x y h = Inr (r, h')" if "host_returns H cmp S" "x \<in> S" "y \<in> S" for x y h
    using that by (simp add: host_returns_def)
  show "less_zero r = (compare K x y = Less) \<and> not_less_zero r = (compare K x y \<noteq> Less)"
    if "host_agrees H cmp K S" "x \<in> S" "y \<in> S" and r: "sort_compare H cmp x y h = Inr (r, h')" for x y h r h'
  proof -
    have "less_zero r = (compare K x y = Less)" using that unfolding host_agrees_def by blast
    moreover have "not_less_zero r \<longleftrightarrow> \<not> less_zero r" using r by (intro not_below_iff sort_compare_number)
    ultimately show ?thesis by simp
  qed
qed

subsection \<open>The elements in order\<close>

text \<open>
  What the sort promises of one call: it never panics, it only fails when a comparison does, and
  what it returns is permuted and, when the comparison can be trusted, the stable sort.
\<close>

lemma sorts_to_host:
  "compare_laws.sorts_to G K xs ys \<longleftrightarrow> mset ys = mset xs \<and> (G \<longrightarrow> ys = ssort K xs)"
  if "compare_laws c N G K S" for c :: "('h, 'e, 'v) compare"
  by (rule compare_laws.sorts_to_def[OF that])

lemma timsort_outcome:
  assumes "length w < 2 ^ 63"
  shows "case timsort (sort_compare H cmp) w h of
      Inl SortPanic \<Rightarrow> False
    | Inl (SortErr e) \<Rightarrow> \<not> host_returns H cmp (set w)
    | Inr (ys, h') \<Rightarrow> mset ys = mset w \<and> (host_agrees H cmp K (set w) \<longrightarrow> ys = ssort K w)"
  using host_sort.wp_timsort[OF order_refl assms, of H cmp K, unfolded wp_def, THEN spec, of h]
  by (simp add: sorts_to_host[OF host_sort.compare_laws_axioms[of H cmp "set w" K]]
      split: sum.splits sort_err.splits prod.splits)

lemma write_back_eq:
  "i \<le> length a \<Longrightarrow> write_back a i vs = take i a @ vs @ drop (i + length vs) a"
proof (induction vs arbitrary: a i)
  case (Cons v vs)
  show ?case
  proof (cases "i < length a")
    case True
    then have "take (Suc i) (a[i := v]) = take i a @ [v]" by (simp add: take_Suc_conv_app_nth)
    then show ?thesis using True Cons.IH[of "i + 1" "a[i := v]"] by simp
  qed (use Cons.prems Cons.IH[of "i + 1" "a @ [v]"] in simp)
qed simp

subsection \<open>The order of strings\<close>

lemma list_cmp_less: "list_cmp as bs < 0 \<longleftrightarrow> as < bs"
  by (induction as bs rule: list_cmp.induct) auto

lemma list_cmp_map:
  assumes "\<forall>x\<in>set as. \<forall>y\<in>set bs. f x < f y \<longleftrightarrow> x < y" "\<forall>x\<in>set as. \<forall>y\<in>set bs. f y < f x \<longleftrightarrow> y < x"
  shows "list_cmp (map f as) (map f bs) = list_cmp as bs"
  using assms by (induction as bs rule: list_cmp.induct) auto

lemma as_bytes_ascii: "list_all (\<lambda>c. c < 128) s \<Longrightarrow> as_bytes s = map of_nat s"
  by (induction s) (auto simp: as_bytes_def utf8_char_def)

lemma encode_utf16_ascii: "list_all (\<lambda>c. c < 128) s \<Longrightarrow> encode_utf16 s = map of_nat s"
  by (induction s) (auto simp: encode_utf16_def utf16_char_def)

text \<open>The shortcut for two ASCII strings gives the order of the UTF-16 units too.\<close>

lemma cmp_utf16_units: "cmp_utf16 a b = list_cmp (encode_utf16 a) (encode_utf16 b)"
proof (cases "list_all (\<lambda>c. c < 128) a \<and> list_all (\<lambda>c. c < 128) b")
  case True
  then have "x < 128 \<and> y < 128" if "x \<in> set a" "y \<in> set b" for x y using that by (auto simp: list_all_iff)
  then have "list_cmp (map of_nat a :: u8 list) (map of_nat b) = list_cmp a b"
    "list_cmp (map of_nat a :: u16 list) (map of_nat b) = list_cmp a b"
    by (intro list_cmp_map; fastforce simp: word_less_nat_alt unat_of_nat)+
  then show ?thesis using True by (simp add: cmp_utf16_def as_bytes_ascii encode_utf16_ascii)
qed (auto simp: cmp_utf16_def)

text \<open>
  So with no comparison function, and a conversion to strings that has no effect, the contract
  holds for the order of the units of the strings.
\<close>

lemma strings_agree:
  assumes "host_undef H cmp" "\<And>x h. x \<in> S \<Longrightarrow> host_str H x h = Inr (f x, h)"
  shows "host_returns H cmp S" "host_agrees H cmp (key (\<lambda>x. encode_utf16 (f x)) default) S"
proof -
  have "less_zero (f64_of_int (list_cmp as bs)) \<longleftrightarrow> as < bs" for as bs :: "u16 list"
  proof -
    have "list_cmp as bs \<in> {-1, 0, 1}" by (induction as bs rule: list_cmp.induct) auto
    then show ?thesis by (subst below_of_int) (auto simp: list_cmp_less[symmetric])
  qed
  then show "host_returns H cmp S" "host_agrees H cmp (key (\<lambda>x. encode_utf16 (f x)) default) S"
    using assms by (simp_all add: host_returns_def host_agrees_def sort_compare_def host_act_def sbind_def
        sret_def cmp_utf16_units)
qed

subsection \<open>The methods\<close>

text \<open>The items that the sort orders, and the number of those it leaves out.\<close>

abbreviation defined_items :: "('h, 'e, 'v) host \<Rightarrow> 'h \<Rightarrow> 'v list" where
  "defined_items H h \<equiv> filter (\<lambda>x. \<not> host_undef H x) (host_arr H h)"

abbreviation undefined_count :: "('h, 'e, 'v) host \<Rightarrow> 'h \<Rightarrow> nat" where
  "undefined_count H h \<equiv> length (filter (host_undef H) (host_arr H h))"

text \<open>How the methods answer with the new contents of the array.\<close>

abbreviation sort_answer :: "('h, 'e, 'v) host \<Rightarrow> bool \<Rightarrow> 'v \<Rightarrow> 'v list \<Rightarrow> 'h \<Rightarrow> 'v \<times> 'h" where
  "sort_answer H to_sorted this zs h \<equiv>
     (if to_sorted then host_alloc H zs h
      else (this, host_set_arr H (zs @ drop (length zs) (host_arr H h)) h))"

lemma sort_method_eq:
  "sort_method H to_sorted undef this cmp h =
     (if host_undef H cmp \<or> host_callable H cmp
      then case timsort (sort_compare H cmp) (defined_items H h) h of
          Inl e \<Rightarrow> Inl e
        | Inr (ys, h') \<Rightarrow> Inr (sort_answer H to_sorted this (ys @ replicate (undefined_count H h) undef) h')
      else Inl (SortErr (host_not_callable H h)))"
  by (simp add: sort_method_def sorted_items_def sbind_def sret_def write_back_eq split: sum.split prod.split)

lemma timsort_defined:
  assumes "length (host_arr H h) < 2 ^ 63"
  shows "case timsort (sort_compare H cmp) (defined_items H h) h of
      Inl SortPanic \<Rightarrow> False
    | Inl (SortErr e) \<Rightarrow> \<not> host_returns H cmp (set (defined_items H h))
    | Inr (ys, h') \<Rightarrow> mset ys = mset (defined_items H h) \<and>
        (host_agrees H cmp K (set (defined_items H h)) \<longrightarrow> ys = ssort K (defined_items H h))"
  by (rule timsort_outcome) (use assms le_less_trans[OF length_filter_le] in blast)

text \<open>C36: \<open>sort\<close> and \<open>toSorted\<close> return the stable sort. When the comparison function is undefined or
  callable and, on the defined elements, always returns a number whose sign agrees with a total
  preorder, the call succeeds, and the array it returns or writes back holds the defined elements
  in that order, equal ones in their old order, and then the undefined ones; where the comparisons
  have made the array longer, the rest of it is left alone. The sort by runs, insertion, merges
  and galloping is thus the textbook stable sort.\<close>

theorem array_sort_stable:
  assumes "length (host_arr H h) < 2 ^ 63" "host_undef H cmp \<or> host_callable H cmp"
    and "host_returns H cmp (set (defined_items H h))" "host_agrees H cmp K (set (defined_items H h))"
  shows "\<exists>h'. sort_method H to_sorted undef this cmp h =
    Inr (sort_answer H to_sorted this
      (ssort K (defined_items H h) @ replicate (undefined_count H h) undef) h')"
  using timsort_defined[OF assms(1), of cmp K] assms(2-4)
  by (auto simp: sort_method_eq split: sum.splits sort_err.splits)

text \<open>C37: No comparison can break the sort. Whatever the comparison answers, even if it contradicts
  itself, changes its mind or changes the array, the sort ends, never indexes out of range and never
  subtracts under zero; it only fails when the comparison is not a function or may fail itself, and
  otherwise what is returned or written back is a permutation of the defined elements, and then the
  undefined ones.\<close>

theorem array_sort_permutes:
  assumes "length (host_arr H h) < 2 ^ 63"
  shows "case sort_method H to_sorted undef this cmp h of
      Inl SortPanic \<Rightarrow> False
    | Inl (SortErr e) \<Rightarrow>
        \<not> host_undef H cmp \<and> \<not> host_callable H cmp \<or> \<not> host_returns H cmp (set (defined_items H h))
    | Inr r \<Rightarrow> \<exists>ys h'. mset ys = mset (defined_items H h) \<and>
        r = sort_answer H to_sorted this (ys @ replicate (undefined_count H h) undef) h'"
proof (cases "timsort (sort_compare H cmp) (defined_items H h) h")
  case (Inl e)
  then show ?thesis
    using timsort_defined[OF assms, of cmp flat] by (cases e) (simp_all add: sort_method_eq)
next
  case (Inr r)
  obtain ys h' where r: "r = (ys, h')" by force
  have "mset ys = mset (defined_items H h)" using timsort_defined[OF assms, of cmp flat] by (simp add: Inr r)
  then show ?thesis by (simp only: sort_method_eq Inr r sum.case prod.case sort_err.case split: if_split) blast
qed

text \<open>
  A script sorts \<open>[3, 1, undefined, 2]\<close> with the function \<open>f\<close>. A value is an integer, 100 stands
  for \<open>undefined\<close> and 7 for the function; the state is the array.
\<close>

abbreviation int_host :: "(int \<Rightarrow> int \<Rightarrow> int) \<Rightarrow> (int list, string, int) host" where
  "int_host f \<equiv>
     \<lparr>host_str = \<lambda>_ h. Inr ([], h), host_call = \<lambda>_ xs h. Inr (f (xs ! 0) (xs ! 1), h),
      host_num = \<lambda>x h. Inr (f64_of_int x, h), host_undef = \<lambda>x. x = 100, host_callable = \<lambda>x. x = 7,
      host_not_callable = \<lambda>_. ''TypeError'', host_arr = \<lambda>h. h, host_set_arr = \<lambda>a _. a,
      host_alloc = \<lambda>a _. (0, a)\<rparr>"

lemma int_host_returns: "host_returns (int_host f) 7 S"
  by (simp add: host_returns_def sort_compare_def host_act_def sbind_def sret_def)

lemma array_sort_stable_witness:
  "sort_method (int_host (-)) True 100 55 7 [3, 1, 100, 2] = Inr (0, [1, 2, 3, 100])"
proof -
  have agrees: "host_agrees (int_host (-)) 7 default (set (defined_items (int_host (-)) [3, 1, 100, 2]))"
    using f64_of_int_number
    by (simp add: host_agrees_def sort_compare_def host_act_def sbind_def sret_def below_of_int del: f64_of_int_0)
  have "ssort default [3, 1, 2] = [1, 2, 3 :: int]"
    by (rule sort_eqI) (auto simp: filter_empty_conv)
  then show ?thesis
    using array_sort_stable[OF _ _ int_host_returns agrees, of True 100 55] by simp
qed

text \<open>A comparison that calls every element smaller than every other.\<close>

lemma array_sort_permutes_witness:
  "\<exists>ys. mset ys = {#3, 1, 2#} \<and>
     sort_method (int_host (\<lambda>_ _. -1)) True 100 55 7 [3, 1, 100, 2] = Inr (0, ys @ [100])"
  using array_sort_permutes[where H = "int_host (\<lambda>_ _. -1)" and h = "[3, 1, 100, 2]" and to_sorted = True
      and undef = 100 and this = 55 and cmp = 7]
  by (auto simp: int_host_returns[of "\<lambda>_ _. -1"] split: sum.splits sort_err.splits)

end
