(* ===== verification/PayloadBlob.thy ===== *)
theory PayloadBlob
  imports Decoder Strings
begin

text \<open>
  The second half of \<open>src/payload/blob.rs\<close>: the payload's program is one string of characters of
  an alphabet, like the worktime program, but its words are masked with the digits of a seed that
  changes with the time. The decoder reads the numbers with a fast path in integers, tries the
  time buckets around the clock until a checksum of the first words fits, and takes the digits off
  again. The parameters (\<open>BlobParams\<close>) come from the syntax tree of the script and are data here.

  The integer arithmetic is that of \<open>i64\<close> with wrap-around (\<open>wrap64\<close>). A loop that would never
  return and an index out of range are the result \<open>None\<close>.
\<close>

subsection \<open>Conversions of \<open>src/payload/fold.rs\<close>\<close>

definition fold_to_int32 :: "f64 \<Rightarrow> i32" where
  "fold_to_int32 x =
     (if is_finite x \<and> f64_lt (f64_abs x) TWO_63
      then word_of_int (f64_sat (- (2 ^ 63)) (2 ^ 63 - 1) x)
      else if \<not> is_finite x then 0
      else word_of_int (f64_sat 0 (2 ^ 32 - 1) (f64_rem_euclid (f64_of_int (f64_trunc x)) TWO_32)))"

text \<open>
  Rust's text of an \<open>f64\<close>: the shortest decimal \<open>d * 10 ^ q\<close> that reads back as the same double,
  the closest of them, written without an exponent. \<open>f64_of_ratio\<close> is the double nearest to
  \<open>a / b\<close>.
\<close>

definition f64_of_ratio :: "nat \<Rightarrow> nat \<Rightarrow> f64" where
  "f64_of_ratio a b =
     (let k = 64 + floorlog 2 b in
      f64_round False (2 * (a * 2 ^ k div b) + (if a * 2 ^ k mod b = 0 then 0 else 1)) (- int k - 1))"

definition ratio_shift :: "nat \<Rightarrow> nat \<Rightarrow> int \<Rightarrow> nat \<times> nat" where
  "ratio_shift a b q = (if 0 \<le> q then (a, b * 10 ^ nat q) else (a * 10 ^ nat (- q), b))"

definition f64_of_decimal :: "nat \<Rightarrow> int \<Rightarrow> f64" where
  "f64_of_decimal d q = (let (a, b) = ratio_shift d 1 (- q) in f64_of_ratio a b)"

function leading_zeros :: "nat \<Rightarrow> nat \<Rightarrow> nat" where
  "leading_zeros a b = (if 0 < a \<and> 10 * a < b then 1 + leading_zeros (10 * a) b else 0)"
  by pat_completeness auto
termination by (relation "measure (\<lambda>(a, b). b - a)") auto

declare leading_zeros.simps [simp del]

definition decimal_with :: "f64 \<Rightarrow> nat \<Rightarrow> nat \<Rightarrow> nat \<Rightarrow> (nat \<times> int) option" where
  "decimal_with x a b k =
     (let p = (if b \<le> a then int (length (dec (a div b))) else - int (leading_zeros a b));
          q = p - int k; (n, m) = ratio_shift a b q; d = n div m;
          lo = f64_of_decimal d q = x; hi = f64_of_decimal (d + 1) q = x
      in if hi \<and> (\<not> lo \<or> m \<le> 2 * (n mod m)) then Some (d + 1, q) else if lo then Some (d, q) else None)"

definition shortest_decimal :: "f64 \<Rightarrow> nat \<times> int" where
  "shortest_decimal x =
     (case x of
        FFin s m e \<Rightarrow>
          (let found = map_option (\<lambda>k. the (decimal_with (FFin False m e) (m * 2 ^ nat e) (2 ^ nat (- e)) k))
                 (find (\<lambda>k. decimal_with (FFin False m e) (m * 2 ^ nat e) (2 ^ nat (- e)) k \<noteq> None) [1..<18]) in
           case found of
             Some (d, q) \<Rightarrow> if d mod 10 = 0 then (d div 10, q + 1) else (d, q)
           | None \<Rightarrow> (0, 0))
      | _ \<Rightarrow> (0, 0))"

definition f64_display :: "f64 \<Rightarrow> str" where
  "f64_display x =
     (case x of FNan \<Rightarrow> chars ''NaN'' | FInf s \<Rightarrow> (if s then [45] else []) @ chars ''inf''
      | FFin s m e \<Rightarrow>
          (if s then [45] else []) @
          (let (d, q) = shortest_decimal x; ds = dec d in
           if m = 0 then [48]
           else if 0 \<le> q then ds @ replicate (nat q) 48
           else let k = nat (- q); ds = replicate (k + 1 - length ds) 48 @ ds
             in take (length ds - k) ds @ [46] @ drop (length ds - k) ds))"

definition number_to_string :: "f64 \<Rightarrow> str" where
  "number_to_string n =
     (if n = FNan then chars ''NaN''
      else if \<not> is_finite n then (if f64_lt (f64_zero False) n then chars ''Infinity'' else chars ''-Infinity'')
      else if f64_integral n \<and> f64_lt (f64_abs n) (f64_of_int (10 ^ 21)) then idec (f64_trunc n)
      else f64_display n)"

subsection \<open>The alphabet\<close>

abbreviation CONT :: u16 where "CONT \<equiv> 0x8000"
abbreviation DIGIT :: u16 where "DIGIT \<equiv> 0x7FFF"

definition EXACT :: int where "EXACT = 2 ^ 40"

text \<open>The index that ends a number, or with the flag \<open>CONT\<close> the digit that continues it.\<close>

definition packed :: "nat \<Rightarrow> nat \<Rightarrow> u16" where
  "packed index radix = (if index < radix then of_nat index else CONT OR of_nat (index mod radix + radix))"

record blob_table =
  tb_ascii :: "u16 list"
  tb_wide :: "(u16 \<times> u16) list"
  tb_zero :: u16

definition wide_code :: "blob_table \<Rightarrow> u16 \<Rightarrow> u16" where
  "wide_code t u =
     (if u < 256 then tb_ascii t ! unat u
      else case find (\<lambda>(w, c). w = u) (tb_wide t) of Some (w, c) \<Rightarrow> c | None \<Rightarrow> tb_zero t)"

fun set_code :: "(u16 \<times> u16) list \<Rightarrow> u16 \<Rightarrow> u16 \<Rightarrow> (u16 \<times> u16) list" where
  "set_code [] u c = [(u, c)]"
| "set_code ((w, d) # ws) u c = (if w = u then (w, c) # ws else (w, d) # set_code ws u c)"

definition table_add :: "nat \<Rightarrow> blob_table \<Rightarrow> nat \<times> u16 \<Rightarrow> blob_table" where
  "table_add radix t iu =
     (let (i, u) = iu; c = packed i radix in
      if u < 256 then t\<lparr>tb_ascii := (tb_ascii t)[unat u := c]\<rparr>
      else t\<lparr>tb_wide := set_code (tb_wide t) u c\<rparr>)"

definition blob_table_of :: "nat \<Rightarrow> u16 list \<Rightarrow> blob_table" where
  "blob_table_of radix alpha =
     (let zero = packed 0 radix in
      foldl (table_add radix) \<lparr>tb_ascii = replicate 256 zero, tb_wide = [], tb_zero = zero\<rparr> (enumerate 0 alpha))"

text \<open>
  The codes of a text that is not ASCII, from its UTF-8 bytes: each character is decoded and
  looked up as one UTF-16 unit or two. A byte past the end counts as 0.
\<close>

definition byte_at :: "u8 list \<Rightarrow> nat \<Rightarrow> u32" where
  "byte_at bs k = ucast ((case get bs k of Some b \<Rightarrow> b | None \<Rightarrow> 0) AND 0x3f)"

definition scalar_at :: "u8 list \<Rightarrow> u32 \<times> nat" where
  "scalar_at bs =
     (let b0 = hd bs in
      if b0 < 0xe0 then (push_bit 6 (ucast (b0 AND 0x1f)) OR byte_at bs 1, 2)
      else if b0 < 0xf0 then
        (push_bit 12 (ucast (b0 AND 0x0f)) OR push_bit 6 (byte_at bs 1) OR byte_at bs 2, 3)
      else
        (push_bit 18 (ucast (b0 AND 0x07)) OR push_bit 12 (byte_at bs 1) OR push_bit 6 (byte_at bs 2) OR byte_at bs 3,
         4))"

function codes :: "blob_table \<Rightarrow> u8 list \<Rightarrow> u16 list" where
  "codes t bs =
     (if bs = [] then []
      else if hd bs < 0x80 then tb_ascii t ! unat (hd bs) # codes t (tl bs)
      else let (cp, n) = scalar_at bs in
        (if cp < 0x10000 then [wide_code t (ucast cp)]
         else let v = cp - 0x10000 in
           [wide_code t (0xd800 OR ucast (drop_bit 10 v)), wide_code t (0xdc00 OR ucast (v AND 0x3ff))])
        @ codes t (drop n bs))"
  by pat_completeness auto
termination
  by (relation "measure (\<lambda>(_, bs). length bs)") (auto simp: scalar_at_def Let_def split: if_splits)

declare codes.simps [simp del]

subsection \<open>The numbers\<close>

definition wrap64 :: "int \<Rightarrow> int" where
  "wrap64 i = signed_take_bit 63 i"

definition POW_CAP :: nat where "POW_CAP = 16"

text \<open>
  The powers of the base up to the first that is not below \<open>EXACT\<close>, and its position; at most
  \<open>POW_CAP\<close> of them.
\<close>

fun pow_table :: "nat \<Rightarrow> int \<Rightarrow> nat \<Rightarrow> int \<Rightarrow> int list \<times> nat" where
  "pow_table 0 base k w = ([], POW_CAP - 1)"
| "pow_table (Suc rest) base k w =
     (if EXACT \<le> w then (w # replicate rest 0, k)
      else let (ws, kmax) = pow_table rest base (k + 1) (min (w * base) (2 ^ 63 - 1)) in (w # ws, kmax))"

text \<open>The next code; after the end, \<open>zero\<close>.\<close>

definition next_code :: "u16 list \<Rightarrow> u16 \<Rightarrow> nat \<Rightarrow> u16 \<times> nat" where
  "next_code cs zero j = (if j < length cs then (cs ! j, j + 1) else (zero, j))"

function finish_float :: "u16 list \<Rightarrow> u16 \<Rightarrow> f64 \<Rightarrow> nat \<Rightarrow> f64 \<Rightarrow> f64 \<Rightarrow> (i32 \<times> nat) option" where
  "finish_float cs zero base j fm fw =
     (let (c, j') = next_code cs zero j in
      if c AND CONT = 0 then Some (fold_to_int32 (f64_add fm (f64_mul fw (f64_of_int (uint c)))), j')
      else if j < length cs then
        finish_float cs zero base j' (f64_add fm (f64_mul fw (f64_of_int (uint (c AND DIGIT))))) (f64_mul fw base)
      else None)"
  by pat_completeness auto
termination
  by (relation "measure (\<lambda>(cs, _, _, j, _, _). length cs - j)") (auto simp: next_code_def)

function finish_exact :: "u16 list \<Rightarrow> u16 \<Rightarrow> int \<Rightarrow> nat \<Rightarrow> int \<Rightarrow> int \<Rightarrow> (i32 \<times> nat) option" where
  "finish_exact cs zero base j m w =
     (if w < EXACT then
        let (c, j') = next_code cs zero j in
        if c AND CONT = 0 then Some (word_of_int (wrap64 (m + wrap64 (w * uint c))), j')
        else if j < length cs then
          finish_exact cs zero base j' (wrap64 (m + wrap64 (w * uint (c AND DIGIT)))) (wrap64 (w * base))
        else None
      else finish_float cs zero (f64_of_int base) j (f64_of_int m) (f64_of_int w))"
  by pat_completeness auto
termination
  by (relation "measure (\<lambda>(cs, _, _, j, _, _). length cs - j)") (auto simp: next_code_def)

declare finish_float.simps [simp del] finish_exact.simps [simp del]


lemma finish_float_le: "finish_float cs zero base j fm fw = Some (v, j') \<Longrightarrow> j \<le> j'"
  by (induction cs zero base j fm fw rule: finish_float.induct)
    (subst (asm) (2) finish_float.simps, fastforce simp: next_code_def Let_def split: if_splits)

lemma finish_exact_le: "finish_exact cs zero base j m w = Some (v, j') \<Longrightarrow> j \<le> j'"
  by (induction cs zero base j m w rule: finish_exact.induct)
    (subst (asm) (2) finish_exact.simps,
      fastforce simp: next_code_def Let_def dest: finish_float_le split: if_splits)

text \<open>
  The fast path: \<open>buf[len]\<close> is written for every code and kept when the code ends a number; \<open>m\<close>
  and \<open>k\<close> are cleared by a mask then. From \<open>kmax\<close> on, \<open>finish\<close> takes over.
\<close>

function parse_loop ::
  "u16 list \<Rightarrow> int \<Rightarrow> u16 \<Rightarrow> int list \<Rightarrow> nat \<Rightarrow> i32 list \<Rightarrow> nat \<Rightarrow> nat \<Rightarrow> int \<Rightarrow> nat \<Rightarrow> (i32 list \<times> nat \<times> int \<times> nat) option"
where
  "parse_loop cs base zero pow kmax buf len j m k =
     (if j < length cs \<and> k < length pow \<and> len < length buf then
        let c = cs ! j; cont = uint (drop_bit 15 c); v = wrap64 (m + wrap64 (pow ! k * uint (c AND DIGIT)));
            buf = buf[len := word_of_int v]; len = len + nat (1 - cont); keep = - cont;
            m = v AND keep; k = unat ((of_nat (k + 1) :: u64) AND word_of_int keep)
        in if kmax \<le> k then
             if k < length pow \<and> len < length buf then
               case finish_exact cs zero base (j + 1) m (pow ! k) of
                 None \<Rightarrow> None
               | Some (v, next) \<Rightarrow> parse_loop cs base zero pow kmax (buf[len := v]) (len + 1) next 0 0
             else None
           else parse_loop cs base zero pow kmax buf len (j + 1) m k
      else if j < length cs then None else Some (buf, len, m, k))"
  by pat_completeness auto
termination
  by (relation "measure (\<lambda>(cs, _, _, _, _, _, _, j, _, _). length cs - j)") (auto dest!: finish_exact_le)

declare parse_loop.simps [simp del]

definition parse_codes :: "u16 list \<Rightarrow> int \<Rightarrow> u16 \<Rightarrow> i32 list option" where
  "parse_codes cs base zero =
     (let (pow, kmax) = pow_table POW_CAP base 0 1 in
      case parse_loop cs base zero pow kmax (replicate (length cs + 1) 0) 0 0 0 0 of
        None \<Rightarrow> None
      | Some (buf, len, m, k) \<Rightarrow>
          if k \<noteq> 0 then
            if k < length pow \<and> len < length buf
            then Some (take (len + 1) (buf[len := word_of_int (wrap64 (m + wrap64 (pow ! k * uint zero)))]))
            else None
          else Some (take len buf))"

subsection \<open>The mask\<close>

datatype subtract = Cyclic nat | CyclicSum | Prefix nat

record blob_params =
  bp_divisor :: f64
  bp_mult :: f64
  bp_target :: u32
  bp_offset :: f64
  bp_prime :: f64
  bp_check_len :: nat
  bp_sep :: "u8 list"
  bp_sub :: subtract

text \<open>The errors of decoding; \<open>BlobPanic\<close> stands for an index out of range and for a loop without end.\<close>

datatype blob_error = BlobRadix f64 nat | NoBucket int | BlobPanic

text \<open>The digits of a seed, or their prefix sums, and where to start.\<close>

record keyed =
  ky_ring :: "int list"
  ky_at :: nat

fun prefix_sums :: "int \<Rightarrow> int list \<Rightarrow> int list" where
  "prefix_sums acc [] = []"
| "prefix_sums acc (d # ds) = acc # prefix_sums (acc + d) ds"

definition keyed_new :: "f64 \<Rightarrow> subtract \<Rightarrow> keyed option" where
  "keyed_new seed sub =
     (let txt = number_to_string seed; digits = map (\<lambda>c. int c - 48) txt in
      if \<not> list_all (\<lambda>c. 48 \<le> c \<and> c \<le> 57) txt \<or> digits = [] then None
      else let (ring, start) = (case sub of
                 Cyclic start \<Rightarrow> (digits, start)
               | CyclicSum \<Rightarrow> (digits, nat (sum_list digits))
               | Prefix start \<Rightarrow> (prefix_sums 0 digits, start))
        in Some \<lparr>ky_ring = ring, ky_at = start mod length ring\<rparr>)"

definition checksum :: "blob_params \<Rightarrow> int list \<Rightarrow> u32" where
  "checksum p vs =
     (let scratch = concat (map (\<lambda>(i, v). (if 0 < i then bp_sep p else []) @ as_bytes (idec v)) (enumerate 0 vs));
          acc = foldl (\<lambda>acc b. f64_mul (f64_of_int (sint (fold_to_int32 acc XOR ucast b))) (bp_prime p))
                  (bp_offset p) scratch
      in fold_to_int32 acc)"

fun sub_zip :: "i32 list \<Rightarrow> i32 list \<Rightarrow> i32 list" where
  "sub_zip (v # vs) (d # ds) = (v - d) # sub_zip vs ds"
| "sub_zip vs _ = vs"

lemma length_sub_zip [simp]: "length (sub_zip vs ds) = length vs"
  by (induction vs ds rule: sub_zip.induct) auto

function sub_chunks :: "i32 list \<Rightarrow> i32 list \<Rightarrow> i32 list" where
  "sub_chunks vs r =
     (if vs = [] \<or> r = [] then [] else sub_zip (take (length r) vs) r @ sub_chunks (drop (length r) vs) r)"
  by pat_completeness auto
termination by (relation "measure (\<lambda>(vs, _). length vs)") auto

declare sub_chunks.simps [simp del]

definition unkey :: "i32 list \<Rightarrow> int list \<Rightarrow> nat \<Rightarrow> i32 list" where
  "unkey raw ring at0 =
     (let r = map word_of_int ring; n = min (length r - at0) (length raw) in
      sub_zip (take n raw) (drop at0 r) @ sub_chunks (drop n raw) r)"

fun head_values :: "int list \<Rightarrow> nat \<Rightarrow> i32 list \<Rightarrow> int list" where
  "head_values ring at0 [] = []"
| "head_values ring at0 (v # vs) =
     (sint v - ring ! at0) # head_values ring (if at0 + 1 = length ring then 0 else at0 + 1) vs"

text \<open>The buckets in the order in which they are tried.\<close>

definition BACK_SCAN :: int where "BACK_SCAN = 4000"
definition FORWARD_SCAN :: int where "FORWARD_SCAN = 8"

definition bucket_order :: "int \<Rightarrow> int list" where
  "bucket_order center =
     [center, wrap64 (center - 1), wrap64 (center + 1)] @
     map (\<lambda>d. wrap64 (center - d)) [2..BACK_SCAN] @ map (\<lambda>d. wrap64 (center + d)) [2..FORWARD_SCAN]"

text \<open>The floor of a double as an \<open>i64\<close>, saturated.\<close>

definition floor_i64 :: "f64 \<Rightarrow> int" where
  "floor_i64 x = (case x of FNan \<Rightarrow> 0 | FInf s \<Rightarrow> (if s then - (2 ^ 63) else 2 ^ 63 - 1)
     | FFin s m e \<Rightarrow> max (- (2 ^ 63)) (min (2 ^ 63 - 1)
         (if 0 \<le> e then f64_signed s (m * 2 ^ nat e) else f64_signed s m div 2 ^ nat (- e))))"

definition bucket_key :: "blob_params \<Rightarrow> i32 list \<Rightarrow> int \<Rightarrow> keyed option" where
  "bucket_key p raw bucket =
     (let seed = f64_mul (f64_of_int bucket) (bp_mult p) in
      if f64_le seed (f64_zero False) then None
      else case keyed_new seed (bp_sub p) of
          None \<Rightarrow> None
        | Some kd \<Rightarrow>
            if checksum p (head_values (ky_ring kd) (ky_at kd) (take (bp_check_len p) raw)) \<noteq> bp_target p
            then None else Some kd)"

fun try_buckets :: "blob_params \<Rightarrow> i32 list \<Rightarrow> int list \<Rightarrow> i32 list option" where
  "try_buckets p raw [] = None"
| "try_buckets p raw (b # bs) =
     (case bucket_key p raw b of
        Some kd \<Rightarrow> Some (unkey raw (ky_ring kd) (ky_at kd))
      | None \<Rightarrow> try_buckets p raw bs)"

definition run_blob :: "i32 list \<Rightarrow> blob_params \<Rightarrow> f64 \<Rightarrow> blob_error + i32 list" where
  "run_blob raw p now_ms =
     (let center = floor_i64 (f64_add (f64_div now_ms (bp_divisor p)) (FFin False (2 ^ 52) (-53))) in
      if length raw < bp_check_len p then Inl (NoBucket center)
      else opt_res (NoBucket center) (try_buckets p raw (bucket_order center)))"

definition blob_raw :: "str \<Rightarrow> u16 list \<Rightarrow> nat \<Rightarrow> i32 list option" where
  "blob_raw blob alpha radix =
     (let base = int (length alpha - radix); t = blob_table_of radix alpha in
      if list_all (\<lambda>c. c < 128) blob
      then parse_codes (map (\<lambda>b. tb_ascii t ! unat b) (as_bytes blob)) base (tb_zero t)
      else parse_codes (codes t (as_bytes blob)) base (tb_zero t))"

definition decode_payload_blob :: "str \<Rightarrow> str \<Rightarrow> f64 \<Rightarrow> blob_params \<Rightarrow> f64 \<Rightarrow> blob_error + i32 list" where
  "decode_payload_blob blob alphabet radix p now_ms =
     (let alpha = encode_utf16 alphabet in
      if \<not> f64_integral radix \<or> f64_le radix (f64_zero False) \<or>
         f64_le (f64_of_int (int (length alpha))) radix \<or> 0x7FFF \<le> length alpha
      then Inl (BlobRadix radix (length alpha))
      else res_bind (opt_res BlobPanic (blob_raw blob alpha (nat (f64_sat 0 (2 ^ 32 - 1) radix))))
             (\<lambda>raw. run_blob raw p now_ms))"

end
