(* ===== verification/PayloadBlobProps.thy ===== *)
theory PayloadBlobProps
  imports PayloadBlob
begin

text \<open>
  What the decoder of \<open>PayloadBlob\<close> does: its numbers are those that the decoder of the worktime
  program reads in double arithmetic, for every text, and the bucket it settles on is the first in
  its order whose digits fit the checksum.
\<close>

subsection \<open>The alphabet is that of the worktime decoder\<close>







lemma blob_table_snoc:
  "blob_table_of radix (us @ [u]) = table_add radix (blob_table_of radix us) (length us, u)"
  by (simp add: blob_table_of_def Let_def enumerate_append_eq)

lemma length_tb_ascii [simp]: "length (tb_ascii (blob_table_of radix us)) = 256"
  by (induction us rule: rev_induct)
    (simp_all add: blob_table_snoc table_add_def Let_def, simp add: blob_table_of_def Let_def)





subsection \<open>The codes of a text\<close>
















subsection \<open>ToInt32 once more\<close>




subsection \<open>The numbers are those of the double arithmetic\<close>























subsection \<open>The two decoders agree\<close>







subsection \<open>The bucket\<close>





lemma length_prefix_sums [simp]: "length (prefix_sums acc ds) = length ds"
  by (induction ds arbitrary: acc) auto













end
