(* ===== verification/PayloadQuery.thy ===== *)
theory PayloadQuery
  imports Strings
begin

text \<open>
  \<open>src/payload/query.rs\<close>: which site a payload link belongs to, and the parameters of its query.
  The loop over the pairs keeps the first value of every parameter and stops as soon as it has
  all; the theorem says that the result is that of looking each parameter up in the whole query.

  The link is parsed by the \<open>url\<close> crate, of which the model has the host and the query; percent
  decoding comes from the \<open>urlencoding\<close> crate and is a parameter.
\<close>

subsection \<open>Sites\<close>

definition V_PARAM :: str where "V_PARAM = chars ''x-kpsdk-v''"
definition IM_PARAM :: str where "IM_PARAM = chars ''x-kpsdk-im''"
definition H_PARAM :: str where "H_PARAM = chars ''x-kpsdk-h''"
definition FC_PARAM :: str where "FC_PARAM = chars ''x-kpsdk-fc''"
definition NIKE_API_PARAM :: str where "NIKE_API_PARAM = chars ''akm_bmscz_c2''"
definition CHAMPSSPORTS_PARAM :: str where "CHAMPSSPORTS_PARAM = chars ''ak_bmsc_chmps''"
definition FOOTLOCKER_PARAM :: str where "FOOTLOCKER_PARAM = chars ''ak_bmsc_fl_com''"
definition KP_UIDZ_PARAM :: str where "KP_UIDZ_PARAM = chars ''KP_UIDz''"

datatype site = ChampsSports | Footlocker | Scheels | Nike | NikeApi | Costco | Ticketmaster | Twitch

text \<open>The labels of the sites, in the order in which they are compared.\<close>

definition SITE_LABELS :: "(string \<times> site) list" where
  "SITE_LABELS =
     [(''champssports'', ChampsSports), (''footlocker'', Footlocker), (''scheels'', Scheels), (''nike'', Nike),
      (''costco'', Costco), (''ticketmaster'', Ticketmaster), (''twitchcdn'', Twitch)]"

definition from_host :: "str \<Rightarrow> site option" where
  "from_host host0 =
     (let host = trim_end (\<lambda>c. c = 46) host0 in
      if eq_ignore_ascii_case (as_bytes host) (bytes ''api.nike.com'') then Some NikeApi
      else case rev (split_on 46 host) of
          tld # name # _ \<Rightarrow>
            if tld = [] then None
            else map_option snd (find (\<lambda>(label, _). eq_ignore_ascii_case (as_bytes name) (bytes label)) SITE_LABELS)
        | _ \<Rightarrow> None)"

fun site_param :: "site \<Rightarrow> str" where
  "site_param ChampsSports = CHAMPSSPORTS_PARAM"
| "site_param Footlocker = FOOTLOCKER_PARAM"
| "site_param NikeApi = NIKE_API_PARAM"
| "site_param Scheels = KP_UIDZ_PARAM"
| "site_param Nike = KP_UIDZ_PARAM"
| "site_param Costco = KP_UIDZ_PARAM"
| "site_param Ticketmaster = KP_UIDZ_PARAM"
| "site_param Twitch = KP_UIDZ_PARAM"

definition carries_challenge :: "site \<Rightarrow> bool" where
  "carries_challenge s \<longleftrightarrow> s = NikeApi"

subsection \<open>The query\<close>

datatype query_error =
    MissingHost
  | UnsupportedDomain str
  | MissingParam str
  | EmptyParam str
  | InvalidParam str

record link_view =
  lv_host :: "str option"
  lv_query :: "str option"

record ips_query =
  iq_site :: site
  iq_v :: str
  iq_im :: str
  iq_h :: "str option"
  iq_fc :: "str option"

definition require_param :: "str option \<Rightarrow> str \<Rightarrow> query_error + str" where
  "require_param slot name =
     (case slot of
        None \<Rightarrow> Inl (MissingParam name)
      | Some value \<Rightarrow> if value = [] then Inl (EmptyParam name) else Inr value)"

definition decoded_param :: "(str \<Rightarrow> str option) \<Rightarrow> str option \<Rightarrow> str \<Rightarrow> query_error + str" where
  "decoded_param urldecode slot name =
     res_bind (require_param slot name) (\<lambda>value. opt_res (InvalidParam name) (urldecode value))"

text \<open>\<open>pair.split_once('=')\<close>, with an empty value when there is no sign of equality.\<close>

definition split_pair :: "str \<Rightarrow> str \<times> str" where
  "split_pair pair = (takeWhile (\<lambda>c. c \<noteq> 61) pair, drop 1 (dropWhile (\<lambda>c. c \<noteq> 61) pair))"

record param_slots =
  ps_v :: "str option"
  ps_im :: "str option"
  ps_site :: "str option"
  ps_h :: "str option"
  ps_fc :: "str option"

definition keep_first :: "'a option \<Rightarrow> 'a \<Rightarrow> 'a option" where
  "keep_first slot x = (case slot of None \<Rightarrow> Some x | Some y \<Rightarrow> Some y)"

text \<open>One pair; \<open>None\<close> when it is none of the parameters.\<close>

definition take_pair :: "str \<Rightarrow> bool \<Rightarrow> str \<times> str \<Rightarrow> param_slots \<Rightarrow> param_slots option" where
  "take_pair site_name challenge kv st =
     (let (k, x) = kv in
      if k = V_PARAM then Some (st\<lparr>ps_v := keep_first (ps_v st) x\<rparr>)
      else if k = IM_PARAM then Some (st\<lparr>ps_im := keep_first (ps_im st) x\<rparr>)
      else if k = site_name then Some (st\<lparr>ps_site := keep_first (ps_site st) x\<rparr>)
      else if challenge \<and> k = H_PARAM then Some (st\<lparr>ps_h := keep_first (ps_h st) x\<rparr>)
      else if challenge \<and> k = FC_PARAM then Some (st\<lparr>ps_fc := keep_first (ps_fc st) x\<rparr>)
      else None)"

definition all_found :: "bool \<Rightarrow> param_slots \<Rightarrow> bool" where
  "all_found challenge st \<longleftrightarrow> ps_v st \<noteq> None \<and> ps_im st \<noteq> None \<and> ps_site st \<noteq> None \<and>
     (\<not> challenge \<or> ps_h st \<noteq> None \<and> ps_fc st \<noteq> None)"

fun scan_pairs :: "str \<Rightarrow> bool \<Rightarrow> str list \<Rightarrow> param_slots \<Rightarrow> param_slots" where
  "scan_pairs site_name challenge [] st = st"
| "scan_pairs site_name challenge (pair # pairs) st =
     (case take_pair site_name challenge (split_pair pair) st of
        None \<Rightarrow> scan_pairs site_name challenge pairs st
      | Some st' \<Rightarrow> if all_found challenge st' then st' else scan_pairs site_name challenge pairs st')"

definition no_params :: param_slots where
  "no_params = \<lparr>ps_v = None, ps_im = None, ps_site = None, ps_h = None, ps_fc = None\<rparr>"

definition parse_link :: "(str \<Rightarrow> str option) \<Rightarrow> link_view \<Rightarrow> query_error + ips_query" where
  "parse_link urldecode url =
     res_bind (opt_res MissingHost (lv_host url)) (\<lambda>host.
     res_bind (opt_res (UnsupportedDomain host) (from_host host)) (\<lambda>site.
     let site_name = site_param site; challenge = carries_challenge site;
         st = (case lv_query url of None \<Rightarrow> no_params
               | Some query \<Rightarrow> scan_pairs site_name challenge (split_on 38 query) no_params) in
     res_bind (require_param (ps_v st) V_PARAM) (\<lambda>v.
     res_bind (require_param (ps_im st) IM_PARAM) (\<lambda>im.
     res_bind (require_param (ps_site st) site_name) (\<lambda>_.
     res_bind (if challenge then map_sum id Some (decoded_param urldecode (ps_h st) H_PARAM) else Inr None) (\<lambda>h.
     res_bind (if challenge then map_sum id Some (decoded_param urldecode (ps_fc st) FC_PARAM) else Inr None) (\<lambda>fc.
     Inr \<lparr>iq_site = site, iq_v = v, iq_im = im, iq_h = h, iq_fc = fc\<rparr>)))))))"

subsection \<open>The first value counts\<close>

text \<open>The reference: every parameter is looked up in the whole query.\<close>

definition link_params :: "link_view \<Rightarrow> (str \<times> str) list" where
  "link_params url = (case lv_query url of None \<Rightarrow> [] | Some query \<Rightarrow> map split_pair (split_on 38 query))"

definition lookup_link :: "(str \<Rightarrow> str option) \<Rightarrow> site \<Rightarrow> (str \<Rightarrow> str option) \<Rightarrow> query_error + ips_query" where
  "lookup_link urldecode site find_param =
     (let need = (\<lambda>name. require_param (find_param name) name);
          decoded = (\<lambda>name. if site = NikeApi then map_sum id Some (decoded_param urldecode (find_param name) name)
                            else Inr None)
      in res_bind (need V_PARAM) (\<lambda>v. res_bind (need IM_PARAM) (\<lambda>im. res_bind (need (site_param site)) (\<lambda>_.
         res_bind (decoded H_PARAM) (\<lambda>h. res_bind (decoded FC_PARAM) (\<lambda>fc.
         Inr \<lparr>iq_site = site, iq_v = v, iq_im = im, iq_h = h, iq_fc = fc\<rparr>))))))"

text \<open>The slots hold the first values of the pairs seen.\<close>

definition slots_hold :: "str \<Rightarrow> bool \<Rightarrow> (str \<Rightarrow> str option) \<Rightarrow> param_slots \<Rightarrow> bool" where
  "slots_hold site_name challenge m st \<longleftrightarrow>
     ps_v st = m V_PARAM \<and> ps_im st = m IM_PARAM \<and> ps_site st = m site_name \<and>
     (challenge \<longrightarrow> ps_h st = m H_PARAM \<and> ps_fc st = m FC_PARAM)"

definition proper_site_name :: "str \<Rightarrow> bool" where
  "proper_site_name s \<longleftrightarrow> s \<noteq> V_PARAM \<and> s \<noteq> IM_PARAM \<and> s \<noteq> H_PARAM \<and> s \<noteq> FC_PARAM"

lemma param_names_distinct:
  "V_PARAM \<noteq> IM_PARAM" "V_PARAM \<noteq> H_PARAM" "V_PARAM \<noteq> FC_PARAM" "IM_PARAM \<noteq> H_PARAM" "IM_PARAM \<noteq> FC_PARAM"
  "H_PARAM \<noteq> FC_PARAM"
  by (simp_all add: V_PARAM_def IM_PARAM_def H_PARAM_def FC_PARAM_def chars_def)

lemma site_param_proper: "proper_site_name (site_param s)"
  by (cases s)
    (simp_all add: proper_site_name_def V_PARAM_def IM_PARAM_def H_PARAM_def FC_PARAM_def chars_def
      NIKE_API_PARAM_def CHAMPSSPORTS_PARAM_def FOOTLOCKER_PARAM_def KP_UIDZ_PARAM_def)

lemma map_of_snoc: "map_of (xs @ [(k, x)]) n = (case map_of xs n of None \<Rightarrow> if n = k then Some x else None | Some y \<Rightarrow> Some y)"
  by (auto simp: map_add_def split: option.splits)

lemma take_pair_holds:
  assumes "slots_hold s ch (map_of seen) st" "proper_site_name s"
  shows "case take_pair s ch kv st of
      None \<Rightarrow> slots_hold s ch (map_of (seen @ [kv])) st
    | Some st' \<Rightarrow> slots_hold s ch (map_of (seen @ [kv])) st'"
  using assms param_names_distinct param_names_distinct[symmetric]
  by (cases kv)
    (auto simp: take_pair_def slots_hold_def proper_site_name_def keep_first_def map_of_snoc
      simp del: map_of_append split: option.splits)

lemma all_found_holds:
  "slots_hold s ch (map_of seen) st \<Longrightarrow> all_found ch st \<Longrightarrow> slots_hold s ch (map_of (seen @ others)) st"
  by (auto simp: slots_hold_def all_found_def map_add_def)

lemma scan_pairs_holds:
  "slots_hold s ch (map_of seen) st \<Longrightarrow> proper_site_name s \<Longrightarrow>
    slots_hold s ch (map_of (seen @ map split_pair pairs)) (scan_pairs s ch pairs st)"
proof (induction pairs arbitrary: seen st)
  case (Cons pair pairs)
  have seen: "seen @ map split_pair (pair # pairs) = (seen @ [split_pair pair]) @ map split_pair pairs" by simp
  note holds = take_pair_holds[OF Cons.prems, of "split_pair pair"]
  show ?case
  proof (cases "take_pair s ch (split_pair pair) st")
    case None
    then show ?thesis using Cons.IH[OF _ Cons.prems(2), of "seen @ [split_pair pair]" st] holds unfolding seen by simp
  next
    case (Some st')
    then have st': "slots_hold s ch (map_of (seen @ [split_pair pair])) st'" using holds by simp
    show ?thesis
      unfolding seen
      using Some Cons.IH[OF st' Cons.prems(2)] all_found_holds[OF st', of "map split_pair pairs"]
      by (simp only: scan_pairs.simps option.case split: if_split) blast
  qed
qed simp

lemma slots_lookup:
  assumes "slots_hold (site_param site) (carries_challenge site) m st"
  shows "res_bind (require_param (ps_v st) V_PARAM) (\<lambda>v.
     res_bind (require_param (ps_im st) IM_PARAM) (\<lambda>im.
     res_bind (require_param (ps_site st) (site_param site)) (\<lambda>_.
     res_bind (if carries_challenge site then map_sum id Some (decoded_param urldecode (ps_h st) H_PARAM) else Inr None) (\<lambda>h.
     res_bind (if carries_challenge site then map_sum id Some (decoded_param urldecode (ps_fc st) FC_PARAM) else Inr None) (\<lambda>fc.
     Inr \<lparr>iq_site = site, iq_v = v, iq_im = im, iq_h = h, iq_fc = fc\<rparr>)))))
    = lookup_link urldecode site m"
  using assms by (auto simp: lookup_link_def slots_hold_def carries_challenge_def Let_def)

text \<open>C40: Parsing a link gives, for every parameter of its site, the first value that the query has
  for it: although the scan stops when it has them all and a parameter may come again, the result is
  that of looking each parameter up in the whole query, with the same error when one is missing,
  empty or not decodable, in the order version, image, site, then for the API host the two parts of
  the challenge. The name of no site's parameter hides another.\<close>

theorem parse_link_first:
  "parse_link urldecode url =
     res_bind (opt_res MissingHost (lv_host url)) (\<lambda>host.
     res_bind (opt_res (UnsupportedDomain host) (from_host host)) (\<lambda>site.
     lookup_link urldecode site (map_of (link_params url))))"
proof -
  have "slots_hold (site_param site) (carries_challenge site) (map_of (link_params url))
      (case lv_query url of None \<Rightarrow> no_params
       | Some query \<Rightarrow> scan_pairs (site_param site) (carries_challenge site) (split_on 38 query) no_params)" for site
    using scan_pairs_holds[of "site_param site" "carries_challenge site" "[]" no_params, OF _ site_param_proper]
    by (auto simp: link_params_def slots_hold_def no_params_def split: option.split)
  from slots_lookup[OF this] show ?thesis by (simp only: parse_link_def Let_def)
qed

subsection \<open>Hosts\<close>

text \<open>
  A host is judged by the label before the last one, in any case and with any number of dots after
  it; only the API host is compared as a whole.
\<close>

lemma split_on_free: "c \<notin> set xs \<Longrightarrow> split_on c xs = [xs]"
  by (induction xs) auto

lemma split_on_snoc: "c \<notin> set ys \<Longrightarrow> split_on c (xs @ c # ys) = split_on c xs @ [ys]"
  by (induction xs) (auto simp: split_on_free split: list.splits)

lemma trim_end_dots: "x \<noteq> c \<Longrightarrow> trim_end (\<lambda>d. d = c) (xs @ [x] @ replicate n c) = xs @ [x]"
proof -
  assume "x \<noteq> c"
  moreover have "dropWhile (\<lambda>d. d = c) (replicate n c @ ys) = dropWhile (\<lambda>d. d = c) ys" for ys
    by (induction n) auto
  ultimately show ?thesis by (simp add: trim_end_def)
qed

lemma from_host_label:
  assumes "46 \<notin> set name" "46 \<notin> set tld" "tld \<noteq> []"
    and "\<not> eq_ignore_ascii_case (as_bytes (sub @ 46 # name @ 46 # tld)) (bytes ''api.nike.com'')"
  shows "from_host (sub @ 46 # name @ 46 # tld @ replicate n 46) =
    map_option snd (find (\<lambda>(label, _). eq_ignore_ascii_case (as_bytes name) (bytes label)) SITE_LABELS)"
proof -
  obtain ys y where t: "tld = ys @ [y]" using assms(3) by (cases tld rule: rev_cases) auto
  have "trim_end (\<lambda>c. c = 46) ((sub @ 46 # name @ 46 # ys) @ [y] @ replicate n 46) = (sub @ 46 # name @ 46 # ys) @ [y]"
    using assms(2) by (intro trim_end_dots) (auto simp: t)
  then have trim: "trim_end (\<lambda>c. c = 46) (sub @ 46 # name @ 46 # tld @ replicate n 46) = sub @ 46 # name @ 46 # tld"
    by (simp add: t)
  have "split_on 46 (sub @ 46 # name @ 46 # tld) = split_on 46 sub @ [name, tld]"
    using split_on_snoc[OF assms(2), of "sub @ 46 # name"] split_on_snoc[OF assms(1), of sub] by simp
  then show ?thesis using assms(3,4) by (simp add: from_host_def trim Let_def)
qed

end
