(* ===== verification/Spec2Isabelle.thy ===== *)
theory Spec2Isabelle
  imports Decoder Disassembler Handlers Config ConfigSample Encoder Fetch Cache FcLattice FcApply FcProgram FcSolver FcProps FcReaders Pipeline WorktimeRoute PayloadIr PayloadDisasm PayloadReach PayloadBlocks PayloadJson PayloadCrypt PayloadArraySort PayloadBlobProps PayloadQuery
begin

text \<open>
  Verification of lunar-kasada-api, a server that answers the two challenges of a bot protection:
  the \<^emph>\<open>worktime\<close> challenge, a proof of work whose parameters are hidden in an obfuscated script,
  and the \<^emph>\<open>payload\<close>, an encrypted report whose layout is hidden in a second one. The paths below
  are relative to the directory \<open>src\<close> of the crate.

  \<^bold>\<open>Parts and how they interact.\<close> For a worktime request \<open>routes/worktime.rs\<close> asks
  \<open>worktime/cache.rs\<close> for the parameters of a host. The cache downloads the script at most once at a
  time (\<open>worktime/fetch.rs\<close>) and runs it through \<open>worktime/pipeline.rs\<close>: the deobfuscator finds the
  text of a program in the script, \<open>decoder.rs\<close> turns it into words, \<open>disassembler.rs\<close> into
  instructions whose handlers \<open>handlers.rs\<close> recognises by fingerprint, and \<open>config.rs\<close> reads the
  parameters out of the instructions. A response header may override them: \<open>fc.rs\<close> analyses what the
  program does with it and applies it. \<open>encoder.rs\<close> solves the proof of work and writes the answer.
  For a payload request \<open>payload/query.rs\<close> reads the link; \<open>blob.rs\<close> decodes the program of the
  script, \<open>disasm.rs\<close> disassembles it into the instructions of \<open>ir.rs\<close>, \<open>decompile.rs\<close> splits it into
  basic blocks; \<open>exec.rs\<close> interprets the script's own code; \<open>assemble.rs\<close> writes the values as one JSON
  array and encrypts it.

  \<^bold>\<open>Theories.\<close> Each opens with what it holds.

  \<^item> \<open>Prelude\<close>, \<open>F64\<close>, \<open>Strings\<close>: the machine types, errors as values of a sum with
    \<open>res_bind\<close> for the question mark of Rust, lists by index, association tables (\<open>keyed_table\<close>), binary
    search; IEEE doubles that compute; text, UTF-8, UTF-16 and decimal numbers.
  \<^item> \<open>Model\<close>, \<open>Decoder\<close>, \<open>Disassembler\<close>, \<open>Handlers\<close>, \<open>Config\<close>, \<open>ConfigSample\<close>: the files of the same
    names under \<open>worktime\<close>; the sample is a program on which the extraction succeeds.
  \<^item> \<open>Encoder\<close>: \<open>worktime/encoder.rs\<close>. \<open>Fetch\<close>: \<open>fetch.rs\<close>. \<open>Cache\<close>: \<open>cache.rs\<close>, the functions
    under the locks and a step relation of callers, downloads, aborts and cancellations.
  \<^item> \<open>FcLattice\<close>, \<open>Parse\<close>, \<open>FcApply\<close>, \<open>FcProgram\<close>, \<open>FcSolver\<close>, \<open>FcProps\<close>, \<open>FcReaders\<close>: \<open>fc.rs\<close>; the
    lattice of values, the application of overrides, the view of the program, the solver, what it has
    reached when it ends, and that no change of a location is missed.
  \<^item> \<open>Pipeline\<close>, \<open>WorktimeRoute\<close>: \<open>worktime/pipeline.rs\<close> and \<open>routes/worktime.rs\<close>, composed of the
    models of their stages.
  \<^item> \<open>PayloadIr\<close>, \<open>PayloadDisasm\<close>, \<open>PayloadReach\<close>, \<open>PayloadBlocks\<close>: \<open>payload/ir.rs\<close>, \<open>disasm.rs\<close> (the
    decoding of one instruction, and the work list) and \<open>decompile.rs\<close>.
  \<^item> \<open>PayloadJson\<close>, \<open>PayloadCrypt\<close>: \<open>payload/assemble.rs\<close>, with \<open>num_to_str\<close> of \<open>exec.rs\<close>.
  \<^item> \<open>PayloadSort\<close>, \<open>PayloadGallop\<close>, \<open>PayloadMerge\<close>, \<open>PayloadMergeHigh\<close>, \<open>PayloadTimsort\<close>,
    \<open>PayloadArraySort\<close>: the array methods \<open>sort\<close> and \<open>toSorted\<close> of \<open>exec.rs\<close>; the code in the first, the
    proofs from the searches up to the methods in the others.
  \<^item> \<open>PayloadBlob\<close>, \<open>PayloadBlobProps\<close>: the decoder in \<open>payload/blob.rs\<close>. \<open>PayloadQuery\<close>:
    \<open>payload/query.rs\<close>.

  A definition has the name of the function it models; a record or datatype that of the type. A
  loop is a recursive function with the name of its function and the suffix \<open>_loop\<close>, and its state are
  the arguments. State that several calls share is a record that is passed along; the cache and the
  callers around it are a relation.

  \<^bold>\<open>What the lemmas show.\<close> The properties carry the claims \<open>C1\<close> to \<open>C40\<close> and stand in the theories of
  their components. In groups: round trips (blob and pool, assembling and disassembling, encryption,
  JSON); exactness of hand-written routines against a plain description (\<open>to_int32\<close>, doubles from two
  words, the fingerprint table, the header directives, property indices, the fast instruction decoder,
  the integer path of the blob decoder, the sort by runs against the stable sort); soundness of what is
  extracted and bounds of buffers; completeness of the error values; invariants of reachable states of
  the cache and of the solver, with liveness of waiting callers and termination of the solver; and the
  composition of the worktime stages.

  \<^bold>\<open>Interfaces.\<close> \<open>keyed_table\<close> is the contract of a table with unique keys, interpreted for the table of
  handlers and for listings. \<open>ranked_join\<close> is a join that only moves up a bounded rank, interpreted for
  taints, tags and values. \<open>solver_ops\<close> and \<open>solver_preorder\<close> say what every operation of the solver
  keeps, interpreted for what grows, what climbs and who is told. \<open>expiry\<close> is what the cache relies on of
  a lifetime, interpreted for the HTTP headers. \<open>compare_laws\<close> is what the sort relies on of a
  comparison, interpreted for the comparison of the interpreter.

  \<^bold>\<open>Bounds and recursion.\<close> Every function is total except \<open>block_loop\<close> of \<open>PayloadBlocks\<close>, the loop of the
  decompiler without a bound of its own, a \<open>partial_function\<close> that is proved to return on what the
  disassembler gives. The solver counts its steps: \<open>run\<close> takes the number of steps as fuel, and
  \<open>FcProps\<close> gives a number that is enough for every program. The finishing loops of \<open>PayloadBlob\<close> return
  \<open>None\<close> where the code would spin, which \<open>PayloadBlobProps\<close> excludes. Integers have their width where it matters; a
  position in a slice is a natural number, an index out of range a value \<open>None\<close> or an error of its
  own, so that its absence is proved. Three properties bound their input: fewer than \<open>2 ^ 63\<close> elements
  for the sort (a slice has no more), fewer than \<open>2 ^ 31\<close> units and an alphabet of at most \<open>2 ^ 10\<close> for the
  blob (up to there every intermediate product is exact as a double).

  \<^bold>\<open>Parameters.\<close> Code that is not in the repository is an argument of the definitions that use it:
  SHA-256, the clock and random bytes, the HTTP client and framework, the URL parser and percent
  decoding, the JSON parser and its tree, base64, the shortest digits of a double (\<open>ryu\<close>), the syntax
  tree that \<open>Handlers\<close> walks, and for the sort the rest of the interpreter (conversions, calls of
  script functions, the heap of arrays). No theorem assumes of them more than it states.

  \<^bold>\<open>Not modelled.\<close> What works on the syntax tree of the oxc parser, a crate: the deobfuscator
  (\<open>worktime/deobfuscator.rs\<close>), \<open>payload/anatomy.rs\<close>, \<open>ast.rs\<close>, \<open>walk.rs\<close>, \<open>fold.rs\<close> but for its number
  conversions, \<open>opaque.rs\<close>, \<open>operand.rs\<close>, \<open>handlers.rs\<close>, \<open>lift.rs\<close> and the first half of \<open>blob.rs\<close>. What rewrites the blocks into
  structured functions, \<open>devirt.rs\<close> and \<open>defer.rs\<close>, and what runs those: the interpreter of \<open>exec.rs\<close>, its
  compiler and its heap of values, apart from \<open>num_to_str\<close> and the sort. What rests on them:
  \<open>emulate.rs\<close>, \<open>probe.rs\<close>, \<open>compute.rs\<close>, \<open>values.rs\<close>,
  \<open>catalog.rs\<close>, \<open>stack.rs\<close>, finding the keys in \<open>assemble.rs\<close>, \<open>payload/pipeline.rs\<close>, and the routes
  \<open>payload.rs\<close> and \<open>test.rs\<close>. Random draws of times (\<open>timing.rs\<close>). Input and output without logic of
  their own: \<open>main.rs\<close>, the client, TLS, profiles and static headers under \<open>utils\<close>, and the vendored
  code there.
\<close>

end
